(* ===== verification/Nesso_Prelude.thy ===== *)
theory Nesso_Prelude
  imports "HOL-Library.Word" "HOL-Library.AList" "HOL-Library.Product_Lexorder"
begin

text \<open>
  What every component of the development shares: the machine integers of the Rust
  sources, the two ways a call can fail (an \<open>io::Error\<close> value or a panic), the
  standard library's \<open>HashMap\<close> as an association list with distinct keys, the
  big-endian byte conversions of \<open>u32\<close> and \<open>u64\<close>, byte slices, and the generic
  lemmas on lists, maps and words that the component proofs use.
\<close>

named_theorems hmap_simps "lookups after an update of an association list"
named_theorems codec_simps "lengths and slices of encoded frames"

section \<open>Machine integers and results\<close>

type_synonym u8 = "8 word"
type_synonym u32 = "32 word"
type_synonym u64 = "64 word"
type_synonym bytes = "u8 list"

text \<open>
  \<open>io::ErrorKind\<close>, restricted to the kinds the sources construct or test; every other
  kind an operating system call may report is \<open>OtherKind\<close>.
\<close>

datatype error_kind = NotFound | PermissionDenied | InvalidData | UnexpectedEof | OtherKind

text \<open>
  A call ends with a value, with an \<open>io::Error\<close> (its kind and message) or with a panic
  (an \<open>unwrap\<close> or \<open>expect\<close> that fails).
\<close>

datatype rs_error = IoErr error_kind string | Panicked string

type_synonym 'a result = "rs_error + 'a"

section \<open>HashMap\<close>

text \<open>
  \<open>std::collections::HashMap\<close>: an association list whose keys are distinct
  (\<open>hm_ok\<close>). The order of the list stands for the unspecified iteration order.
\<close>

type_synonym ('k, 'v) hmap = "('k \<times> 'v) list"

definition hm_get :: "('k, 'v) hmap \<Rightarrow> 'k \<Rightarrow> 'v option" where
  "hm_get m k = map_of m k"

definition hm_insert :: "'k \<Rightarrow> 'v \<Rightarrow> ('k, 'v) hmap \<Rightarrow> ('k, 'v) hmap" where
  "hm_insert k v m = AList.update k v m"

definition hm_remove :: "'k \<Rightarrow> ('k, 'v) hmap \<Rightarrow> ('k, 'v) hmap" where
  "hm_remove k m = AList.delete k m"

definition hm_contains :: "('k, 'v) hmap \<Rightarrow> 'k \<Rightarrow> bool" where
  "hm_contains m k = (hm_get m k \<noteq> None)"

definition hm_keys :: "('k, 'v) hmap \<Rightarrow> 'k list" where
  "hm_keys m = map fst m"

definition hm_ok :: "('k, 'v) hmap \<Rightarrow> bool" where
  "hm_ok m = distinct (map fst m)"

section \<open>Bytes\<close>

text \<open>The \<open>n\<close> low bytes of a number, most significant first.\<close>

fun be_bytes :: "nat \<Rightarrow> nat \<Rightarrow> bytes" where
  "be_bytes 0 x = []"
| "be_bytes (Suc n) x = be_bytes n (x div 256) @ [of_nat (x mod 256)]"

definition be_value :: "bytes \<Rightarrow> nat" where
  "be_value bs = foldl (\<lambda>a b. a * 256 + unat b) 0 bs"

text \<open>\<open>u32::to_be_bytes\<close>, \<open>u64::to_be_bytes\<close> and their inverses.\<close>

definition u32_to_be_bytes :: "u32 \<Rightarrow> bytes" where
  "u32_to_be_bytes w = be_bytes 4 (unat w)"

definition u64_to_be_bytes :: "u64 \<Rightarrow> bytes" where
  "u64_to_be_bytes w = be_bytes 8 (unat w)"

definition u32_from_be_bytes :: "bytes \<Rightarrow> u32" where
  "u32_from_be_bytes bs = of_nat (be_value bs)"

definition u64_from_be_bytes :: "bytes \<Rightarrow> u64" where
  "u64_from_be_bytes bs = of_nat (be_value bs)"

text \<open>The slice \<open>data[i..j]\<close>.\<close>

definition byte_slice :: "nat \<Rightarrow> nat \<Rightarrow> 'a list \<Rightarrow> 'a list" where
  "byte_slice i j xs = take (j - i) (drop i xs)"

text \<open>\<open>usize::checked_add\<close> on a 64-bit target.\<close>

definition checked_add_usize :: "nat \<Rightarrow> nat \<Rightarrow> nat option" where
  "checked_add_usize a b = (if a + b < 2 ^ 64 then Some (a + b) else None)"

section \<open>Lemmas\<close>

subsection \<open>HashMap\<close>

lemma hm_get_insert [simp, hmap_simps]:
  "hm_get (hm_insert k v m) k' = (if k' = k then Some v else hm_get m k')"
  by (simp add: hm_get_def hm_insert_def update_conv')

lemma hm_get_remove [simp, hmap_simps]:
  "hm_get (hm_remove k m) k' = (if k' = k then None else hm_get m k')"
  by (simp add: hm_get_def hm_remove_def delete_conv')

lemma hm_get_Nil [simp, hmap_simps]: "hm_get [] k = None"
  by (simp add: hm_get_def)

lemma hm_ok_Nil [simp]: "hm_ok []"
  by (simp add: hm_ok_def)

lemma hm_ok_insert [simp, intro]: "hm_ok m \<Longrightarrow> hm_ok (hm_insert k v m)"
  by (simp add: hm_ok_def hm_insert_def distinct_update)

lemma hm_ok_remove [simp, intro]: "hm_ok m \<Longrightarrow> hm_ok (hm_remove k m)"
  by (simp add: hm_ok_def hm_remove_def distinct_delete)

lemma hm_get_Some_iff: "hm_ok m \<Longrightarrow> hm_get m k = Some v \<longleftrightarrow> (k, v) \<in> set m"
  by (simp add: hm_get_def hm_ok_def)

lemma hm_get_None_iff: "hm_get m k = None \<longleftrightarrow> k \<notin> fst ` set m"
  by (simp add: hm_get_def map_of_eq_None_iff)

lemma hm_contains_iff: "hm_contains m k \<longleftrightarrow> k \<in> fst ` set m"
  by (simp add: hm_contains_def hm_get_None_iff)

lemma hm_contains_keys: "hm_contains m k \<longleftrightarrow> k \<in> set (hm_keys m)"
  by (simp add: hm_contains_iff hm_keys_def)

lemma hm_contains_Some: "hm_contains m k \<longleftrightarrow> (\<exists>v. hm_get m k = Some v)"
  by (simp add: hm_contains_def)

lemma hm_keys_insert:
  "set (hm_keys (hm_insert k v m)) = insert k (set (hm_keys m))"
  by (simp add: hm_keys_def hm_insert_def dom_update)

lemma hm_keys_remove:
  "set (hm_keys (hm_remove k m)) = set (hm_keys m) - {k}"
  by (simp add: hm_keys_def hm_remove_def delete_keys flip: set_map)

lemma length_hm_insert:
  "length (hm_insert k v m) = (if hm_contains m k then length m else Suc (length m))"
  by (induction m) (auto simp: hm_insert_def hm_contains_def hm_get_def)

lemma length_hm_remove:
  assumes "hm_ok m"
  shows "length (hm_remove k m) = (if hm_contains m k then length m - 1 else length m)"
proof -
  have "length (hm_remove k m) = length (removeAll k (map fst m))"
    by (metis delete_keys hm_remove_def length_map)
  also have "\<dots> = (if k \<in> set (map fst m) then length m - 1 else length m)"
    using assms by (simp add: hm_ok_def distinct_remove1_removeAll [symmetric] length_remove1)
  finally show ?thesis by (simp add: hm_contains_iff)
qed

lemma hm_remove_id: "\<not> hm_contains m k \<Longrightarrow> hm_remove k m = m"
  by (simp add: hm_contains_iff hm_remove_def)

subsection \<open>Bytes\<close>

lemma length_be_bytes [simp, codec_simps]: "length (be_bytes n x) = n"
  by (induction n arbitrary: x) auto

lemma length_u32_to_be_bytes [simp, codec_simps]: "length (u32_to_be_bytes w) = 4"
  by (simp add: u32_to_be_bytes_def)

lemma length_u64_to_be_bytes [simp, codec_simps]: "length (u64_to_be_bytes w) = 8"
  by (simp add: u64_to_be_bytes_def)

lemma be_value_append [simp]: "be_value (xs @ [b]) = be_value xs * 256 + unat b"
  by (simp add: be_value_def)

lemma unat_byte [simp]: "unat (of_nat (x mod 256) :: u8) = x mod 256"
  by (simp add: unat_of_nat)

lemma be_value_be_bytes: "be_value (be_bytes n x) = x mod 256 ^ n"
proof (induction n arbitrary: x)
  case 0
  then show ?case by (simp add: be_value_def)
next
  case (Suc n)
  then have "be_value (be_bytes (Suc n) x) = (x div 256) mod 256 ^ n * 256 + x mod 256"
    by simp
  also have "\<dots> = x mod 256 ^ Suc n"
    by (simp add: mod_mult2_eq mult.commute)
  finally show ?case .
qed

lemma be_bytes_be_value: "be_bytes (length bs) (be_value bs) = bs"
proof (induction bs rule: rev_induct)
  case Nil
  then show ?case by simp
next
  case (snoc b bs)
  have "unat b < 256"
    using unsigned_less [where 'a = nat, of b] by simp
  then show ?case using snoc by simp
qed

lemma be_value_less: "be_value bs < 256 ^ length bs"
  by (metis be_bytes_be_value be_value_be_bytes mod_less_divisor zero_less_numeral zero_less_power)

lemma u32_be_roundtrip [simp]: "u32_from_be_bytes (u32_to_be_bytes w) = w"
proof -
  have "unat w < 256 ^ 4"
    using unsigned_less [where 'a = nat, of w] by simp
  then show ?thesis
    by (simp add: u32_from_be_bytes_def u32_to_be_bytes_def be_value_be_bytes)
qed

lemma u64_be_roundtrip [simp]: "u64_from_be_bytes (u64_to_be_bytes w) = w"
proof -
  have "unat w < 256 ^ 8"
    using unsigned_less [where 'a = nat, of w] by simp
  then show ?thesis
    by (simp add: u64_from_be_bytes_def u64_to_be_bytes_def be_value_be_bytes)
qed

lemma u32_be_inverse: "length bs = 4 \<Longrightarrow> u32_to_be_bytes (u32_from_be_bytes bs) = bs"
  using be_value_less [of bs] be_bytes_be_value [of bs]
  by (simp add: u32_from_be_bytes_def u32_to_be_bytes_def unat_of_nat)

lemma u64_be_inverse: "length bs = 8 \<Longrightarrow> u64_to_be_bytes (u64_from_be_bytes bs) = bs"
  using be_value_less [of bs] be_bytes_be_value [of bs]
  by (simp add: u64_from_be_bytes_def u64_to_be_bytes_def unat_of_nat)

lemma length_byte_slice [simp]: "length (byte_slice i j xs) = min (j - i) (length xs - i)"
  by (simp add: byte_slice_def min.commute)

lemma byte_slice_append_skip: "length xs \<le> i \<Longrightarrow> byte_slice i j (xs @ ys) = byte_slice (i - length xs) (j - length xs) ys"
  by (simp add: byte_slice_def)

lemma byte_slice_append_take: "length xs = j \<Longrightarrow> byte_slice 0 j (xs @ ys) = xs"
  by (simp add: byte_slice_def)

lemma byte_slice_join: "i \<le> j \<Longrightarrow> j \<le> k \<Longrightarrow> byte_slice i j xs @ byte_slice j k xs = byte_slice i k xs"
  by (auto simp: byte_slice_def le_iff_add take_add drop_drop add.commute)

lemma byte_slice_single: "i < length xs \<Longrightarrow> byte_slice i (Suc i) xs = [xs ! i]"
  by (simp add: byte_slice_def take_Suc_conv_app_nth)

lemma byte_slice_0: "byte_slice 0 n xs = take n xs"
  by (simp add: byte_slice_def)

lemma length_takeWhile_less: "\<exists>x \<in> set xs. \<not> P x \<Longrightarrow> length (takeWhile P xs) < length xs"
  by (induction xs) auto

subsection \<open>Words\<close>

lemma word_less_plus_one: "(w :: 'a::len word) \<noteq> - 1 \<Longrightarrow> w < w + 1"
  using inc_less_eq_triv_imp leI by blast

lemma word_le_not_eq_less_succ: "(w :: 'a::len word) \<noteq> - 1 \<Longrightarrow> v \<le> w \<Longrightarrow> v < w + 1"
  using word_less_plus_one order_le_less_trans by blast

subsection \<open>Sums\<close>

text \<open>A sum over components one of which changes.\<close>

lemma sum_update:
  assumes "finite A" "i \<in> A"
  shows "(\<Sum>j \<in> A. f ((w(i := x)) j)) + f (w i) = (\<Sum>j \<in> A. f (w j)) + (f x :: nat)"
proof -
  have "(\<Sum>j \<in> A - {i}. f ((w(i := x)) j)) = (\<Sum>j \<in> A - {i}. f (w j))" by (rule sum.cong) auto
  then show ?thesis using sum.remove [OF assms, of "\<lambda>j. f ((w(i := x)) j)"] sum.remove [OF assms, of "\<lambda>j. f (w j)"] by simp
qed

end
