(* ===== verification/Wal_Record.thy ===== *)
theory Wal_Record
  imports Nesso_Prelude
begin

text \<open>
  The log record and its binary frame, \<open>src/src/storage/record.rs\<close>: \<open>OpType\<close>,
  \<open>Record\<close>, \<open>Record::encode\<close>, \<open>Record::decode\<close>. The checksum is the third-party
  \<open>crc32fast\<close> hasher and so a parameter \<open>crc\<close> of every definition that uses it.
  The lemmas show that a frame decodes to the record it was made from whatever follows it,
  that the decoder accepts nothing but frames of the encoder, and that a torn or damaged
  frame is rejected.
\<close>

section \<open>Data\<close>

datatype OpType = Created | Leased | Acked | Nacked | Expired | DeadLettered

record Record =
  rec_id :: u64
  op_type :: OpType
  rec_priority :: u8
  rec_payload :: bytes

definition new_record :: "u64 \<Rightarrow> OpType \<Rightarrow> u8 \<Rightarrow> bytes \<Rightarrow> Record" where
  "new_record i t p bs = \<lparr>rec_id = i, op_type = t, rec_priority = p, rec_payload = bs\<rparr>"

definition MAGIC_BYTE :: u8 where
  "MAGIC_BYTE = 0x4E"

definition HEADER_SIZE :: nat where
  "HEADER_SIZE = 19"

definition MAX_PAYLOAD_SIZE :: nat where
  "MAX_PAYLOAD_SIZE = 64 * 1024 * 1024"

text \<open>The discriminants of the enum (\<open>op_type as u8\<close>) and their inverse.\<close>

fun op_byte :: "OpType \<Rightarrow> u8" where
  "op_byte Created = 0"
| "op_byte Leased = 1"
| "op_byte Acked = 2"
| "op_byte Nacked = 3"
| "op_byte Expired = 4"
| "op_byte DeadLettered = 5"

definition op_of_byte :: "u8 \<Rightarrow> OpType option" where
  "op_of_byte b =
     (if b = 0 then Some Created else if b = 1 then Some Leased
      else if b = 2 then Some Acked else if b = 3 then Some Nacked
      else if b = 4 then Some Expired else if b = 5 then Some DeadLettered else None)"

section \<open>Frames\<close>

text \<open>The checksummed part of a frame: everything behind magic byte and checksum.\<close>

definition frame_body :: "Record \<Rightarrow> bytes" where
  "frame_body r =
     op_byte (op_type r) # rec_priority r # u64_to_be_bytes (rec_id r) @
     u32_to_be_bytes (of_nat (length (rec_payload r))) @ rec_payload r"

definition encode :: "(bytes \<Rightarrow> u32) \<Rightarrow> Record \<Rightarrow> bytes" where
  "encode crc r = MAGIC_BYTE # u32_to_be_bytes (crc (frame_body r)) @ frame_body r"

definition extract_payload_len :: "bytes \<Rightarrow> nat" where
  "extract_payload_len header = unat (u32_from_be_bytes (byte_slice 15 19 header))"

definition decode :: "(bytes \<Rightarrow> u32) \<Rightarrow> bytes \<Rightarrow> Record option" where
  "decode crc data =
     (if length data < HEADER_SIZE then None
      else if data ! 0 \<noteq> MAGIC_BYTE then None
      else let payload_len = unat (u32_from_be_bytes (byte_slice 15 19 data)) in
        if payload_len > MAX_PAYLOAD_SIZE then None
        else case checked_add_usize HEADER_SIZE payload_len of
          None \<Rightarrow> None
        | Some total_len \<Rightarrow>
            if length data < total_len then None
            else let expected_checksum = u32_from_be_bytes (byte_slice 1 5 data) in
              if crc (byte_slice 5 total_len data) \<noteq> expected_checksum then None
              else case op_of_byte (data ! 5) of
                None \<Rightarrow> None
              | Some t \<Rightarrow>
                  Some (new_record (u64_from_be_bytes (byte_slice 7 15 data)) t (data ! 6)
                         (byte_slice 19 total_len data)))"

text \<open>A record the decoder can give back: its payload respects the size limit.\<close>

definition storable :: "Record \<Rightarrow> bool" where
  "storable r = (length (rec_payload r) \<le> MAX_PAYLOAD_SIZE)"

section \<open>Lemmas\<close>

lemma new_record_simps [simp]:
  "rec_id (new_record i t p bs) = i" "op_type (new_record i t p bs) = t"
  "rec_priority (new_record i t p bs) = p" "rec_payload (new_record i t p bs) = bs"
  by (simp_all add: new_record_def)

lemma op_of_byte_op_byte [simp]: "op_of_byte (op_byte t) = Some t"
  by (cases t) (simp_all add: op_of_byte_def)

lemma op_of_byte_Some: "op_of_byte b = Some t \<longleftrightarrow> b = op_byte t"
  by (cases t) (auto simp: op_of_byte_def)

lemma length_frame_body [simp, codec_simps]: "length (frame_body r) = 14 + length (rec_payload r)"
  by (simp add: frame_body_def)

lemma length_encode [simp, codec_simps]:
  "length (encode crc r) = HEADER_SIZE + length (rec_payload r)"
  by (simp add: encode_def HEADER_SIZE_def)

lemma encode_nonempty [simp]: "encode crc r \<noteq> []"
  by (simp add: encode_def)

text \<open>The fields of a frame, read out of a buffer that starts with it.\<close>

lemma encode_magic [codec_simps]: "(encode crc r @ rest) ! 0 = MAGIC_BYTE"
  by (simp add: encode_def)

lemma encode_checksum_field [codec_simps]:
  "byte_slice 1 5 (encode crc r @ rest) = u32_to_be_bytes (crc (frame_body r))"
  by (simp add: encode_def byte_slice_def)

lemma encode_op_field [codec_simps]: "(encode crc r @ rest) ! 5 = op_byte (op_type r)"
  by (simp add: encode_def frame_body_def nth_append)

lemma encode_priority_field [codec_simps]: "(encode crc r @ rest) ! 6 = rec_priority r"
  by (simp add: encode_def frame_body_def nth_append)

lemma encode_id_field [codec_simps]:
  "byte_slice 7 15 (encode crc r @ rest) = u64_to_be_bytes (rec_id r)"
  by (simp add: encode_def frame_body_def byte_slice_def drop_append)

lemma encode_len_field [codec_simps]:
  "byte_slice 15 19 (encode crc r @ rest) = u32_to_be_bytes (of_nat (length (rec_payload r)))"
  by (simp add: encode_def frame_body_def byte_slice_def)

lemma encode_payload_field [codec_simps]:
  "byte_slice 19 (HEADER_SIZE + length (rec_payload r)) (encode crc r @ rest) = rec_payload r"
  by (simp add: encode_def frame_body_def byte_slice_def HEADER_SIZE_def)

lemma encode_body_field [codec_simps]:
  "byte_slice 5 (HEADER_SIZE + length (rec_payload r)) (encode crc r @ rest) = frame_body r"
  by (simp add: encode_def byte_slice_def HEADER_SIZE_def)

lemma unat_of_nat_u32: "n < 2 ^ 32 \<Longrightarrow> unat (of_nat n :: u32) = n"
  by (simp add: unat_of_nat)

lemma storable_len: "storable r \<Longrightarrow> unat (of_nat (length (rec_payload r)) :: u32) = length (rec_payload r)"
  by (simp add: storable_def MAX_PAYLOAD_SIZE_def unat_of_nat_u32)

lemma storable_len_inject:
  assumes "storable r" "storable r'"
    and "(of_nat (length (rec_payload r)) :: u32) = of_nat (length (rec_payload r'))"
  shows "length (rec_payload r) = length (rec_payload r')"
  using storable_len [OF assms(1)] storable_len [OF assms(2)] assms(3) by metis

lemma checked_add_header:
  "n \<le> MAX_PAYLOAD_SIZE \<Longrightarrow> checked_add_usize HEADER_SIZE n = Some (HEADER_SIZE + n)"
  by (simp add: checked_add_usize_def HEADER_SIZE_def MAX_PAYLOAD_SIZE_def)

lemma decode_encode_append:
  assumes "storable r"
  shows "decode crc (encode crc r @ rest) = Some r"
proof -
  let ?d = "encode crc r @ rest"
  have len: "unat (u32_from_be_bytes (byte_slice 15 19 ?d)) = length (rec_payload r)"
    using assms by (simp add: encode_len_field storable_len)
  have add: "checked_add_usize HEADER_SIZE (length (rec_payload r)) =
      Some (HEADER_SIZE + length (rec_payload r))"
    using assms by (simp add: checked_add_header storable_def)
  have "decode crc ?d = Some (new_record (rec_id r) (op_type r) (rec_priority r) (rec_payload r))"
    using assms unfolding decode_def Let_def len add
    by (simp add: codec_simps storable_def del: One_nat_def)
  then show ?thesis by (simp add: new_record_def)
qed

text \<open>
  Whatever the decoder accepts starts with the frame of the record it returns. The first
  lemma collects what an accepting run has checked.
\<close>

lemma decode_SomeD:
  assumes "decode crc data = Some r"
  defines "n \<equiv> length (rec_payload r)"
  shows "n \<le> MAX_PAYLOAD_SIZE" "19 + n \<le> length data" "data ! 0 = MAGIC_BYTE"
    "u32_from_be_bytes (byte_slice 15 19 data) = of_nat n"
    "u32_from_be_bytes (byte_slice 1 5 data) = crc (byte_slice 5 (19 + n) data)"
    "data ! 5 = op_byte (op_type r)" "data ! 6 = rec_priority r"
    "u64_from_be_bytes (byte_slice 7 15 data) = rec_id r"
    "byte_slice 19 (19 + n) data = rec_payload r"
proof -
  define m where "m = unat (u32_from_be_bytes (byte_slice 15 19 data))"
  have *: "m \<le> MAX_PAYLOAD_SIZE \<and> 19 + m \<le> length data \<and> data ! 0 = MAGIC_BYTE \<and>
    u32_from_be_bytes (byte_slice 1 5 data) = crc (byte_slice 5 (19 + m) data) \<and>
    data ! 5 = op_byte (op_type r) \<and> data ! 6 = rec_priority r \<and>
    u64_from_be_bytes (byte_slice 7 15 data) = rec_id r \<and>
    byte_slice 19 (19 + m) data = rec_payload r"
    using assms(1) unfolding decode_def Let_def m_def [symmetric]
    by (auto simp: checked_add_usize_def op_of_byte_Some HEADER_SIZE_def split: if_splits option.splits)
  then have "19 + m \<le> length data" by blast
  then have "length (byte_slice 19 (19 + m) data) = m" by simp
  then have mn: "m = n" using * by (simp add: n_def)
  show "n \<le> MAX_PAYLOAD_SIZE" "19 + n \<le> length data" "data ! 0 = MAGIC_BYTE"
    "u32_from_be_bytes (byte_slice 1 5 data) = crc (byte_slice 5 (19 + n) data)"
    "data ! 5 = op_byte (op_type r)" "data ! 6 = rec_priority r"
    "u64_from_be_bytes (byte_slice 7 15 data) = rec_id r"
    "byte_slice 19 (19 + n) data = rec_payload r"
    using * unfolding mn by blast+
  show "u32_from_be_bytes (byte_slice 15 19 data) = of_nat n"
    by (simp add: mn [symmetric] m_def)
qed

lemma decode_inverse:
  assumes "decode crc data = Some r"
  shows "storable r \<and> take (HEADER_SIZE + length (rec_payload r)) data = encode crc r"
proof -
  define n where "n = length (rec_payload r)"
  note d = decode_SomeD [OF assms, folded n_def]
  have "data \<noteq> []" using d(2) by auto
  then have one: "[data ! 0] = byte_slice 0 1 data" "[data ! 5] = byte_slice 5 6 data"
      "[data ! 6] = byte_slice 6 7 data"
    using d(2) byte_slice_single [of 0 data] byte_slice_single [of 5 data] byte_slice_single [of 6 data]
    by simp_all
  have lenf: "u32_to_be_bytes (of_nat n) = byte_slice 15 19 data"
    using d(2) by (simp add: d(4) [symmetric] u32_be_inverse)
  have idf: "u64_to_be_bytes (rec_id r) = byte_slice 7 15 data"
    using d(2) by (simp add: d(8) [symmetric] u64_be_inverse)
  have "frame_body r = [data ! 5] @ [data ! 6] @ byte_slice 7 15 data @ byte_slice 15 19 data
      @ byte_slice 19 (19 + n) data"
    by (simp add: frame_body_def d(6,7,9) lenf idf n_def [symmetric])
  then have body: "frame_body r = byte_slice 5 (19 + n) data"
    by (simp add: one byte_slice_join)
  have sumf: "u32_to_be_bytes (crc (frame_body r)) = byte_slice 1 5 data"
    unfolding body d(5) [symmetric] using d(2) by (intro u32_be_inverse) simp
  have "encode crc r = [data ! 0] @ byte_slice 1 5 data @ byte_slice 5 (19 + n) data"
    by (simp add: encode_def sumf [unfolded body] d(3) body del: One_nat_def)
  also have "\<dots> = take (19 + n) data"
    by (simp add: one byte_slice_join flip: byte_slice_0)
  finally show ?thesis
    using d(1) by (simp add: storable_def n_def HEADER_SIZE_def)
qed

section \<open>Properties\<close>

text \<open>
  C31. A frame decodes to exactly the record it was encoded from, whatever bytes follow it in
  the buffer, for every record whose payload respects \<open>MAX_PAYLOAD_SIZE\<close>.
\<close>

theorem record_roundtrip:
  assumes "length (rec_payload r) \<le> MAX_PAYLOAD_SIZE"
  shows "decode crc (encode crc r @ rest) = Some r"
  using assms by (simp add: decode_encode_append storable_def)

theorem record_roundtrip_witness:
  "length (rec_payload (new_record 7 Nacked 3 [1, 2, 3])) \<le> MAX_PAYLOAD_SIZE \<and>
   decode (\<lambda>bs. of_nat (length bs)) (encode (\<lambda>bs. of_nat (length bs)) (new_record 7 Nacked 3 [1, 2, 3]) @ [9])
     = Some (new_record 7 Nacked 3 [1, 2, 3])"
proof -
  have h: "length (rec_payload (new_record 7 Nacked 3 [1, 2, 3])) \<le> MAX_PAYLOAD_SIZE"
    by (simp add: MAX_PAYLOAD_SIZE_def)
  show ?thesis using h record_roundtrip [OF h] by blast
qed

text \<open>
  The decoder accepts nothing but frames of the encoder: when it returns a record, the
  buffer starts with the exact frame of that record, whose payload respects the size limit.
\<close>

theorem decode_accepts_only_frames:
  assumes "decode crc data = Some r"
  shows "\<exists>rest. data = encode crc r @ rest \<and> length (rec_payload r) \<le> MAX_PAYLOAD_SIZE"
  using decode_inverse [OF assms]
  by (metis append_take_drop_id storable_def)

theorem decode_accepts_only_frames_witness:
  "\<exists>rest. encode (\<lambda>_. 5) (new_record 1 Created 2 [8]) @ [0, 0] =
     encode (\<lambda>_. 5) (new_record 1 Created 2 [8]) @ rest \<and>
   length (rec_payload (new_record 1 Created 2 [8])) \<le> MAX_PAYLOAD_SIZE"
proof -
  have "storable (new_record 1 Created 2 [8])"
    by (simp add: storable_def MAX_PAYLOAD_SIZE_def)
  then have "decode (\<lambda>_. 5) (encode (\<lambda>_. 5) (new_record 1 Created 2 [8]) @ [0, 0]) =
      Some (new_record 1 Created 2 [8])"
    by (rule decode_encode_append)
  then show ?thesis by (rule decode_accepts_only_frames)
qed

text \<open>
  A torn write is never taken for a record: no proper prefix of a frame decodes.
\<close>

theorem torn_frame_rejected:
  assumes "length (rec_payload r) \<le> MAX_PAYLOAD_SIZE" "n < length (encode crc r)"
  shows "decode crc (take n (encode crc r)) = None"
proof (rule ccontr)
  assume "decode crc (take n (encode crc r)) \<noteq> None"
  then obtain r' where r': "decode crc (take n (encode crc r)) = Some r'" by auto
  note d = decode_SomeD [OF r']
  have "decode crc (take n (encode crc r) @ drop n (encode crc r)) = Some r"
    using decode_encode_append [of r crc "[]"] assms(1) by (simp add: storable_def)
  then have "u32_from_be_bytes (byte_slice 15 19 (take n (encode crc r) @ drop n (encode crc r)))
      = of_nat (length (rec_payload r))"
    by (rule decode_SomeD(4))
  moreover have "byte_slice 15 19 (take n (encode crc r) @ drop n (encode crc r)) =
      byte_slice 15 19 (take n (encode crc r))"
    using d(2) by (simp add: byte_slice_def del: append_take_drop_id)
  ultimately have "(of_nat (length (rec_payload r)) :: u32) = of_nat (length (rec_payload r'))"
    using d(4) by simp
  then have "length (rec_payload r) = length (rec_payload r')"
    using assms(1) d(1) by (intro storable_len_inject) (simp_all add: storable_def)
  then show False using d(2) assms(2) by (simp add: HEADER_SIZE_def)
qed

theorem torn_frame_rejected_witness:
  "decode (\<lambda>_. 5) (take 19 (encode (\<lambda>_. 5) (new_record 1 Created 2 [8]))) = None"
  by (rule torn_frame_rejected) (simp_all add: MAX_PAYLOAD_SIZE_def HEADER_SIZE_def)

text \<open>
  A single damaged byte anywhere but in the length field is detected, given what CRC-32
  documents: inputs of equal length that differ in one byte have different checksums.
\<close>

theorem corrupted_frame_rejected:
  assumes crc_detects: "\<And>xs j c. j < length xs \<Longrightarrow> c \<noteq> xs ! j \<Longrightarrow> crc (xs[j := c]) \<noteq> crc xs"
    and "length (rec_payload r) \<le> MAX_PAYLOAD_SIZE"
    and i: "i < length (encode crc r)" "\<not> (15 \<le> i \<and> i < 19)" and b: "b \<noteq> encode crc r ! i"
  shows "decode crc ((encode crc r)[i := b]) = None"
proof (rule ccontr)
  let ?e = "encode crc r" and ?d = "(encode crc r)[i := b]"
  assume "decode crc ?d \<noteq> None"
  then obtain r' where r': "decode crc ?d = Some r'" by auto
  have e: "decode crc ?e = Some r"
    using decode_encode_append [of r crc "[]"] assms(2) by (simp add: storable_def)
  note d = decode_SomeD [OF r'] and d0 = decode_SomeD [OF e]
  have "byte_slice 15 19 ?d = byte_slice 15 19 ?e"
    using i(2) by (auto simp: byte_slice_def drop_update_swap not_le)
  then have "(of_nat (length (rec_payload r)) :: u32) = of_nat (length (rec_payload r'))"
    using d(4) d0(4) by simp
  then have len: "length (rec_payload r') = length (rec_payload r)"
    using d(1) d0(1) by (intro storable_len_inject) (simp_all add: storable_def)
  have total: "length ?e = 19 + length (rec_payload r)" by (simp add: HEADER_SIZE_def)
  consider "i = 0" | "1 \<le> i" "i < 5" | "5 \<le> i" by linarith
  then show False
  proof cases
    case 1
    then show False using d(3) d0(3) b i(1) by simp
  next
    case 2
    then have "byte_slice 5 (19 + length (rec_payload r)) ?d = byte_slice 5 (19 + length (rec_payload r)) ?e"
      by (simp add: byte_slice_def)
    then have "u32_from_be_bytes (byte_slice 1 5 ?d) = u32_from_be_bytes (byte_slice 1 5 ?e)"
      using d(5) d0(5) by (simp add: len)
    then have "byte_slice 1 5 ?d = byte_slice 1 5 ?e"
      using total u32_be_inverse [of "byte_slice 1 5 ?d"] u32_be_inverse [of "byte_slice 1 5 ?e"] by simp
    then have "byte_slice 1 5 ?d ! (i - 1) = byte_slice 1 5 ?e ! (i - 1)" by simp
    then show False using 2 b total by (simp add: byte_slice_def)
  next
    case 3
    have "byte_slice 5 (19 + length (rec_payload r)) ?d =
        (byte_slice 5 (19 + length (rec_payload r)) ?e)[i - 5 := b]"
      using 3 by (simp add: byte_slice_def drop_update_swap take_update_swap)
    moreover have "crc ((byte_slice 5 (19 + length (rec_payload r)) ?e)[i - 5 := b]) \<noteq>
        crc (byte_slice 5 (19 + length (rec_payload r)) ?e)"
      by (rule crc_detects) (use 3 i b total in \<open>simp_all add: byte_slice_def\<close>)
    moreover have "byte_slice 1 5 ?d = byte_slice 1 5 ?e"
      using 3 by (simp add: byte_slice_def drop_update_swap)
    ultimately show False using d(5) d0(5) by (simp add: len)
  qed
qed

text \<open>The byte sum, a concrete function that detects a changed byte.\<close>

definition byte_sum :: "bytes \<Rightarrow> u32" where
  "byte_sum bs = (\<Sum>b\<leftarrow>bs. ucast b)"

lemma ucast_u8_u32_inject: "(ucast (b :: u8) :: u32) = ucast c \<longleftrightarrow> b = c"
  by transfer simp

lemma byte_sum_detects:
  assumes "j < length xs" "c \<noteq> xs ! j"
  shows "byte_sum (xs[j := c]) \<noteq> byte_sum xs"
proof -
  have "byte_sum xs = byte_sum (take j xs @ xs ! j # drop (Suc j) xs)"
    using assms(1) by (simp only: id_take_nth_drop [symmetric])
  then show ?thesis
    using assms by (simp add: byte_sum_def upd_conv_take_nth_drop ucast_u8_u32_inject)
qed

theorem corrupted_frame_rejected_witness:
  "decode byte_sum ((encode byte_sum (new_record 1 Created 2 [8]))[19 := 9]) = None"
proof (rule corrupted_frame_rejected)
  show "9 \<noteq> encode byte_sum (new_record 1 Created 2 [8]) ! 19"
    by (simp add: encode_def frame_body_def nth_append)
qed (simp_all add: byte_sum_detects MAX_PAYLOAD_SIZE_def HEADER_SIZE_def)

text \<open>
  The encoder has no size check: a payload over \<open>MAX_PAYLOAD_SIZE\<close> (and under 4 GiB)
  is framed, but no reader will ever accept that frame again, whatever follows it.
\<close>

theorem oversized_record_unreadable:
  assumes "MAX_PAYLOAD_SIZE < length (rec_payload r)" "length (rec_payload r) < 2 ^ 32"
  shows "decode crc (encode crc r @ rest) = None"
  using assms by (simp add: decode_def Let_def encode_len_field unat_of_nat_u32)

theorem oversized_record_unreadable_witness:
  "decode (\<lambda>_. 0) (encode (\<lambda>_. 0) (new_record 1 Created 2 (replicate 67108865 0)) @ []) = None"
  by (rule oversized_record_unreadable) (simp_all add: MAX_PAYLOAD_SIZE_def)

end
