(* ===== verification/File_System.thy ===== *)
theory File_System
  imports Nesso_Prelude
begin

text \<open>
  What the sources use of \<open>std::fs\<close> and \<open>std::str\<close>: one queue directory whose names
  point to inodes (an open \<open>File\<close> is an inode and stays usable when its name is
  unlinked or renamed over), and the text of segment names and of the compaction plan. The
  lemmas give the effect of every call on every file, and the round trip between segment
  ids and segment names.
\<close>

section \<open>Files and directory\<close>

type_synonym ino = nat

record fsys =
  fs_dir :: "(string, ino) hmap"
  fs_inodes :: "(ino, bytes) hmap"
  fs_next :: ino

definition fs_empty :: fsys where
  "fs_empty = \<lparr>fs_dir = [], fs_inodes = [], fs_next = 0\<rparr>"

definition fs_content :: "fsys \<Rightarrow> ino \<Rightarrow> bytes" where
  "fs_content fs i = (case hm_get (fs_inodes fs) i of None \<Rightarrow> [] | Some b \<Rightarrow> b)"

definition fs_exists :: "fsys \<Rightarrow> string \<Rightarrow> bool" where
  "fs_exists fs n = hm_contains (fs_dir fs) n"

text \<open>The bytes behind a name.\<close>

definition fs_file :: "fsys \<Rightarrow> string \<Rightarrow> bytes option" where
  "fs_file fs n = map_option (fs_content fs) (hm_get (fs_dir fs) n)"

text \<open>\<open>File::open\<close>.\<close>

definition fs_open :: "fsys \<Rightarrow> string \<Rightarrow> ino result" where
  "fs_open fs n =
     (case hm_get (fs_dir fs) n of
        None \<Rightarrow> Inl (IoErr NotFound ''No such file or directory (os error 2)'')
      | Some i \<Rightarrow> Inr i)"

text \<open>\<open>OpenOptions\<close> with \<open>create\<close> and \<open>append\<close>: an existing file keeps its bytes.\<close>

definition fs_open_append :: "fsys \<Rightarrow> string \<Rightarrow> ino \<times> fsys" where
  "fs_open_append fs n =
     (case hm_get (fs_dir fs) n of
        Some i \<Rightarrow> (i, fs)
      | None \<Rightarrow> (fs_next fs,
          \<lparr>fs_dir = hm_insert n (fs_next fs) (fs_dir fs),
           fs_inodes = hm_insert (fs_next fs) [] (fs_inodes fs), fs_next = Suc (fs_next fs)\<rparr>))"

definition fs_put :: "fsys \<Rightarrow> ino \<Rightarrow> bytes \<Rightarrow> fsys" where
  "fs_put fs i b = fs\<lparr>fs_inodes := hm_insert i b (fs_inodes fs)\<rparr>"

text \<open>\<open>OpenOptions\<close> with \<open>create\<close>, \<open>write\<close> and \<open>truncate\<close>.\<close>

definition fs_open_truncate :: "fsys \<Rightarrow> string \<Rightarrow> ino \<times> fsys" where
  "fs_open_truncate fs n = (let (i, fs') = fs_open_append fs n in (i, fs_put fs' i []))"

text \<open>\<open>write_all\<close> at the end of a file.\<close>

definition fs_append :: "fsys \<Rightarrow> ino \<Rightarrow> bytes \<Rightarrow> fsys" where
  "fs_append fs i b = fs_put fs i (fs_content fs i @ b)"

text \<open>\<open>File::set_len\<close>: cut, or extend with zeros.\<close>

definition fs_set_len :: "fsys \<Rightarrow> ino \<Rightarrow> nat \<Rightarrow> fsys" where
  "fs_set_len fs i n =
     fs_put fs i (take n (fs_content fs i) @ replicate (n - length (fs_content fs i)) 0)"

text \<open>\<open>fs::remove_file\<close> with its result ignored, and \<open>fs::rename\<close>.\<close>

definition fs_remove :: "fsys \<Rightarrow> string \<Rightarrow> fsys" where
  "fs_remove fs n = fs\<lparr>fs_dir := hm_remove n (fs_dir fs)\<rparr>"

definition fs_rename :: "fsys \<Rightarrow> string \<Rightarrow> string \<Rightarrow> fsys result" where
  "fs_rename fs a b =
     (case hm_get (fs_dir fs) a of
        None \<Rightarrow> Inl (IoErr NotFound ''No such file or directory (os error 2)'')
      | Some i \<Rightarrow> Inr (fs\<lparr>fs_dir := hm_insert b i (hm_remove a (fs_dir fs))\<rparr>))"

text \<open>\<open>fs::read_dir\<close>; every entry of a queue directory is a regular file.\<close>

definition fs_read_dir :: "fsys \<Rightarrow> string list" where
  "fs_read_dir fs = hm_keys (fs_dir fs)"

text \<open>\<open>Read::read_exact\<close> of \<open>n\<close> bytes at a position; \<open>None\<close> is \<open>UnexpectedEof\<close>.\<close>

definition read_exact :: "bytes \<Rightarrow> nat \<Rightarrow> nat \<Rightarrow> bytes option" where
  "read_exact file pos n = (if pos + n \<le> length file then Some (take n (drop pos file)) else None)"

text \<open>
  Well-formedness: one entry per name, no two names for one inode, and inode numbers in use
  are below the next one.
\<close>

definition fs_ok :: "fsys \<Rightarrow> bool" where
  "fs_ok fs \<longleftrightarrow>
     hm_ok (fs_dir fs) \<and>
     (\<forall>n i. hm_get (fs_dir fs) n = Some i \<longrightarrow> i < fs_next fs) \<and>
     (\<forall>n m i. hm_get (fs_dir fs) n = Some i \<longrightarrow> hm_get (fs_dir fs) m = Some i \<longrightarrow> n = m)"

section \<open>Text\<close>

text \<open>\<open>Path::join\<close>: an absolute second path replaces the first.\<close>

definition path_join :: "string \<Rightarrow> string \<Rightarrow> string" where
  "path_join d n =
     (if n \<noteq> [] \<and> hd n = CHR ''/'' then n
      else if d = [] \<or> last d = CHR ''/'' then d @ n else d @ ''/'' @ n)"

definition strip_prefix :: "string \<Rightarrow> string \<Rightarrow> string option" where
  "strip_prefix p s = (if take (length p) s = p then Some (drop (length p) s) else None)"

definition ends_with :: "string \<Rightarrow> string \<Rightarrow> bool" where
  "ends_with s e = (length e \<le> length s \<and> drop (length s - length e) s = e)"

definition strip_suffix :: "string \<Rightarrow> string \<Rightarrow> string option" where
  "strip_suffix e s = (if ends_with s e then Some (take (length s - length e) s) else None)"

definition digit_char :: "nat \<Rightarrow> char" where
  "digit_char d = char_of (48 + d)"

definition is_digit :: "char \<Rightarrow> bool" where
  "is_digit c = (48 \<le> (of_char c :: nat) \<and> (of_char c :: nat) \<le> 57)"

definition digit_value :: "char \<Rightarrow> nat" where
  "digit_value c = of_char c - 48"

text \<open>\<open>u64::to_string\<close>.\<close>

fun show_nat :: "nat \<Rightarrow> string" where
  "show_nat n = (if n < 10 then [digit_char n] else show_nat (n div 10) @ [digit_char (n mod 10)])"

declare show_nat.simps [simp del]

text \<open>\<open>str::parse::<u64>\<close>: an optional plus sign, at least one digit, no overflow.\<close>

definition digits_value :: "string \<Rightarrow> nat" where
  "digits_value s = foldl (\<lambda>a c. a * 10 + digit_value c) 0 s"

definition parse_u64 :: "string \<Rightarrow> u64 option" where
  "parse_u64 s =
     (let ds = (if s \<noteq> [] \<and> hd s = CHR ''+'' then tl s else s) in
      if ds \<noteq> [] \<and> list_all is_digit ds \<and> digits_value ds < 2 ^ 64
      then Some (of_nat (digits_value ds)) else None)"

text \<open>The format \<open>{:05}\<close>.\<close>

definition pad5 :: "string \<Rightarrow> string" where
  "pad5 s = replicate (5 - length s) (CHR ''0'') @ s"

text \<open>\<open>nesso.{:05}.wal\<close> and the ids the directory scans read back from names.\<close>

definition seg_name :: "u64 \<Rightarrow> string" where
  "seg_name s = ''nesso.'' @ pad5 (show_nat (unat s)) @ ''.wal''"

definition seg_id_of_name :: "string \<Rightarrow> u64 option" where
  "seg_id_of_name n =
     (case strip_prefix ''nesso.'' n of
        None \<Rightarrow> None
      | Some rest \<Rightarrow> (case strip_suffix ''.wal'' rest of None \<Rightarrow> None | Some id_str \<Rightarrow> parse_u64 id_str))"

text \<open>The other names the log uses.\<close>

definition compacting_name :: string where
  "compacting_name = ''nesso.00001.compacting''"

definition plan_name :: string where
  "plan_name = ''nesso.compaction_plan''"

definition swap_name :: string where
  "swap_name = ''nesso.compaction_swap''"

text \<open>\<open>str::trim\<close>, \<open>str::split\<close> at a comma, and \<open>join\<close> with commas.\<close>

definition is_space :: "char \<Rightarrow> bool" where
  "is_space c = (c = CHR '' '' \<or> (9 \<le> (of_char c :: nat) \<and> (of_char c :: nat) \<le> 13))"

definition str_trim :: "string \<Rightarrow> string" where
  "str_trim s = rev (dropWhile is_space (rev (dropWhile is_space s)))"

fun str_split :: "char \<Rightarrow> string \<Rightarrow> string list" where
  "str_split c [] = [[]]"
| "str_split c (x # xs) =
     (if x = c then [] # str_split c xs
      else (case str_split c xs of [] \<Rightarrow> [[x]] | w # ws \<Rightarrow> (x # w) # ws))"

fun str_join :: "string \<Rightarrow> string list \<Rightarrow> string" where
  "str_join sep [] = []"
| "str_join sep [w] = w"
| "str_join sep (w # ws) = w @ sep @ str_join sep ws"

text \<open>Text as the bytes of a file (ASCII).\<close>

definition text_bytes :: "string \<Rightarrow> bytes" where
  "text_bytes s = map of_char s"

text \<open>\<open>fs::read_to_string\<close>; only ASCII content is read as text.\<close>

definition bytes_text :: "bytes \<Rightarrow> string option" where
  "bytes_text b = (if list_all (\<lambda>x. unat x < 128) b then Some (map (\<lambda>x. char_of (unat x)) b) else None)"

section \<open>Lemmas\<close>

subsection \<open>Files\<close>

lemma fs_content_put [simp]: "fs_content (fs_put fs i b) j = (if j = i then b else fs_content fs j)"
  by (simp add: fs_content_def fs_put_def)

lemma fs_dir_put [simp]: "fs_dir (fs_put fs i b) = fs_dir fs"
  by (simp add: fs_put_def)

lemma fs_dir_append [simp]: "fs_dir (fs_append fs i b) = fs_dir fs"
  by (simp add: fs_append_def)

lemma fs_dir_set_len [simp]: "fs_dir (fs_set_len fs i n) = fs_dir fs"
  by (simp add: fs_set_len_def)

lemma fs_content_append [simp]:
  "fs_content (fs_append fs i b) j = (if j = i then fs_content fs i @ b else fs_content fs j)"
  by (simp add: fs_append_def)

lemma fs_content_remove [simp]: "fs_content (fs_remove fs n) i = fs_content fs i"
  by (simp add: fs_content_def fs_remove_def)

lemma fs_dir_remove [simp]: "fs_dir (fs_remove fs n) = hm_remove n (fs_dir fs)"
  by (simp add: fs_remove_def)

lemma fs_file_remove [simp]: "fs_file (fs_remove fs n) m = (if m = n then None else fs_file fs m)"
  by (cases "hm_get (fs_dir fs) m") (simp_all add: fs_file_def)

lemma fs_file_put:
  "fs_ok fs \<Longrightarrow> hm_get (fs_dir fs) n = Some i \<Longrightarrow>
   fs_file (fs_put fs i b) m = (if m = n then Some b else fs_file fs m)"
  by (cases "hm_get (fs_dir fs) m") (auto simp: fs_file_def fs_ok_def)

lemma fs_ok_empty [simp]: "fs_ok fs_empty"
  by (simp add: fs_ok_def fs_empty_def)

lemma fs_ok_put [simp]: "fs_ok (fs_put fs i b) = fs_ok fs"
  by (simp add: fs_ok_def fs_put_def)

lemma fs_ok_append [simp]: "fs_ok (fs_append fs i b) = fs_ok fs"
  by (simp add: fs_append_def)

lemma fs_ok_set_len [simp]: "fs_ok (fs_set_len fs i n) = fs_ok fs"
  by (simp add: fs_set_len_def)

lemma fs_ok_remove [intro]: "fs_ok fs \<Longrightarrow> fs_ok (fs_remove fs n)"
  unfolding fs_ok_def by (auto simp: fs_remove_def split: if_splits)

lemma fs_ok_open_append [intro]:
  assumes "fs_ok fs" "fs_open_append fs n = (i, fs')"
  shows "fs_ok fs'"
proof (cases "hm_get (fs_dir fs) n")
  case None
  then have "fs' = \<lparr>fs_dir = hm_insert n (fs_next fs) (fs_dir fs),
      fs_inodes = hm_insert (fs_next fs) [] (fs_inodes fs), fs_next = Suc (fs_next fs)\<rparr>"
    using assms(2) by (auto simp: fs_open_append_def)
  then show ?thesis
    using assms(1) unfolding fs_ok_def by (auto split: if_splits) (metis less_irrefl less_SucI)+
next
  case (Some j)
  then show ?thesis using assms by (simp add: fs_open_append_def)
qed

lemma fs_open_append_name:
  "fs_open_append fs n = (i, fs') \<Longrightarrow> hm_get (fs_dir fs') n = Some i"
  by (auto simp: fs_open_append_def split: option.splits)

lemma fs_open_append_file:
  assumes "fs_ok fs" "fs_open_append fs n = (i, fs')"
  shows "fs_file fs' m = (if m = n then Some (case fs_file fs n of None \<Rightarrow> [] | Some b \<Rightarrow> b) else fs_file fs m)"
proof (cases "hm_get (fs_dir fs) n")
  case None
  moreover have "hm_get (fs_dir fs) m \<noteq> Some (fs_next fs)"
    using assms(1) unfolding fs_ok_def by blast
  ultimately show ?thesis using assms(2)
    by (cases "hm_get (fs_dir fs) m") (auto simp: fs_open_append_def fs_file_def fs_content_def)
next
  case (Some j)
  then show ?thesis using assms(2) by (auto simp: fs_open_append_def fs_file_def)
qed

lemma fs_dir_open_append:
  "fs_open_append fs n = (i, fs') \<Longrightarrow>
   set (fs_read_dir fs') = insert n (set (fs_read_dir fs))"
  by (cases "hm_get (fs_dir fs) n") (auto simp: fs_open_append_def fs_read_dir_def hm_keys_insert
      insert_absorb hm_contains_keys [symmetric] hm_contains_def)

lemma fs_file_Some_iff: "(\<exists>b. fs_file fs n = Some b) \<longleftrightarrow> n \<in> set (fs_read_dir fs)"
  by (simp add: fs_file_def fs_read_dir_def hm_contains_keys [symmetric] hm_contains_Some)

lemma fs_open_file: "fs_open fs n = Inr i \<Longrightarrow> fs_file fs n = Some (fs_content fs i)"
  by (auto simp: fs_open_def fs_file_def split: option.splits)

lemma fs_open_None: "fs_file fs n = None \<Longrightarrow> \<exists>msg. fs_open fs n = Inl (IoErr NotFound msg)"
  by (auto simp: fs_open_def fs_file_def split: option.splits)

lemma read_exact_append [simp]: "read_exact (pre @ xs @ post) (length pre) (length xs) = Some xs"
  by (simp add: read_exact_def)

lemma length_read_exact: "read_exact f p n = Some b \<Longrightarrow> length b = n \<and> p + n \<le> length f"
  by (auto simp: read_exact_def split: if_splits)

subsection \<open>Text\<close>

lemma is_digit_char [simp]: "d < 10 \<Longrightarrow> is_digit (digit_char d)"
  by (simp add: is_digit_def digit_char_def)

lemma digit_value_char [simp]: "d < 10 \<Longrightarrow> digit_value (digit_char d) = d"
  by (simp add: digit_value_def digit_char_def)

lemma digits_value_snoc: "digits_value (s @ [c]) = digits_value s * 10 + digit_value c"
  by (simp add: digits_value_def)

lemma show_nat_digits: "list_all is_digit (show_nat n) \<and> show_nat n \<noteq> [] \<and> digits_value (show_nat n) = n"
proof (induction n rule: show_nat.induct)
  case (1 n)
  show ?case
  proof (cases "n < 10")
    case True
    then show ?thesis by (simp add: show_nat.simps digits_value_def)
  next
    case False
    then show ?thesis using 1 by (simp add: show_nat.simps [of n] digits_value_snoc)
  qed
qed

lemma digits_value_pad: "digits_value (replicate k (CHR ''0'') @ s) = digits_value s"
proof (induction k)
  case (Suc k)
  then show ?case by (simp add: digits_value_def digit_value_def)
qed simp

lemma digit_head_not_plus: "list_all is_digit s \<Longrightarrow> s \<noteq> [] \<Longrightarrow> hd s \<noteq> CHR ''+''"
  by (cases s) (auto simp: is_digit_def)

lemma parse_digits:
  assumes "list_all is_digit s" "s \<noteq> []" "digits_value s < 2 ^ 64"
  shows "parse_u64 s = Some (of_nat (digits_value s))"
  using assms digit_head_not_plus [OF assms(1,2)] by (simp add: parse_u64_def)

lemma strip_prefix_append [simp]: "strip_prefix p (p @ s) = Some s"
  by (simp add: strip_prefix_def)

lemma ends_with_append [simp]: "ends_with (s @ e) e"
  by (simp add: ends_with_def)

lemma strip_suffix_append [simp]: "strip_suffix e (s @ e) = Some s"
  by (simp add: strip_suffix_def)

lemma ends_with_last: "ends_with s e \<Longrightarrow> e \<noteq> [] \<Longrightarrow> last s = last e"
  by (metis ends_with_def last_appendR append_take_drop_id)

lemma seg_id_of_seg_name [simp]: "seg_id_of_name (seg_name s) = Some s"
proof -
  let ?d = "show_nat (unat s)"
  have "digits_value (pad5 ?d) = unat s"
    using show_nat_digits [of "unat s"] by (simp add: pad5_def digits_value_pad)
  moreover have "unat s < 2 ^ 64" using unsigned_less [where 'a = nat, of s] by simp
  moreover have "list_all is_digit (pad5 ?d)" "pad5 ?d \<noteq> []"
    using show_nat_digits [of "unat s"] by (auto simp: pad5_def list_all_iff is_digit_def)
  ultimately have "parse_u64 (pad5 ?d) = Some s"
    using parse_digits [of "pad5 ?d"] by simp
  then show ?thesis by (simp only: seg_id_of_name_def seg_name_def strip_prefix_append strip_suffix_append option.case)
qed

lemma seg_name_inject [simp]: "seg_name s = seg_name t \<longleftrightarrow> s = t"
  by (metis seg_id_of_seg_name option.inject)

lemma last_seg_name: "last (seg_name s) = CHR ''l''"
  by (simp add: seg_name_def)

lemma seg_name_distinct [simp]:
  "seg_name s \<noteq> compacting_name" "seg_name s \<noteq> plan_name" "seg_name s \<noteq> swap_name"
  "compacting_name \<noteq> seg_name s" "plan_name \<noteq> seg_name s" "swap_name \<noteq> seg_name s"
proof -
  have *: "seg_name s \<noteq> n" if "last n \<noteq> CHR ''l''" for n
    using that last_seg_name [of s] by metis
  show "seg_name s \<noteq> compacting_name" "seg_name s \<noteq> plan_name" "seg_name s \<noteq> swap_name"
    by (rule *, simp add: compacting_name_def plan_name_def swap_name_def)+
  then show "compacting_name \<noteq> seg_name s" "plan_name \<noteq> seg_name s" "swap_name \<noteq> seg_name s"
    by simp_all
qed

lemma log_names_distinct [simp]:
  "compacting_name \<noteq> plan_name" "plan_name \<noteq> compacting_name" "plan_name \<noteq> swap_name"
  "swap_name \<noteq> plan_name" "compacting_name \<noteq> swap_name" "swap_name \<noteq> compacting_name"
  by (simp_all add: compacting_name_def plan_name_def swap_name_def)

lemma seg_name_not_temporary [simp]:
  "\<not> ends_with (seg_name s) ''.compacting''" "\<not> ends_with (seg_name s) ''.tmp''"
  using ends_with_last [of "seg_name s"] last_seg_name [of s] by fastforce+

subsection \<open>Compaction plans\<close>

text \<open>The text of a plan file and the ids that a reader gets out of it.\<close>

definition plan_text :: "u64 list \<Rightarrow> string" where
  "plan_text segs = str_join '','' (map (\<lambda>s. show_nat (unat s)) segs)"

definition plan_ids :: "string \<Rightarrow> u64 list" where
  "plan_ids content = List.map_filter (\<lambda>w. parse_u64 (str_trim w)) (str_split (CHR '','') (str_trim content))"

lemma str_split_no_sep: "c \<notin> set w \<Longrightarrow> str_split c w = [w]"
  by (induction w) auto

lemma str_split_append: "c \<notin> set w \<Longrightarrow> str_split c (w @ c # rest) = w # str_split c rest"
  by (induction w) auto

lemma str_split_join:
  "ws \<noteq> [] \<Longrightarrow> (\<forall>w \<in> set ws. c \<notin> set w) \<Longrightarrow> str_split c (str_join [c] ws) = ws"
proof (induction "[c]" ws rule: str_join.induct)
  case (2 w)
  then show ?case by (simp add: str_split_no_sep)
next
  case (3 w v vs)
  then show ?case by (simp add: str_split_append)
qed simp

lemma set_str_join: "set (str_join sep ws) \<subseteq> set sep \<union> \<Union> (set ` set ws)"
  by (induction sep ws rule: str_join.induct) auto

lemma str_trim_id: "(\<forall>c \<in> set s. \<not> is_space c) \<Longrightarrow> str_trim s = s"
proof -
  assume s: "\<forall>c \<in> set s. \<not> is_space c"
  have "dropWhile is_space xs = xs" if "\<forall>c \<in> set xs. \<not> is_space c" for xs
    using that by (cases xs) auto
  from this [of s] this [of "rev s"] s show ?thesis by (simp add: str_trim_def)
qed

lemma digit_not_special: "is_digit c \<Longrightarrow> c \<noteq> CHR '','' \<and> \<not> is_space c"
  by (auto simp: is_digit_def is_space_def)

lemma plan_roundtrip:
  assumes "segs \<noteq> []"
  shows "plan_ids (plan_text segs) = segs"
proof -
  let ?ws = "map (\<lambda>s. show_nat (unat s)) segs"
  have dig: "\<forall>w \<in> set ?ws. \<forall>c \<in> set w. is_digit c"
    using show_nat_digits by (auto simp: list_all_iff)
  have "\<forall>c \<in> set (plan_text segs). \<not> is_space c"
    using set_str_join [of "'',''" ?ws] dig digit_not_special
    by (fastforce simp: plan_text_def is_space_def)
  then have "str_trim (plan_text segs) = plan_text segs" by (rule str_trim_id)
  moreover have "\<forall>w \<in> set ?ws. CHR '','' \<notin> set w"
    using dig digit_not_special by blast
  then have "str_split (CHR '','') (plan_text segs) = ?ws"
    unfolding plan_text_def using assms by (intro str_split_join) simp_all
  ultimately have "str_split (CHR '','') (str_trim (plan_text segs)) = ?ws" by simp
  moreover have "parse_u64 (str_trim (show_nat (unat s))) = Some s" for s :: u64
  proof -
    have "str_trim (show_nat (unat s)) = show_nat (unat s)"
      using show_nat_digits [of "unat s"] digit_not_special by (intro str_trim_id) (auto simp: list_all_iff)
    then show ?thesis
      using show_nat_digits [of "unat s"] parse_digits [of "show_nat (unat s)"]
        unsigned_less [where 'a = nat, of s] by simp
  qed
  ultimately show ?thesis
    by (simp add: plan_ids_def map_filter_def comp_def)
qed

lemma bytes_text_text_bytes:
  assumes "\<forall>c \<in> set s. (of_char c :: nat) < 128"
  shows "bytes_text (text_bytes s) = Some s"
proof -
  have u: "unat (of_char c :: u8) = of_char c" for c
  proof -
    have "unat (of_nat (of_char c) :: u8) = of_char c"
      using nat_of_char_less_256 [of c] by (simp add: unat_of_nat)
    then show ?thesis by (simp only: of_nat_of_char)
  qed
  show ?thesis using assms
    by (simp add: bytes_text_def text_bytes_def list_all_iff u comp_def)
qed

lemma plan_text_ascii: "\<forall>c \<in> set (plan_text segs). (of_char c :: nat) < 128"
proof
  fix c assume "c \<in> set (plan_text segs)"
  then have "c = CHR '','' \<or> is_digit c"
    using set_str_join [of "'',''" "map (\<lambda>s. show_nat (unat s)) segs"] show_nat_digits
    unfolding plan_text_def list_all_iff by fastforce
  then show "(of_char c :: nat) < 128" by (auto simp: is_digit_def)
qed

end
