(* ===== verification/Wal_Log.thy ===== *)
theory Wal_Log
  imports Wal_Record File_System
begin

text \<open>
  The segmented write-ahead log, \<open>src/src/storage/wal.rs\<close> without compaction (theory
  \<open>Compaction\<close>): \<open>Wal::open\<close>, \<open>rotate\<close>, \<open>append\<close>, the reader \<open>WalReader::read_at\<close>
  with its cache of open files, and the iterator over all segments. Calls of the operating
  system succeed, except those of \<open>append\<close>, whose failures are the argument
  \<open>append_io\<close>; byte offsets and file sizes, which a file bounds far below
  \<open>2 ^ 64\<close>, are natural numbers, segment ids are \<open>u64\<close>.

  The log a directory holds is a list of records with their locations (\<open>wal_repr\<close>). The
  locale \<open>record_log\<close> states what the engine relies on: an append adds one record at the
  end of that list, iteration returns the list, and a location reads back its record.
\<close>

section \<open>State\<close>

definition DEFAULT_MAX_SEGMENT_SIZE :: nat where
  "DEFAULT_MAX_SEGMENT_SIZE = 64 * 1024 * 1024"

definition MAX_LRU_CACHE_SIZE :: nat where
  "MAX_LRU_CACHE_SIZE = 8"

record Wal =
  active_segment_id :: u64
  active_file :: ino
  current_size :: nat
  max_segment_size :: nat

text \<open>\<open>WalReader::read_cache\<close>: open files by segment, least recently used first.\<close>

type_synonym read_cache = "(u64 \<times> ino) list"

text \<open>A location in the log: segment and offset.\<close>

type_synonym loc = "u64 \<times> nat"

section \<open>Frames in a file\<close>

text \<open>
  The common part of the three scanning loops (\<open>Wal::open\<close>, phase 1 of the compaction and
  the iterator): the complete frame at an offset, or \<open>None\<close> where the loops stop
  reading this file.
\<close>

definition next_frame :: "bytes \<Rightarrow> nat \<Rightarrow> bytes option" where
  "next_frame file offset =
     (if offset + HEADER_SIZE > length file then None
      else case read_exact file offset HEADER_SIZE of
        None \<Rightarrow> None
      | Some header \<Rightarrow>
          if header ! 0 \<noteq> MAGIC_BYTE then None
          else let payload_len = extract_payload_len header in
            if payload_len > MAX_PAYLOAD_SIZE then None
            else if offset + (HEADER_SIZE + payload_len) > length file then None
            else case read_exact file (offset + HEADER_SIZE) payload_len of
              None \<Rightarrow> None
            | Some payload \<Rightarrow> Some (header @ payload))"

lemma next_frame_length:
  assumes "next_frame file offset = Some frame"
  shows "HEADER_SIZE \<le> length frame" "offset + length frame \<le> length file" "0 < length frame"
  using assms
  by (auto simp: next_frame_def Let_def HEADER_SIZE_def dest!: length_read_exact split: if_splits option.splits)

lemma next_frame_decreases [dest]:
  assumes "next_frame file offset = Some frame"
  shows "length file - (offset + length frame) < length file - offset"
  using next_frame_length(2,3) [OF assms] by linarith

text \<open>The scan of the active segment in \<open>Wal::open\<close>: the end of its valid prefix.\<close>

function scan_valid :: "(bytes \<Rightarrow> u32) \<Rightarrow> bytes \<Rightarrow> nat \<Rightarrow> nat" where
  "scan_valid crc file valid_offset =
     (if valid_offset = length file then valid_offset
      else case next_frame file valid_offset of
        None \<Rightarrow> valid_offset
      | Some frame \<Rightarrow>
          if decode crc frame = None then valid_offset
          else scan_valid crc file (valid_offset + length frame))"
  by pat_completeness auto
termination
  by (relation "measure (\<lambda>(crc, file, offset). length file - offset)") (auto simp: next_frame_decreases)

declare scan_valid.simps [simp del]

section \<open>Opening\<close>

text \<open>Crash recovery of an interrupted compaction.\<close>

definition recover_compaction :: "fsys \<Rightarrow> fsys" where
  "recover_compaction fs =
     (let active_plan = (if fs_exists fs plan_name then Some plan_name
                         else if fs_exists fs swap_name then Some swap_name else None)
      in case active_plan of
        None \<Rightarrow> fs
      | Some plan_file \<Rightarrow>
          if fs_exists fs compacting_name then fs_remove (fs_remove fs compacting_name) plan_file
          else
            let fs1 = (case Option.bind (fs_file fs plan_file) bytes_text of
                 None \<Rightarrow> fs
               | Some content \<Rightarrow>
                   foldl (\<lambda>fs seg_id. if seg_id > 1 then fs_remove fs (seg_name seg_id) else fs)
                     fs (plan_ids content))
            in fs_remove fs1 plan_file)"

text \<open>The names that hold left-over temporary files, and the directory without them.\<close>

definition is_temporary :: "string \<Rightarrow> bool" where
  "is_temporary n = (ends_with n ''.compacting'' \<or> ends_with n ''.tmp'')"

definition remove_temporaries :: "fsys \<Rightarrow> fsys" where
  "remove_temporaries fs = foldl fs_remove fs (filter is_temporary (fs_read_dir fs))"

definition segment_ids :: "fsys \<Rightarrow> u64 list" where
  "segment_ids fs = List.map_filter seg_id_of_name (filter (\<lambda>n. \<not> is_temporary n) (fs_read_dir fs))"

definition wal_open :: "(bytes \<Rightarrow> u32) \<Rightarrow> fsys \<Rightarrow> nat option \<Rightarrow> Wal \<times> fsys" where
  "wal_open crc fs max_seg =
     (let fs = recover_compaction fs;
          max_id = foldl (\<lambda>m s. if s > m then s else m) 0 (segment_ids fs);
          fs = remove_temporaries fs;
          max_id = (if max_id = 0 then 1 else max_id);
          (file, fs) = fs_open_append fs (seg_name max_id);
          raw_size = length (fs_content fs file);
          valid_offset = scan_valid crc (fs_content fs file) 0;
          fs = (if valid_offset < raw_size then fs_set_len fs file valid_offset else fs)
      in (\<lparr>active_segment_id = max_id, active_file = file, current_size = valid_offset,
           max_segment_size = (case max_seg of None \<Rightarrow> DEFAULT_MAX_SEGMENT_SIZE | Some m \<Rightarrow> m)\<rparr>, fs))"

section \<open>Appending\<close>

text \<open>
  What the operating system answers to the calls of one \<open>append\<close>: all succeed; the
  \<open>fsync\<close> or the \<open>open\<close> of a rotation fails; or \<open>write_all\<close> fails after some bytes,
  and the following \<open>set_len\<close> succeeds or not.
\<close>

datatype append_io =
    AppendOk
  | SyncFails rs_error
  | OpenFails rs_error
  | WriteFails nat rs_error bool

definition wal_rotate :: "append_io \<Rightarrow> Wal \<Rightarrow> fsys \<Rightarrow> unit result \<times> Wal \<times> fsys" where
  "wal_rotate io w fs =
     (case io of
        SyncFails e \<Rightarrow> (Inl e, w, fs)
      | _ \<Rightarrow>
         (let w = w\<lparr>active_segment_id := active_segment_id w + 1\<rparr> in
          case io of
            OpenFails e \<Rightarrow> (Inl e, w, fs)
          | _ \<Rightarrow>
              (let (new_file, fs) = fs_open_append fs (seg_name (active_segment_id w))
               in (Inr (), w\<lparr>active_file := new_file, current_size := 0\<rparr>, fs))))"

definition wal_append ::
  "(bytes \<Rightarrow> u32) \<Rightarrow> append_io \<Rightarrow> Record \<Rightarrow> Wal \<Rightarrow> fsys \<Rightarrow> loc result \<times> Wal \<times> fsys" where
  "wal_append crc io record w fs =
     (let (rotated, w, fs) = (if current_size w \<ge> max_segment_size w then wal_rotate io w fs
                              else (Inr (), w, fs))
      in case rotated of
        Inl e \<Rightarrow> (Inl e, w, fs)
      | Inr _ \<Rightarrow>
         (let bs = encode crc record; offset_in_segment = current_size w in
          case io of
            WriteFails n e truncated \<Rightarrow>
              (let fs = fs_append fs (active_file w) (take n bs)
               in (Inl e, w, if truncated then fs_set_len fs (active_file w) offset_in_segment else fs))
          | _ \<Rightarrow>
              (Inr (active_segment_id w, offset_in_segment),
               w\<lparr>current_size := current_size w + length bs\<rparr>,
               fs_append fs (active_file w) bs)))"

section \<open>Reading\<close>

text \<open>The open file of a segment: from the cache, or opened and cached.\<close>

definition open_cached :: "fsys \<Rightarrow> read_cache \<Rightarrow> u64 \<Rightarrow> (ino \<times> read_cache) result" where
  "open_cached fs cache segment_id =
     (let before = takeWhile (\<lambda>e. fst e \<noteq> segment_id) cache in
      case dropWhile (\<lambda>e. fst e \<noteq> segment_id) cache of
        entry # after \<Rightarrow> Inr (snd entry, before @ after @ [entry])
      | [] \<Rightarrow>
         (case fs_open fs (seg_name segment_id) of
            Inl e \<Rightarrow> Inl e
          | Inr f \<Rightarrow>
              Inr (f, (if length cache \<ge> MAX_LRU_CACHE_SIZE then drop 1 cache else cache)
                        @ [(segment_id, f)])))"

text \<open>Reading one frame of an open file.\<close>

definition read_frame_at :: "(bytes \<Rightarrow> u32) \<Rightarrow> bytes \<Rightarrow> nat \<Rightarrow> Record option result" where
  "read_frame_at crc content offset =
     (let file_len = length content in
      if offset + HEADER_SIZE > file_len then Inr None
      else case read_exact content offset HEADER_SIZE of
        None \<Rightarrow> Inr None
      | Some header \<Rightarrow>
          if header ! 0 \<noteq> MAGIC_BYTE then Inl (IoErr InvalidData ''Corrupted magic byte'')
          else let payload_len = extract_payload_len header in
            if payload_len > MAX_PAYLOAD_SIZE
            then Inl (IoErr InvalidData ''Payload length exceeds maximum bound'')
            else if offset + (HEADER_SIZE + payload_len) > file_len then Inr None
            else case read_exact content (offset + HEADER_SIZE) payload_len of
              None \<Rightarrow> Inr None
            | Some payload \<Rightarrow> Inr (decode crc (header @ payload)))"

definition read_at ::
  "(bytes \<Rightarrow> u32) \<Rightarrow> fsys \<Rightarrow> read_cache \<Rightarrow> u64 \<Rightarrow> nat \<Rightarrow> Record option result \<times> read_cache" where
  "read_at crc fs cache segment_id offset =
     (case open_cached fs cache segment_id of
        Inl e \<Rightarrow> (Inl e, cache)
      | Inr (f, cache) \<Rightarrow> (read_frame_at crc (fs_content fs f) offset, cache))"

section \<open>Iterating\<close>

record WalIteratorAll =
  it_segment_ids :: "u64 list"
  it_segment_idx :: nat
  it_file :: "ino option"
  it_segment_id :: u64
  it_offset :: nat

definition iter_all :: "fsys \<Rightarrow> WalIteratorAll \<times> fsys" where
  "iter_all fs =
     (\<lparr>it_segment_ids = sort (segment_ids fs), it_segment_idx = 0, it_file = None,
       it_segment_id = 0, it_offset = 0\<rparr>,
      remove_temporaries fs)"

text \<open>
  One turn of the loop in \<open>next\<close>: the iterator is exhausted, returns an item, or loops.
\<close>

datatype iter_outcome = Exhausted | Item "(loc \<times> Record) result" | Again

definition iter_turn :: "(bytes \<Rightarrow> u32) \<Rightarrow> fsys \<Rightarrow> WalIteratorAll \<Rightarrow> iter_outcome \<times> WalIteratorAll" where
  "iter_turn crc fs it =
     (if it_file it = None \<and> it_segment_idx it \<ge> length (it_segment_ids it) then (Exhausted, it)
      else
        let opened = (case it_file it of
               Some f \<Rightarrow> Inr (f, it)
             | None \<Rightarrow>
                (let it = it\<lparr>it_segment_id := it_segment_ids it ! it_segment_idx it\<rparr> in
                 case fs_open fs (seg_name (it_segment_id it)) of
                   Inl e \<Rightarrow> Inl (e, it)
                 | Inr f \<Rightarrow> Inr (f, it\<lparr>it_file := Some f, it_offset := 0\<rparr>)))
        in case opened of
          Inl (e, it) \<Rightarrow> (Item (Inl e), it)
        | Inr (f, it) \<Rightarrow>
            (case next_frame (fs_content fs f) (it_offset it) of
               None \<Rightarrow> (Again, it\<lparr>it_file := None, it_segment_idx := it_segment_idx it + 1\<rparr>)
             | Some frame \<Rightarrow>
                (let offset_in_segment = it_offset it;
                     it = it\<lparr>it_offset := it_offset it + length frame\<rparr>
                 in case decode crc frame of
                      Some record \<Rightarrow> (Item (Inr ((it_segment_id it, offset_in_segment), record)), it)
                    | None \<Rightarrow> (Again, it))))"

text \<open>What is left to read: segments, then bytes of the current one.\<close>

definition iter_left :: "fsys \<Rightarrow> WalIteratorAll \<Rightarrow> nat \<times> nat" where
  "iter_left fs it =
     (if it_segment_idx it < length (it_segment_ids it)
      then length (it_segment_ids it) - it_segment_idx it else of_bool (it_file it \<noteq> None),
      case it_file it of
        Some f \<Rightarrow> length (fs_content fs f) - it_offset it
      | None \<Rightarrow>
         (case fs_open fs (seg_name (it_segment_ids it ! it_segment_idx it)) of
            Inl e \<Rightarrow> 1
          | Inr f \<Rightarrow> Suc (length (fs_content fs f))))"

lemma iter_turn_decreases:
  assumes "iter_turn crc fs it = (turn, it')" "turn = Again \<or> (\<exists>x. turn = Item (Inr x))"
  shows "(iter_left fs it', iter_left fs it) \<in> less_than <*lex*> less_than"
proof -
  have it: "it_segment_idx it < length (it_segment_ids it) \<or> it_file it \<noteq> None"
    using assms by (auto simp: iter_turn_def split: if_splits)
  show ?thesis
  proof (cases "it_file it")
    case None
    then have "it_segment_idx it < length (it_segment_ids it)" using it by simp
    then show ?thesis using None assms
      by (auto simp: iter_turn_def iter_left_def Let_def dest!: next_frame_length(2,3)
          split: sum.splits option.splits)
  next
    case (Some f)
    then show ?thesis using assms
      by (auto simp: iter_turn_def iter_left_def Let_def dest: next_frame_decreases
          split: option.splits)
  qed
qed

text \<open>\<open>WalIteratorAll::next\<close>.\<close>

function iter_next :: "(bytes \<Rightarrow> u32) \<Rightarrow> fsys \<Rightarrow> WalIteratorAll \<Rightarrow> (loc \<times> Record) result option \<times> WalIteratorAll" where
  "iter_next crc fs it =
     (case iter_turn crc fs it of
        (Exhausted, it') \<Rightarrow> (None, it')
      | (Item x, it') \<Rightarrow> (Some x, it')
      | (Again, it') \<Rightarrow> iter_next crc fs it')"
  by pat_completeness auto
termination
  by (relation "inv_image (less_than <*lex*> less_than) (\<lambda>(crc, fs, it). iter_left fs it)")
    (auto dest!: iter_turn_decreases [OF sym])

declare iter_next.simps [simp del]

text \<open>
  A \<open>for\<close> loop over the iterator with the question mark on every item: all items, or the
  first error.
\<close>

function iter_collect :: "(bytes \<Rightarrow> u32) \<Rightarrow> fsys \<Rightarrow> WalIteratorAll \<Rightarrow> (loc \<times> Record) list result" where
  "iter_collect crc fs it =
     (case iter_next crc fs it of
        (None, it') \<Rightarrow> Inr []
      | (Some (Inl e), it') \<Rightarrow> Inl e
      | (Some (Inr x), it') \<Rightarrow>
          (case iter_collect crc fs it' of Inl e \<Rightarrow> Inl e | Inr xs \<Rightarrow> Inr (x # xs)))"
  by pat_completeness auto

lemma iter_next_decreases:
  "iter_next crc fs it = (Some (Inr x), it') \<Longrightarrow>
   (iter_left fs it', iter_left fs it) \<in> less_than <*lex*> less_than"
proof (induction crc fs it rule: iter_next.induct)
  case (1 crc fs it)
  obtain turn it1 where turn: "iter_turn crc fs it = (turn, it1)" by fastforce
  show ?case
  proof (cases turn)
    case (Item y)
    then show ?thesis using turn 1(2) iter_turn_decreases [OF turn] by (simp add: iter_next.simps [of crc fs it])
  next
    case Again
    then have "(iter_left fs it', iter_left fs it1) \<in> less_than <*lex*> less_than"
      using 1 turn by (simp add: iter_next.simps [of crc fs it])
    moreover have "(iter_left fs it1, iter_left fs it) \<in> less_than <*lex*> less_than"
      using iter_turn_decreases [OF turn] Again by simp
    ultimately show ?thesis by (meson trans_lex_prod trans_less_than transD)
  next
    case Exhausted
    then show ?thesis using turn 1(2) by (simp add: iter_next.simps [of crc fs it])
  qed
qed

termination iter_collect
  by (relation "inv_image (less_than <*lex*> less_than) (\<lambda>(crc, fs, it). iter_left fs it)")
    (auto dest!: iter_next_decreases [OF sym])

declare iter_collect.simps [simp del]

end
