(* ===== verification/Wal_Spec.thy ===== *)
theory Wal_Spec
  imports Wal_Log
begin

text \<open>
  What the log of theory \<open>Wal_Log\<close> guarantees. A file is a sequence of frames
  (\<open>seg_bytes\<close>); a directory represents a list of segments (\<open>wal_repr\<close>), and its log is
  the list of all their records with their locations (\<open>log_of\<close>).
\<close>

section \<open>Sequences of frames\<close>

definition seg_bytes :: "(bytes \<Rightarrow> u32) \<Rightarrow> Record list \<Rightarrow> bytes" where
  "seg_bytes crc rs = concat (map (encode crc) rs)"

definition frame_len :: "Record \<Rightarrow> nat" where
  "frame_len r = HEADER_SIZE + length (rec_payload r)"

fun layout :: "nat \<Rightarrow> Record list \<Rightarrow> (nat \<times> Record) list" where
  "layout off [] = []"
| "layout off (r # rs) = (off, r) # layout (off + frame_len r) rs"

lemma seg_bytes_simps [simp]:
  "seg_bytes crc [] = []" "seg_bytes crc (r # rs) = encode crc r @ seg_bytes crc rs"
  "seg_bytes crc (rs @ rs') = seg_bytes crc rs @ seg_bytes crc rs'"
  by (simp_all add: seg_bytes_def)

lemma length_encode_frame [simp]: "length (encode crc r) = frame_len r"
  by (simp add: frame_len_def)

declare length_encode [simp del]

lemma frame_len_pos [simp]: "0 < frame_len r"
  by (simp add: frame_len_def HEADER_SIZE_def)

lemma length_seg_bytes: "length (seg_bytes crc rs) = sum_list (map frame_len rs)"
  by (induction rs) simp_all

lemma layout_append: "layout off (rs @ rs') = layout off rs @ layout (off + sum_list (map frame_len rs)) rs'"
  by (induction rs arbitrary: off) (simp_all add: add.assoc)

lemma map_snd_layout [simp]: "map snd (layout off rs) = rs"
  by (induction rs arbitrary: off) simp_all

lemma layout_ge: "(o1, r) \<in> set (layout off rs) \<Longrightarrow> off \<le> o1"
  by (induction rs arbitrary: off) (auto, force)

lemma sorted_layout: "sorted_wrt (<) (map fst (layout off rs))"
proof (induction rs arbitrary: off)
  case (Cons r rs)
  have "off < o1" if "(o1, x) \<in> set (layout (off + frame_len r) rs)" for o1 x
    using layout_ge [OF that] frame_len_pos [of r] by linarith
  then show ?case using Cons by auto
qed simp

lemma layout_split:
  assumes "(o1, r) \<in> set (layout off rs)"
  obtains pre post where "rs = pre @ r # post" "o1 = off + sum_list (map frame_len pre)"
  using assms
proof (induction rs arbitrary: off thesis)
  case (Cons x xs)
  show ?case
  proof (cases "o1 = off \<and> r = x")
    case True
    then show ?thesis using Cons.prems(1) [of "[]" xs] by simp
  next
    case False
    then have "(o1, r) \<in> set (layout (off + frame_len x) xs)" using Cons.prems(2) by auto
    then obtain pre post where "xs = pre @ r # post" "o1 = off + frame_len x + sum_list (map frame_len pre)"
      using Cons.IH by blast
    then show ?thesis using Cons.prems(1) [of "x # pre" post] by simp
  qed
qed simp

section \<open>Scanning\<close>

lemma read_exact_shift: "read_exact (pre @ xs) (length pre + k) n = read_exact xs k n"
  by (simp add: read_exact_def)

lemma next_frame_shift: "next_frame (pre @ xs) (length pre + k) = next_frame xs k"
proof -
  have e: "read_exact (pre @ xs) (length pre + k + HEADER_SIZE) n = read_exact xs (k + HEADER_SIZE) n" for n
    using read_exact_shift [of pre xs "k + HEADER_SIZE" n] by (simp add: add.assoc)
  show ?thesis
    unfolding next_frame_def Let_def read_exact_shift e
    by (cases "read_exact xs k HEADER_SIZE") simp_all
qed

lemma next_frame_encode:
  assumes "storable r"
  shows "next_frame (encode crc r @ post) 0 = Some (encode crc r)"
proof -
  let ?n = "length (rec_payload r)"
  define header payload where "header = take HEADER_SIZE (encode crc r)" and "payload = drop HEADER_SIZE (encode crc r)"
  have hp: "encode crc r = header @ payload" by (simp add: header_def payload_def)
  have lens: "length header = HEADER_SIZE" "length payload = ?n"
    by (simp_all add: header_def payload_def frame_len_def)
  have h0: "header ! 0 = MAGIC_BYTE"
    using encode_magic [of crc r "[]"] lens by (simp add: hp nth_append HEADER_SIZE_def)
  have "byte_slice 15 19 header = byte_slice 15 19 (encode crc r @ [])"
    by (simp add: hp byte_slice_def lens HEADER_SIZE_def)
  then have len: "extract_payload_len header = ?n"
    using assms by (simp add: extract_payload_len_def encode_len_field storable_len del: append_Nil2)
  have r1: "read_exact (encode crc r @ post) 0 HEADER_SIZE = Some header"
    using read_exact_append [of "[]" header "payload @ post"] by (simp add: hp lens)
  have r2: "read_exact (encode crc r @ post) HEADER_SIZE ?n = Some payload"
    using read_exact_append [of header payload post] by (simp add: hp lens)
  show ?thesis
    using assms by (simp add: next_frame_def r1 r2 h0 len Let_def storable_def frame_len_def hp [symmetric])
qed

lemma next_frame_encode_at:
  "storable r \<Longrightarrow> next_frame (pre @ encode crc r @ post) (length pre) = Some (encode crc r)"
  using next_frame_shift [of pre "encode crc r @ post" 0] by (simp add: next_frame_encode)

lemma next_frame_Nil [simp]: "next_frame [] k = None"
  by (simp add: next_frame_def HEADER_SIZE_def)

lemma next_frame_SomeD:
  assumes "next_frame bs off = Some frame"
  shows "frame = take (length frame) (drop off bs)" "length frame = HEADER_SIZE + extract_payload_len frame"
proof -
  define h where "h = take 19 (drop off bs)"
  define n where "n = extract_payload_len h"
  have *: "off + 19 + n \<le> length bs" "frame = h @ take n (drop (off + 19) bs)"
    using assms by (auto simp: next_frame_def Let_def read_exact_def HEADER_SIZE_def h_def n_def
        split: if_splits option.splits)
  have "length h = 19" using *(1) by (simp add: h_def)
  then have len: "length frame = 19 + n" using * by simp
  show "frame = take (length frame) (drop off bs)"
    unfolding len by (simp add: *(2) h_def take_add) (simp add: add.commute)
  have "byte_slice 15 19 frame = byte_slice 15 19 h"
    using \<open>length h = 19\<close> by (simp add: *(2) byte_slice_def)
  then show "length frame = HEADER_SIZE + extract_payload_len frame"
    by (simp add: len HEADER_SIZE_def extract_payload_len_def n_def)
qed

lemma next_frame_is_prefix:
  assumes "next_frame bs off = Some frame"
  shows "take (off + length frame) bs = take off bs @ frame"
  using next_frame_SomeD(1) [OF assms] by (simp add: take_add)

lemma next_frame_decode:
  assumes "next_frame bs off = Some frame" "decode crc frame = Some r"
  shows "frame = encode crc r \<and> storable r"
proof -
  have "extract_payload_len frame = length (rec_payload r)"
    using decode_SomeD(1,4) [OF assms(2)] storable_len [of r]
    by (simp add: extract_payload_len_def storable_def)
  then have "length frame = HEADER_SIZE + length (rec_payload r)"
    using next_frame_SomeD(2) [OF assms(1)] by simp
  then show ?thesis using decode_inverse [OF assms(2)] by simp
qed

text \<open>An undecodable tail, as a torn write leaves it.\<close>

definition bad_tail :: "(bytes \<Rightarrow> u32) \<Rightarrow> bytes \<Rightarrow> bool" where
  "bad_tail crc xs = (case next_frame xs 0 of None \<Rightarrow> True | Some frame \<Rightarrow> decode crc frame = None)"

lemma bad_tail_Nil [simp]: "bad_tail crc []"
  by (simp add: bad_tail_def)

lemma decode_encode [simp]: "storable r \<Longrightarrow> decode crc (encode crc r) = Some r"
  using decode_encode_append [of r crc "[]"] by simp

text \<open>The scan passes over every valid frame and stops at the first bad one.\<close>

lemma scan_valid_step:
  "off \<noteq> length bs \<Longrightarrow> next_frame bs off = Some frame \<Longrightarrow> decode crc frame \<noteq> None \<Longrightarrow>
   scan_valid crc bs off = scan_valid crc bs (off + length frame)"
  by (subst scan_valid.simps) auto

lemma scan_valid_stop:
  "off = length bs \<or> next_frame bs off = None \<or> (\<exists>frame. next_frame bs off = Some frame \<and> decode crc frame = None)
   \<Longrightarrow> scan_valid crc bs off = off"
  by (subst scan_valid.simps) auto

lemma scan_valid_frames:
  assumes "\<forall>r \<in> set rs. storable r" "bad_tail crc torn"
  shows "scan_valid crc (pre @ seg_bytes crc rs @ torn) (length pre) = length pre + length (seg_bytes crc rs)"
  using assms(1)
proof (induction rs arbitrary: pre)
  case Nil
  have "next_frame (pre @ torn) (length pre) = next_frame torn 0"
    using next_frame_shift [of pre torn 0] by simp
  then have "scan_valid crc (pre @ torn) (length pre) = length pre"
    using assms(2) by (intro scan_valid_stop) (auto simp: bad_tail_def split: option.splits)
  then show ?case by simp
next
  case (Cons r rs)
  let ?file = "pre @ encode crc r @ seg_bytes crc rs @ torn"
  have "scan_valid crc ?file (length pre) = scan_valid crc ?file (length pre + length (encode crc r))"
    using Cons.prems frame_len_pos [of r]
    by (intro scan_valid_step next_frame_encode_at) simp_all
  also have "\<dots> = length pre + length (encode crc r) + length (seg_bytes crc rs)"
    using Cons.IH [of "pre @ encode crc r"] Cons.prems by simp
  finally show ?case by simp
qed

text \<open>Whatever bytes a file holds, the prefix the scan keeps is a sequence of valid frames.\<close>

lemma scan_valid_sound:
  assumes "take off bs = seg_bytes crc rs" "\<forall>r \<in> set rs. storable r" "off \<le> length bs"
  shows "\<exists>rs'. take (scan_valid crc bs off) bs = seg_bytes crc rs' \<and> (\<forall>r \<in> set rs'. storable r) \<and>
    scan_valid crc bs off \<le> length bs \<and> bad_tail crc (drop (scan_valid crc bs off) bs)"
  using assms
proof (induction crc bs off arbitrary: rs rule: scan_valid.induct)
  case (1 crc bs off)
  have tail: "next_frame (drop off bs) 0 = next_frame bs off"
    using next_frame_shift [of "take off bs" "drop off bs" 0] "1.prems"(3) by (simp add: min_absorb2)
  show ?case
  proof (cases "off \<noteq> length bs \<and> (\<exists>frame r. next_frame bs off = Some frame \<and> decode crc frame = Some r)")
    case False
    then have "scan_valid crc bs off = off"
      by (intro scan_valid_stop) auto
    moreover have "bad_tail crc (drop off bs)"
      using False tail by (auto simp: bad_tail_def split: option.splits)
    ultimately show ?thesis using "1.prems" by auto
  next
    case True
    then obtain frame r where f: "off \<noteq> length bs" "next_frame bs off = Some frame" "decode crc frame = Some r"
      by blast
    have step: "scan_valid crc bs off = scan_valid crc bs (off + length frame)"
      using f by (intro scan_valid_step) simp_all
    have "take (off + length frame) bs = seg_bytes crc (rs @ [r])" "\<forall>x \<in> set (rs @ [r]). storable x"
      using next_frame_is_prefix [OF f(2)] next_frame_decode [OF f(2,3)] "1.prems" by auto
    then show ?thesis unfolding step
      using "1.IH" [OF f(1,2)] f(3) next_frame_length(2) [OF f(2)] by blast
  qed
qed

section \<open>Iterating\<close>

definition prepend :: "'a list \<Rightarrow> 'a list result \<Rightarrow> 'a list result" where
  "prepend xs res = (case res of Inl e \<Rightarrow> Inl e | Inr ys \<Rightarrow> Inr (xs @ ys))"

lemma prepend_simps [simp]:
  "prepend xs (Inr ys) = Inr (xs @ ys)" "prepend xs (Inl e) = Inl e" "prepend [] res = res"
  "prepend xs (prepend ys res) = prepend (xs @ ys) res"
  by (simp_all add: prepend_def split: sum.split)

lemma iter_collect_turn:
  "iter_collect crc fs it =
     (case iter_turn crc fs it of
        (Exhausted, it') \<Rightarrow> Inr []
      | (Item (Inl e), it') \<Rightarrow> Inl e
      | (Item (Inr x), it') \<Rightarrow> prepend [x] (iter_collect crc fs it')
      | (Again, it') \<Rightarrow> iter_collect crc fs it')"
proof -
  obtain turn it' where turn: "iter_turn crc fs it = (turn, it')" by fastforce
  show ?thesis
  proof (cases turn)
    case Again
    then show ?thesis using turn
      by (simp add: iter_collect.simps [of crc fs it] iter_collect.simps [of crc fs it'] iter_next.simps [of crc fs it])
  next
    case (Item y)
    then show ?thesis using turn
      by (cases y) (simp_all add: iter_collect.simps [of crc fs it] iter_next.simps [of crc fs it] prepend_def
          split: sum.split)
  next
    case Exhausted
    then show ?thesis using turn by (simp add: iter_collect.simps [of crc fs it] iter_next.simps [of crc fs it])
  qed
qed

lemma iter_collect_segment:
  assumes "it_file it = Some f" "fs_content fs f = pre @ seg_bytes crc rs" "it_offset it = length pre"
    and "\<forall>r \<in> set rs. storable r"
  shows "iter_collect crc fs it =
    prepend (map (\<lambda>(o1, r). ((it_segment_id it, o1), r)) (layout (length pre) rs))
      (iter_collect crc fs (it\<lparr>it_file := None, it_segment_idx := Suc (it_segment_idx it),
         it_offset := length pre + length (seg_bytes crc rs)\<rparr>))"
  using assms
proof (induction rs arbitrary: pre it)
  case Nil
  then have "next_frame (fs_content fs f) (it_offset it) = None"
    using next_frame_shift [of pre "[]" 0] by simp
  then have "iter_turn crc fs it = (Again, it\<lparr>it_file := None, it_segment_idx := Suc (it_segment_idx it)\<rparr>)"
    using Nil.prems(1) by (simp add: iter_turn_def)
  moreover have "it\<lparr>it_file := None, it_segment_idx := Suc (it_segment_idx it)\<rparr> =
      it\<lparr>it_file := None, it_segment_idx := Suc (it_segment_idx it), it_offset := length pre\<rparr>"
    using Nil.prems(3) by simp
  ultimately show ?case by (subst iter_collect_turn) simp
next
  case (Cons r rs)
  let ?it = "it\<lparr>it_offset := it_offset it + length (encode crc r)\<rparr>"
  have "next_frame (fs_content fs f) (it_offset it) = Some (encode crc r)"
    using Cons.prems next_frame_encode_at [of r pre crc "seg_bytes crc rs"] by simp
  then have "iter_turn crc fs it = (Item (Inr ((it_segment_id it, it_offset it), r)), ?it)"
    using Cons.prems(1,4) by (simp add: iter_turn_def Let_def)
  then have "iter_collect crc fs it = prepend [((it_segment_id it, length pre), r)] (iter_collect crc fs ?it)"
    using Cons.prems(3) by (subst iter_collect_turn) simp
  moreover have "iter_collect crc fs ?it =
    prepend (map (\<lambda>(o1, r). ((it_segment_id it, o1), r)) (layout (length (pre @ encode crc r)) rs))
      (iter_collect crc fs (?it\<lparr>it_file := None, it_segment_idx := Suc (it_segment_idx it),
         it_offset := length (pre @ encode crc r) + length (seg_bytes crc rs)\<rparr>))"
    using Cons.IH [of ?it "pre @ encode crc r"] Cons.prems by simp
  ultimately show ?case by (simp add: add.assoc)
qed

definition seg_log :: "u64 \<times> Record list \<Rightarrow> (loc \<times> Record) list" where
  "seg_log seg = map (\<lambda>(o1, r). ((fst seg, o1), r)) (layout 0 (snd seg))"

definition log_of :: "(u64 \<times> Record list) list \<Rightarrow> (loc \<times> Record) list" where
  "log_of segs = concat (map seg_log segs)"

lemma log_of_simps [simp]:
  "log_of [] = []" "log_of (seg # segs) = seg_log seg @ log_of segs"
  "log_of (xs @ ys) = log_of xs @ log_of ys"
  by (simp_all add: log_of_def)

definition seg_on_disk :: "(bytes \<Rightarrow> u32) \<Rightarrow> fsys \<Rightarrow> u64 \<times> Record list \<Rightarrow> bool" where
  "seg_on_disk crc fs seg =
     (fs_file fs (seg_name (fst seg)) = Some (seg_bytes crc (snd seg)) \<and> (\<forall>r \<in> set (snd seg). storable r))"

lemma iter_collect_log:
  assumes "it_file it = None" "it_segment_ids it = before @ map fst segs" "it_segment_idx it = length before"
    and "\<forall>seg \<in> set segs. seg_on_disk crc fs seg"
  shows "iter_collect crc fs it = Inr (log_of segs)"
  using assms
proof (induction segs arbitrary: before it)
  case Nil
  then show ?case by (subst iter_collect_turn) (simp add: iter_turn_def)
next
  case (Cons seg segs)
  obtain s rs where seg: "seg = (s, rs)" by fastforce
  have "fs_file fs (seg_name s) = Some (seg_bytes crc rs)" and st: "\<forall>r \<in> set rs. storable r"
    using Cons.prems(4) by (simp_all add: seg_on_disk_def seg)
  then obtain f where f: "fs_open fs (seg_name s) = Inr f" "fs_content fs f = seg_bytes crc rs"
    by (auto simp: fs_file_def fs_open_def)
  have nth: "it_segment_ids it ! it_segment_idx it = s" and lt: "it_segment_idx it < length (it_segment_ids it)"
    using Cons.prems(2,3) by (simp_all add: seg)
  let ?it = "it\<lparr>it_segment_id := s, it_file := Some f, it_offset := 0\<rparr>"
  have "iter_turn crc fs it = iter_turn crc fs ?it"
    using Cons.prems(1) lt f(1) by (simp add: iter_turn_def nth Let_def)
  then have "iter_collect crc fs it = iter_collect crc fs ?it"
    by (simp add: iter_collect_turn [of crc fs it] iter_collect_turn [of crc fs ?it])
  also have "\<dots> = prepend (seg_log seg) (iter_collect crc fs (?it\<lparr>it_file := None,
      it_segment_idx := Suc (it_segment_idx it), it_offset := length (seg_bytes crc rs)\<rparr>))"
    using iter_collect_segment [of ?it f fs "[]" crc rs] f(2) st by (simp add: seg_log_def seg)
  also have "\<dots> = Inr (seg_log seg @ log_of segs)"
    using Cons.IH [of "it\<lparr>it_segment_id := s, it_file := None, it_segment_idx := Suc (it_segment_idx it),
        it_offset := length (seg_bytes crc rs)\<rparr>" "before @ [s]"] Cons.prems seg by simp
  finally show ?case by simp
qed

lemma sorted_log_of:
  assumes "sorted_wrt (<) (map fst segs)"
  shows "sorted_wrt (<) (map fst (log_of segs))"
  using assms
proof (induction segs)
  case (Cons seg segs)
  have "sorted_wrt (<) (map fst (seg_log seg))"
    using sorted_layout [of 0 "snd seg"] by (simp add: seg_log_def sorted_wrt_map case_prod_unfold)
  moreover have "x < y" if "x \<in> set (map fst (seg_log seg))" "y \<in> set (map fst (log_of segs))" for x y
  proof -
    have "fst x = fst seg" using that(1) by (auto simp: seg_log_def)
    moreover have "fst y \<in> fst ` set segs" using that(2) by (force simp: log_of_def seg_log_def)
    ultimately have "fst x < fst y" using Cons.prems by auto
    then show ?thesis by (simp add: less_prod_def')
  qed
  ultimately show ?case using Cons by (simp add: sorted_wrt_append)
qed simp

section \<open>Reading\<close>

text \<open>The open files of a reader are the current files of their segments.\<close>

definition cache_fresh :: "fsys \<Rightarrow> read_cache \<Rightarrow> bool" where
  "cache_fresh fs cache \<longleftrightarrow>
     distinct (map fst cache) \<and> length cache \<le> MAX_LRU_CACHE_SIZE \<and>
     (\<forall>(s, f) \<in> set cache. hm_get (fs_dir fs) (seg_name s) = Some f)"

lemma cache_fresh_Nil [simp]: "cache_fresh fs []"
  by (simp add: cache_fresh_def)

text \<open>The lookup of the open file, and what it leaves in the cache.\<close>

lemma open_cached_present:
  assumes fresh: "cache_fresh fs cache" and f: "hm_get (fs_dir fs) (seg_name s) = Some f"
  shows "\<exists>rest. open_cached fs cache s = Inr (f, rest @ [(s, f)]) \<and> cache_fresh fs (rest @ [(s, f)])"
proof -
  let ?b = "takeWhile (\<lambda>e. fst e \<noteq> s) cache"
  have split: "cache = ?b @ dropWhile (\<lambda>e. fst e \<noteq> s) cache" by simp
  show ?thesis
  proof (cases "dropWhile (\<lambda>e. fst e \<noteq> s) cache")
    case Nil
    then have nin: "s \<notin> fst ` set cache" by (auto simp: dropWhile_eq_Nil_conv)
    let ?kept = "if length cache \<ge> MAX_LRU_CACHE_SIZE then drop 1 cache else cache"
    have "set ?kept \<subseteq> set cache" "distinct (map fst ?kept)" "length ?kept < MAX_LRU_CACHE_SIZE"
      using fresh by (auto simp: cache_fresh_def MAX_LRU_CACHE_SIZE_def drop_map [symmetric] dest: in_set_dropD)
    then have "cache_fresh fs (?kept @ [(s, f)])"
      using fresh f nin by (auto simp: cache_fresh_def)
    moreover have "open_cached fs cache s = Inr (f, ?kept @ [(s, f)])"
      unfolding open_cached_def Let_def fs_open_def Nil f(1) by (simp del: drop_Suc)
    ultimately show ?thesis by blast
  next
    case (Cons e after)
    then have c: "cache = ?b @ e # after" "fst e = s"
      unfolding dropWhile_eq_Cons_conv by auto
    moreover have "e \<in> set (?b @ e # after)" by simp
    then have "e \<in> set cache" unfolding c(1) [symmetric] .
    ultimately have e: "e = (s, f)" using fresh f by (cases e) (auto simp: cache_fresh_def)
    have perm: "set (?b @ after @ [e]) = set cache" "length (?b @ after @ [e]) = length cache"
        "distinct (map fst (?b @ after @ [e]))"
    proof -
      have "distinct (map fst cache)" using fresh by (simp add: cache_fresh_def)
      then have "distinct (map fst (?b @ e # after))" unfolding c(1) [symmetric] .
      then show "distinct (map fst (?b @ after @ [e]))" by auto
      show "set (?b @ after @ [e]) = set cache" "length (?b @ after @ [e]) = length cache"
        using arg_cong [OF c(1), of set] arg_cong [OF c(1), of length] by auto
    qed
    then have "cache_fresh fs (?b @ after @ [e])"
      using fresh by (simp add: cache_fresh_def del: set_append map_append)
    then show ?thesis using Cons e by (simp add: open_cached_def)
  qed
qed

lemma open_cached_missing:
  assumes "cache_fresh fs cache" "hm_get (fs_dir fs) (seg_name s) = None"
  shows "\<exists>msg. open_cached fs cache s = Inl (IoErr NotFound msg)"
proof -
  have Nil: "dropWhile (\<lambda>e. fst e \<noteq> s) cache = []"
    using assms by (auto simp: cache_fresh_def dropWhile_eq_Nil_conv)
  show ?thesis unfolding open_cached_def Let_def fs_open_def Nil assms(2) by simp
qed

lemma read_frame_at_frame:
  "next_frame bs off = Some frame \<Longrightarrow> read_frame_at crc bs off = Inr (decode crc frame)"
  by (auto simp: next_frame_def read_frame_at_def Let_def split: if_splits option.splits)

lemma log_of_location:
  assumes "((s, o1), r) \<in> set (log_of segs)"
  obtains pre post where "(s, pre @ r # post) \<in> set segs" "o1 = sum_list (map frame_len pre)"
proof -
  obtain rs where rs: "(s, rs) \<in> set segs" "(o1, r) \<in> set (layout 0 rs)"
    using assms by (auto simp: log_of_def seg_log_def)
  then show thesis using layout_split [OF rs(2)] that by auto
qed

lemma read_at_log:
  assumes "cache_fresh fs cache" "\<forall>seg \<in> set segs. seg_on_disk crc fs seg"
    and "((s, o1), r) \<in> set (log_of segs)"
  shows "\<exists>cache'. read_at crc fs cache s o1 = (Inr (Some r), cache') \<and> cache_fresh fs cache'"
proof -
  obtain pre post where seg: "(s, pre @ r # post) \<in> set segs" and o1: "o1 = sum_list (map frame_len pre)"
    using log_of_location [OF assms(3)] .
  then have disk: "fs_file fs (seg_name s) = Some (seg_bytes crc (pre @ r # post))" "storable r"
    using assms(2) by (auto simp: seg_on_disk_def)
  then obtain f where f: "hm_get (fs_dir fs) (seg_name s) = Some f" "fs_content fs f = seg_bytes crc (pre @ r # post)"
    by (auto simp: fs_file_def)
  have "next_frame (fs_content fs f) o1 = Some (encode crc r)"
    using next_frame_encode_at [OF disk(2), of "seg_bytes crc pre" crc "seg_bytes crc post"]
    by (simp add: f(2) o1 length_seg_bytes)
  then have "read_frame_at crc (fs_content fs f) o1 = Inr (Some r)"
    using read_frame_at_frame disk(2) by fastforce
  then show ?thesis
    using open_cached_present [OF assms(1) f(1)] by (auto simp: read_at_def)
qed

section \<open>The log of a directory\<close>

text \<open>
  A directory and a \<open>Wal\<close> hold the segments \<open>segs\<close>: their files are exactly the frames
  of their records, no other name reads as a segment id, no left-over of a compaction is
  present, and the last segment is the active one.
\<close>

definition dir_clean :: "fsys \<Rightarrow> u64 list \<Rightarrow> bool" where
  "dir_clean fs ids \<longleftrightarrow>
     (\<forall>n \<in> set (fs_read_dir fs). \<not> is_temporary n \<and> n \<noteq> plan_name \<and> n \<noteq> swap_name \<and>
        (\<forall>s. seg_id_of_name n = Some s \<longrightarrow> n = seg_name s \<and> s \<in> set ids))"

definition wal_repr :: "(bytes \<Rightarrow> u32) \<Rightarrow> Wal \<Rightarrow> fsys \<Rightarrow> (u64 \<times> Record list) list \<Rightarrow> bool" where
  "wal_repr crc w fs segs \<longleftrightarrow>
     fs_ok fs \<and> segs \<noteq> [] \<and> sorted_wrt (<) (map fst segs) \<and> 0 \<notin> set (map fst segs) \<and>
     dir_clean fs (map fst segs) \<and> (\<forall>seg \<in> set segs. seg_on_disk crc fs seg) \<and>
     fst (last segs) = active_segment_id w \<and>
     hm_get (fs_dir fs) (seg_name (active_segment_id w)) = Some (active_file w) \<and>
     current_size w = length (seg_bytes crc (snd (last segs)))"

lemma wal_reprD:
  assumes "wal_repr crc w fs segs"
  shows "fs_ok fs" "segs \<noteq> []" "sorted_wrt (<) (map fst segs)" "dir_clean fs (map fst segs)"
    "\<forall>seg \<in> set segs. seg_on_disk crc fs seg" "fst (last segs) = active_segment_id w"
    "hm_get (fs_dir fs) (seg_name (active_segment_id w)) = Some (active_file w)"
    "current_size w = length (seg_bytes crc (snd (last segs)))" "0 \<notin> set (map fst segs)"
  using assms unfolding wal_repr_def by blast+

lemma remove_temporaries_clean: "dir_clean fs ids \<Longrightarrow> remove_temporaries fs = fs"
  by (simp add: dir_clean_def remove_temporaries_def filter_empty_conv [THEN iffD2])

lemma segment_ids_clean:
  assumes "fs_ok fs" "dir_clean fs ids" "\<forall>s \<in> set ids. fs_exists fs (seg_name s)"
  shows "distinct (segment_ids fs)" "set (segment_ids fs) = set ids"
proof -
  let ?names = "filter (\<lambda>n. \<not> is_temporary n) (fs_read_dir fs)"
  have names: "set ?names = set (fs_read_dir fs)"
    using assms(2) by (auto simp: dir_clean_def)
  have seg_ids: "segment_ids fs = map (the \<circ> seg_id_of_name) (filter (\<lambda>n. seg_id_of_name n \<noteq> None) ?names)"
    by (simp add: segment_ids_def map_filter_def)
  have "inj_on (the \<circ> seg_id_of_name) (set (filter (\<lambda>n. seg_id_of_name n \<noteq> None) ?names))"
    using assms(2) by (auto simp: inj_on_def dir_clean_def) metis
  moreover have "distinct (fs_read_dir fs)"
    using assms(1) by (simp add: fs_ok_def hm_ok_def fs_read_dir_def hm_keys_def)
  ultimately show "distinct (segment_ids fs)"
    by (simp add: seg_ids distinct_map)
  show "set (segment_ids fs) = set ids"
  proof
    show "set (segment_ids fs) \<subseteq> set ids"
      using assms(2) by (auto simp: seg_ids dir_clean_def)
    show "set ids \<subseteq> set (segment_ids fs)"
    proof
      fix s assume "s \<in> set ids"
      then have "seg_name s \<in> set (fs_read_dir fs)"
        using assms(3) by (simp add: fs_exists_def hm_contains_keys fs_read_dir_def)
      then have "seg_name s \<in> set (filter (\<lambda>n. seg_id_of_name n \<noteq> None) ?names)"
        using names by (simp add: is_temporary_def)
      then show "s \<in> set (segment_ids fs)"
        unfolding seg_ids by (force intro: rev_image_eqI)
    qed
  qed
qed

lemma seg_on_disk_exists: "seg_on_disk crc fs seg \<Longrightarrow> fs_exists fs (seg_name (fst seg))"
  by (auto simp: seg_on_disk_def fs_file_def fs_exists_def hm_contains_def)

lemma sort_segment_ids:
  assumes "wal_repr crc w fs segs"
  shows "sort (segment_ids fs) = map fst segs"
proof -
  note r = wal_reprD [OF assms]
  have ex: "\<forall>s \<in> set (map fst segs). fs_exists fs (seg_name s)"
    using r(5) seg_on_disk_exists by fastforce
  note ids = segment_ids_clean [OF r(1,4) ex]
  have "sorted (map fst segs)" "distinct (map fst segs)"
    using r(3) by (simp_all add: strict_sorted_iff)
  then show ?thesis
    using ids by (metis distinct_sort set_sort sorted_distinct_set_unique sorted_sort)
qed

text \<open>Iterating over a represented directory yields its log.\<close>

lemma iter_all_log:
  assumes "wal_repr crc w fs segs"
  shows "iter_all fs = (fst (iter_all fs), fs)" "iter_collect crc fs (fst (iter_all fs)) = Inr (log_of segs)"
proof -
  note r = wal_reprD [OF assms]
  show "iter_all fs = (fst (iter_all fs), fs)"
    using remove_temporaries_clean [OF r(4)] by (simp add: iter_all_def)
  show "iter_collect crc fs (fst (iter_all fs)) = Inr (log_of segs)"
    using r(5) sort_segment_ids [OF assms] by (intro iter_collect_log [where before = "[]"]) (simp_all add: iter_all_def)
qed

section \<open>Appending\<close>

text \<open>The segments after appending a record at a given point.\<close>

definition add_record :: "(u64 \<times> Record list) list \<Rightarrow> Record \<Rightarrow> (u64 \<times> Record list) list" where
  "add_record segs r = butlast segs @ [(fst (last segs), snd (last segs) @ [r])]"

lemma log_of_add_record:
  assumes "segs \<noteq> []"
  shows "log_of (add_record segs r) =
    log_of segs @ [((fst (last segs), sum_list (map frame_len (snd (last segs)))), r)]"
proof -
  have "log_of segs = log_of (butlast segs) @ seg_log (last segs)"
    using assms by (metis append_butlast_last_id log_of_simps(1,2,3) append_Nil2)
  then show ?thesis
    by (simp add: add_record_def seg_log_def layout_append)
qed

lemma map_fst_add_record: "segs \<noteq> [] \<Longrightarrow> map fst (add_record segs r) = map fst segs"
  by (cases segs rule: rev_cases) (simp_all add: add_record_def)

text \<open>Writing a frame at the end of the active file.\<close>

lemma wal_repr_write:
  assumes "wal_repr crc w fs segs" "storable r"
  shows "wal_repr crc (w\<lparr>current_size := current_size w + length (encode crc r)\<rparr>)
      (fs_append fs (active_file w) (encode crc r)) (add_record segs r)"
proof -
  note d = wal_reprD [OF assms(1)]
  let ?fs = "fs_append fs (active_file w) (encode crc r)"
  obtain init s rs where segs: "segs = init @ [(s, rs)]"
    using d(2) by (cases segs rule: rev_cases) auto
  have s: "s = active_segment_id w" using d(6) segs by simp
  have content: "fs_content fs (active_file w) = seg_bytes crc rs"
    using d(5,7) segs by (auto simp: seg_on_disk_def fs_file_def s)
  have put: "fs_file ?fs n = (if n = seg_name s then Some (seg_bytes crc (rs @ [r])) else fs_file fs n)" for n
    using fs_file_put [OF d(1,7)] by (simp add: fs_append_def content s)
  have init: "seg_on_disk crc ?fs seg" if "seg \<in> set init" for seg
  proof -
    have "fst seg \<noteq> s" using d(3) segs that by (auto simp: sorted_wrt_append)
    then show ?thesis using d(5) segs that by (simp add: seg_on_disk_def put)
  qed
  have last: "seg_on_disk crc ?fs (s, rs @ [r])"
    using d(5) segs assms(2) by (simp add: seg_on_disk_def put)
  show ?thesis
    unfolding wal_repr_def
    using d init last map_fst_add_record [OF d(2), of r]
    by (simp add: dir_clean_def fs_read_dir_def) (simp add: add_record_def segs)
qed

lemma word_succ_zero_iff: "(w :: 'a::len word) + 1 = 0 \<longleftrightarrow> w = - 1"
  by (metis add.commute add_eq_0_iff minus_minus)

text \<open>Rotation: a new empty segment behind the active one.\<close>

lemma wal_repr_rotate:
  assumes "wal_repr crc w fs segs" "active_segment_id w \<noteq> - 1" "io = AppendOk \<or> (\<exists>n e t. io = WriteFails n e t)"
  shows "\<exists>w' fs'. wal_rotate io w fs = (Inr (), w', fs') \<and> active_segment_id w' = active_segment_id w + 1 \<and>
    max_segment_size w' = max_segment_size w \<and> current_size w' = 0 \<and>
    wal_repr crc w' fs' (segs @ [(active_segment_id w + 1, [])])"
proof -
  note d = wal_reprD [OF assms(1)]
  let ?s = "active_segment_id w + 1"
  obtain f fs' where o: "fs_open_append fs (seg_name ?s) = (f, fs')" by fastforce
  let ?w = "w\<lparr>active_segment_id := ?s, active_file := f, current_size := 0\<rparr>"
  have rot: "wal_rotate io w fs = (Inr (), ?w, fs')"
    using assms(3) o by (auto simp: wal_rotate_def)
  have less: "s < ?s" if "s \<in> set (map fst segs)" for s
  proof -
    have "s \<le> active_segment_id w"
      using that d(2,3,6) by (cases segs rule: rev_cases) (auto simp: sorted_wrt_append)
    then show ?thesis using word_le_not_eq_less_succ [OF assms(2)] by blast
  qed
  then have new: "?s \<notin> set (map fst segs)" by blast
  have "fs_file fs (seg_name ?s) = None"
  proof (rule ccontr)
    assume "fs_file fs (seg_name ?s) \<noteq> None"
    then have "seg_name ?s \<in> set (fs_read_dir fs)" using fs_file_Some_iff by fastforce
    then have "?s \<in> set (map fst segs)"
      using d(4) unfolding dir_clean_def by (metis seg_id_of_seg_name)
    then show False using new by blast
  qed
  then have put: "fs_file fs' n = (if n = seg_name ?s then Some [] else fs_file fs n)" for n
    using fs_open_append_file [OF d(1) o, of n] by simp
  have "seg_on_disk crc fs' seg" if "seg \<in> set segs" for seg
  proof -
    have "fst seg \<noteq> ?s" using that new by force
    then show ?thesis using d(5) that by (simp add: seg_on_disk_def put)
  qed
  moreover have "dir_clean fs' (map fst segs @ [?s])"
    using d(4) fs_dir_open_append [OF o] by (auto simp: dir_clean_def is_temporary_def)
  ultimately have "wal_repr crc ?w fs' (segs @ [(?s, [])])"
    unfolding wal_repr_def
    using d less fs_ok_open_append [OF d(1) o] fs_open_append_name [OF o] assms(2)
    by (auto simp: sorted_wrt_append seg_on_disk_def put word_succ_zero_iff)
  then show ?thesis using rot by auto
qed

text \<open>A successful append: the record is the new last element of the log.\<close>

lemma wal_append_ok:
  assumes "wal_repr crc w fs segs" "storable r" "active_segment_id w \<noteq> - 1"
  shows "\<exists>loc w' fs' segs'. wal_append crc AppendOk r w fs = (Inr loc, w', fs') \<and>
    wal_repr crc w' fs' segs' \<and> log_of segs' = log_of segs @ [(loc, r)] \<and>
    max_segment_size w' = max_segment_size w"
proof (cases "current_size w \<ge> max_segment_size w")
  case False
  let ?w = "w\<lparr>current_size := current_size w + length (encode crc r)\<rparr>"
  have "wal_append crc AppendOk r w fs =
      (Inr (active_segment_id w, current_size w), ?w, fs_append fs (active_file w) (encode crc r))"
    using False by (simp add: wal_append_def)
  moreover have "log_of (add_record segs r) = log_of segs @ [((active_segment_id w, current_size w), r)]"
    using wal_reprD [OF assms(1)] by (simp add: log_of_add_record length_seg_bytes)
  ultimately show ?thesis using wal_repr_write [OF assms(1,2)]
    by (intro exI conjI) (assumption | simp)+
next
  case True
  obtain w1 fs1 where rot: "wal_rotate AppendOk w fs = (Inr (), w1, fs1)"
      "active_segment_id w1 = active_segment_id w + 1" "max_segment_size w1 = max_segment_size w" "current_size w1 = 0"
      "wal_repr crc w1 fs1 (segs @ [(active_segment_id w + 1, [])])"
    using wal_repr_rotate [OF assms(1,3)] by blast
  let ?w = "w1\<lparr>current_size := current_size w1 + length (encode crc r)\<rparr>"
  have "wal_append crc AppendOk r w fs =
      (Inr (active_segment_id w + 1, 0), ?w, fs_append fs1 (active_file w1) (encode crc r))"
    using True rot by (simp add: wal_append_def)
  moreover have "log_of (add_record (segs @ [(active_segment_id w + 1, [])]) r) =
      log_of segs @ [((active_segment_id w + 1, 0), r)]"
    by (simp add: log_of_add_record seg_log_def)
  ultimately show ?thesis using wal_repr_write [OF rot(5) assms(2)] rot(3)
    by (intro exI conjI) (assumption | simp)+
qed

text \<open>A failed append that could clean up after itself leaves the log as it was.\<close>

lemma set_len_append:
  assumes "fs_content fs f = bs"
  shows "fs_content (fs_set_len (fs_append fs f xs) f (length bs)) g = fs_content fs g"
  using assms by (simp add: fs_set_len_def)

lemma fs_file_content_cong:
  "fs_dir fs = fs_dir fs' \<Longrightarrow> (\<And>i. fs_content fs i = fs_content fs' i) \<Longrightarrow> fs_file fs n = fs_file fs' n"
  by (cases "hm_get (fs_dir fs') n") (simp_all add: fs_file_def)

lemma wal_repr_cong:
  assumes "wal_repr crc w fs segs" "fs_dir fs' = fs_dir fs" "\<And>i. fs_content fs' i = fs_content fs i" "fs_ok fs'"
  shows "wal_repr crc w fs' segs"
proof -
  have "fs_file fs' n = fs_file fs n" for n using assms(2,3) by (rule fs_file_content_cong)
  then show ?thesis
    using assms unfolding wal_repr_def seg_on_disk_def dir_clean_def fs_read_dir_def by simp
qed

lemma wal_repr_failed_write:
  assumes "wal_repr crc w fs segs"
  shows "wal_repr crc w (fs_set_len (fs_append fs (active_file w) xs) (active_file w) (current_size w)) segs"
proof (rule wal_repr_cong [OF assms])
  note d = wal_reprD [OF assms]
  have "fs_content fs (active_file w) = seg_bytes crc (snd (last segs))"
    using d(2,5,6,7) by (auto simp: seg_on_disk_def fs_file_def dest!: last_in_set)
  then show "fs_content (fs_set_len (fs_append fs (active_file w) xs) (active_file w) (current_size w)) i =
      fs_content fs i" for i
    using set_len_append d(8) by simp
qed (use wal_reprD(1) [OF assms] in simp_all)

lemma wal_append_failed:
  assumes "wal_repr crc w fs segs" "active_segment_id w \<noteq> - 1"
    and "io = WriteFails n e True \<or> (io = SyncFails e \<and> max_segment_size w \<le> current_size w)"
  shows "\<exists>w' fs' segs'. wal_append crc io r w fs = (Inl e, w', fs') \<and> wal_repr crc w' fs' segs' \<and>
    log_of segs' = log_of segs"
proof (cases "io = SyncFails e")
  case True
  then have "wal_append crc io r w fs = (Inl e, w, fs)"
    using assms(3) by (simp add: wal_append_def wal_rotate_def)
  then show ?thesis using assms(1) by blast
next
  case False
  then have io: "io = WriteFails n e True" using assms(3) by blast
  show ?thesis
  proof (cases "current_size w \<ge> max_segment_size w")
    case False
    then show ?thesis
      using wal_repr_failed_write [OF assms(1), of "take n (encode crc r)"] io
      by (auto simp: wal_append_def Let_def)
  next
    case True
    obtain w1 fs1 where rot: "wal_rotate io w fs = (Inr (), w1, fs1)" "current_size w1 = 0"
        "wal_repr crc w1 fs1 (segs @ [(active_segment_id w + 1, [])])"
      using wal_repr_rotate [OF assms(1,2)] io by blast
    have "log_of (segs @ [(active_segment_id w + 1, [])]) = log_of segs"
      by (simp add: seg_log_def)
    then show ?thesis
      using wal_repr_failed_write [OF rot(3), of "take n (encode crc r)"] rot(1,2) io True
      by (auto simp: wal_append_def Let_def)
  qed
qed

section \<open>Opening\<close>

text \<open>
  A directory as a crash may leave it: closed segments intact, and behind the records of
  the last segment some bytes that are not a valid frame.
\<close>

definition disk_holds :: "(bytes \<Rightarrow> u32) \<Rightarrow> fsys \<Rightarrow> (u64 \<times> Record list) list \<Rightarrow> bytes \<Rightarrow> bool" where
  "disk_holds crc fs segs torn \<longleftrightarrow>
     fs_ok fs \<and> segs \<noteq> [] \<and> sorted_wrt (<) (map fst segs) \<and> 0 \<notin> set (map fst segs) \<and>
     dir_clean fs (map fst segs) \<and> (\<forall>seg \<in> set (butlast segs). seg_on_disk crc fs seg) \<and>
     fs_file fs (seg_name (fst (last segs))) = Some (seg_bytes crc (snd (last segs)) @ torn) \<and>
     (\<forall>r \<in> set (snd (last segs)). storable r) \<and> bad_tail crc torn"

lemma wal_repr_disk_holds: "wal_repr crc w fs segs \<Longrightarrow> disk_holds crc fs segs []"
  unfolding wal_repr_def disk_holds_def
  by (auto simp: seg_on_disk_def dest: in_set_butlastD) (metis last_in_set)+

lemma foldl_max: "foldl (\<lambda>m s. if s > m then s else m) a xs = Max (insert a (set xs))"
  for a :: "'a::linorder"
proof (induction xs arbitrary: a)
  case (Cons x xs)
  have "(if a < x then x else a) = max a x" by (auto simp: max_def)
  then show ?case using Cons [of "max a x"]
    by (cases "xs = []") (simp_all add: max.assoc insert_commute)
qed simp

lemma recover_compaction_clean:
  assumes "dir_clean fs ids"
  shows "recover_compaction fs = fs"
proof -
  have "\<not> fs_exists fs plan_name" "\<not> fs_exists fs swap_name"
    using assms by (auto simp: dir_clean_def fs_exists_def hm_contains_keys fs_read_dir_def)
  then show ?thesis by (simp add: recover_compaction_def)
qed

lemma Max_sorted_last:
  assumes "sorted_wrt (<) xs" "xs \<noteq> []" "0 \<notin> set xs"
  shows "Max (insert 0 (set xs)) = last (xs :: u64 list)"
proof (rule Max_eqI)
  show "last xs \<in> insert 0 (set xs)" using assms(2) by simp
  fix y assume "y \<in> insert 0 (set xs)"
  then show "y \<le> last xs"
    using assms by (cases xs rule: rev_cases) (auto simp: sorted_wrt_append)
qed simp

lemma wal_open_spec:
  assumes "disk_holds crc fs segs torn"
  shows "\<exists>w fs'. wal_open crc fs max_seg = (w, fs') \<and> wal_repr crc w fs' segs \<and>
    max_segment_size w = (case max_seg of None \<Rightarrow> DEFAULT_MAX_SEGMENT_SIZE | Some m \<Rightarrow> m)"
proof -
  note d = assms [unfolded disk_holds_def]
  have clean: "dir_clean fs (map fst segs)" and ok: "fs_ok fs" using d by blast+
  obtain init s rs where segs: "segs = init @ [(s, rs)]" using d by (cases segs rule: rev_cases) auto
  have active: "fs_file fs (seg_name s) = Some (seg_bytes crc rs @ torn)" and st: "\<forall>r \<in> set rs. storable r"
    and tail: "bad_tail crc torn" and init: "\<forall>seg \<in> set init. seg_on_disk crc fs seg"
    using d by (simp_all add: segs)
  then obtain f where f: "hm_get (fs_dir fs) (seg_name s) = Some f" "fs_content fs f = seg_bytes crc rs @ torn"
    by (auto simp: fs_file_def)
  have ex: "\<forall>s \<in> set (map fst segs). fs_exists fs (seg_name s)"
    using init f(1) seg_on_disk_exists by (fastforce simp: segs fs_exists_def hm_contains_def)
  have s0: "s \<noteq> 0" using d segs by auto
  have max_id: "foldl (\<lambda>m s. if s > m then s else m) 0 (segment_ids fs) = s"
    using segment_ids_clean(2) [OF ok clean ex] Max_sorted_last [of "map fst segs"] d segs by (simp add: foldl_max)
  have scan: "scan_valid crc (seg_bytes crc rs @ torn) 0 = length (seg_bytes crc rs)"
    using scan_valid_frames [OF st tail, of "[]"] by simp
  let ?fs = "if torn = [] then fs else fs_set_len fs f (length (seg_bytes crc rs))"
  let ?w = "\<lparr>active_segment_id = s, active_file = f, current_size = length (seg_bytes crc rs),
    max_segment_size = (case max_seg of None \<Rightarrow> DEFAULT_MAX_SEGMENT_SIZE | Some m \<Rightarrow> m)\<rparr>"
  have opened: "wal_open crc fs max_seg = (?w, ?fs)"
    using f scan s0 unfolding wal_open_def Let_def recover_compaction_clean [OF clean]
      remove_temporaries_clean [OF clean] max_id
    by (simp add: fs_open_append_def)
  have put: "fs_file ?fs n = (if n = seg_name s then Some (seg_bytes crc rs) else fs_file fs n)" for n
    using fs_file_put [OF ok f(1)] active f(2) by (simp add: fs_set_len_def)
  have "seg_on_disk crc ?fs seg" if "seg \<in> set init" for seg
  proof -
    have "fst seg \<noteq> s" using d segs that by (auto simp: sorted_wrt_append)
    then show ?thesis using init that by (simp add: seg_on_disk_def put)
  qed
  moreover have "seg_on_disk crc ?fs (s, rs)" using st by (simp add: seg_on_disk_def put)
  ultimately have "wal_repr crc ?w ?fs segs"
    unfolding wal_repr_def using d ok f(1) by (auto simp: segs dir_clean_def fs_read_dir_def)
  then show ?thesis using opened by auto
qed

text \<open>An empty directory becomes one empty segment with id 1.\<close>

lemma wal_open_empty:
  "\<exists>w fs'. wal_open crc fs_empty max_seg = (w, fs') \<and> wal_repr crc w fs' [(1, [])] \<and>
    max_segment_size w = (case max_seg of None \<Rightarrow> DEFAULT_MAX_SEGMENT_SIZE | Some m \<Rightarrow> m)"
proof -
  obtain f fs' where o: "fs_open_append fs_empty (seg_name 1) = (f, fs')" by fastforce
  have clean: "dir_clean fs_empty ids" for ids by (simp add: dir_clean_def fs_read_dir_def fs_empty_def hm_keys_def)
  have file': "fs_file fs' (seg_name 1) = Some []"
    using fs_open_append_file [OF fs_ok_empty o, of "seg_name 1"] by (simp add: fs_file_def fs_empty_def)
  note dir' = fs_open_append_name [OF o]
  then have content: "fs_content fs' f = []" using file' by (simp add: fs_file_def)
  let ?w = "\<lparr>active_segment_id = 1, active_file = f, current_size = 0,
    max_segment_size = (case max_seg of None \<Rightarrow> DEFAULT_MAX_SEGMENT_SIZE | Some m \<Rightarrow> m)\<rparr>"
  have "segment_ids fs_empty = []"
    by (simp add: segment_ids_def fs_read_dir_def fs_empty_def hm_keys_def map_filter_def)
  moreover have "scan_valid crc [] 0 = 0" by (simp add: scan_valid.simps)
  ultimately have "wal_open crc fs_empty max_seg = (?w, fs')"
    unfolding wal_open_def Let_def recover_compaction_clean [OF clean] remove_temporaries_clean [OF clean]
    by (simp add: o content)
  moreover have "dir_clean fs' [1]"
    using fs_dir_open_append [OF o] by (simp add: dir_clean_def is_temporary_def fs_read_dir_def fs_empty_def hm_keys_def)
  then have "wal_repr crc ?w fs' [(1, [])]"
    using fs_ok_open_append [OF fs_ok_empty o] file' dir' by (simp add: wal_repr_def seg_on_disk_def)
  ultimately show ?thesis by auto
qed

lemma byte_slice_take: "j \<le> k \<Longrightarrow> byte_slice i j (take k xs) = byte_slice i j xs"
  by (simp add: byte_slice_def drop_take min_absorb1)

text \<open>Any proper prefix of a frame is a tail that opening cuts off.\<close>

lemma torn_bad_tail:
  assumes "storable r" "n < length (encode crc r)"
  shows "bad_tail crc (take n (encode crc r))"
proof -
  let ?x = "take n (encode crc r)"
  have "next_frame ?x 0 = None"
  proof (rule ccontr)
    assume "next_frame ?x 0 \<noteq> None"
    then obtain frame where f: "next_frame ?x 0 = Some frame" by auto
    note d = next_frame_SomeD [OF f] next_frame_length [OF f]
    have len: "length frame \<le> n" "19 \<le> length frame"
      using d(3,4) by (simp_all add: HEADER_SIZE_def)
    then have "frame = take (length frame) (encode crc r)"
      using d(1) by (simp add: min_absorb1)
    then have "byte_slice 15 19 frame = byte_slice 15 19 (encode crc r)"
      using len(2) byte_slice_take [of 19 "length frame" 15 "encode crc r"] by simp
    then have "extract_payload_len frame = extract_payload_len (encode crc r)"
      by (simp add: extract_payload_len_def)
    moreover have "extract_payload_len (encode crc r) = length (rec_payload r)"
      using encode_len_field [of crc r "[]"] storable_len [OF assms(1)] by (simp add: extract_payload_len_def)
    ultimately show False using d(2,4) assms(2) by (simp add: frame_len_def)
  qed
  then show ?thesis by (simp add: bad_tail_def)
qed

section \<open>The interface of the log\<close>

locale record_log =
  fixes holds :: "'w \<Rightarrow> ('l::linorder \<times> Record) list \<Rightarrow> bool"
    and append :: "Record \<Rightarrow> 'w \<Rightarrow> 'l result \<times> 'w"
    and iterate :: "'w \<Rightarrow> ('l \<times> Record) list result"
    and read :: "'w \<Rightarrow> 'c \<Rightarrow> 'l \<Rightarrow> Record option result \<times> 'c"
    and reader_ok :: "'w \<Rightarrow> 'c \<Rightarrow> bool"
    and room :: "'w \<Rightarrow> bool"
  assumes append_law: "holds w log \<Longrightarrow> storable r \<Longrightarrow> room w \<Longrightarrow>
      \<exists>l w'. append r w = (Inr l, w') \<and> holds w' (log @ [(l, r)])"
    and sorted_law: "holds w log \<Longrightarrow> sorted_wrt (<) (map fst log)"
    and iterate_law: "holds w log \<Longrightarrow> iterate w = Inr log"
    and read_law: "holds w log \<Longrightarrow> reader_ok w c \<Longrightarrow> (l, r) \<in> set log \<Longrightarrow>
      \<exists>c'. read w c l = (Inr (Some r), c') \<and> reader_ok w c'"
    and reader_append: "holds w log \<Longrightarrow> reader_ok w c \<Longrightarrow> append r w = (Inr l, w') \<Longrightarrow> reader_ok w' c"
begin

text \<open>A represented log is unique.\<close>

lemma holds_unique: "holds w log \<Longrightarrow> holds w log' \<Longrightarrow> log = log'"
  by (metis iterate_law sum.inject(2))

lemma append_SomeD:
  assumes "holds w log" "storable r" "room w" "append r w = (Inr l, w')"
  shows "holds w' (log @ [(l, r)])"
  using append_law [OF assms(1-3)] assms(4) by auto

text \<open>A new location lies behind every older one.\<close>

lemma append_fresh:
  assumes "holds w log" "storable r" "room w" "append r w = (Inr l, w')" "(l', r') \<in> set log"
  shows "l' < l"
  using sorted_law [OF append_SomeD [OF assms(1-4)]] assms(5) by (auto simp: sorted_wrt_append)

text \<open>After an append, the new location and every older one read back their records.\<close>

lemma read_after_append:
  assumes "holds w log" "storable r" "room w" "append r w = (Inr l, w')" "reader_ok w c"
    and "(k, x) \<in> set (log @ [(l, r)])"
  shows "\<exists>c'. read w' c k = (Inr (Some x), c') \<and> reader_ok w' c'"
  using read_law [OF append_SomeD [OF assms(1-4)] reader_append [OF assms(1,5,4)] assms(6)] .

end

definition wal_holds :: "(bytes \<Rightarrow> u32) \<Rightarrow> Wal \<times> fsys \<Rightarrow> (loc \<times> Record) list \<Rightarrow> bool" where
  "wal_holds crc w log \<longleftrightarrow> (\<exists>segs. wal_repr crc (fst w) (snd w) segs \<and> log = log_of segs)"

definition wal_room :: "Wal \<times> fsys \<Rightarrow> bool" where
  "wal_room w \<longleftrightarrow> active_segment_id (fst w) \<noteq> - 1"

lemma wal_append_keeps_names:
  assumes "wal_append crc AppendOk r w fs = (Inr l, w', fs')" "hm_get (fs_dir fs) n = Some i"
  shows "hm_get (fs_dir fs') n = Some i"
proof -
  have "hm_get (fs_dir (snd (fs_open_append fs m))) n = Some i" for m
    using assms(2) by (auto simp: fs_open_append_def split: option.split)
  then show ?thesis
    using assms by (auto simp: wal_append_def wal_rotate_def Let_def split: if_splits prod.splits)
      (metis snd_conv)
qed

lemma cache_fresh_append:
  "cache_fresh fs c \<Longrightarrow> wal_append crc AppendOk r w fs = (Inr l, w', fs') \<Longrightarrow> cache_fresh fs' c"
  by (auto simp: cache_fresh_def dest: wal_append_keeps_names)

interpretation wl: record_log "wal_holds crc"
  "\<lambda>r w. case wal_append crc AppendOk r (fst w) (snd w) of (l, w', fs') \<Rightarrow> (l, w', fs')"
  "\<lambda>w. iter_collect crc (snd w) (fst (iter_all (snd w)))"
  "\<lambda>w c l. read_at crc (snd w) c (fst l) (snd l)"
  "\<lambda>w c. cache_fresh (snd w) c" wal_room
  for crc
proof unfold_locales
  fix w log r assume "wal_holds crc w log" "storable r" "wal_room w"
  then show "\<exists>l w'. (case wal_append crc AppendOk r (fst w) (snd w) of (l, w', fs') \<Rightarrow> (l, w', fs')) = (Inr l, w') \<and>
      wal_holds crc w' (log @ [(l, r)])"
    using wal_append_ok [of crc "fst w" "snd w"] by (fastforce simp: wal_holds_def wal_room_def)
next
  fix w log assume "wal_holds crc w log"
  then show "sorted_wrt (<) (map fst log)"
    using sorted_log_of wal_reprD(3) by (auto simp: wal_holds_def)
next
  fix w log assume "wal_holds crc w log"
  then show "iter_collect crc (snd w) (fst (iter_all (snd w))) = Inr log"
    using iter_all_log(2) by (auto simp: wal_holds_def)
next
  fix w log c l r assume "wal_holds crc w log" "cache_fresh (snd w) c" "(l, r) \<in> set log"
  then show "\<exists>c'. read_at crc (snd w) c (fst l) (snd l) = (Inr (Some r), c') \<and> cache_fresh (snd w) c'"
    using read_at_log wal_reprD(5) by (cases l) (fastforce simp: wal_holds_def)
next
  fix w log c r l w'
  assume "wal_holds crc w log" "cache_fresh (snd w) c"
    "(case wal_append crc AppendOk r (fst w) (snd w) of (l, w', fs') \<Rightarrow> (l, w', fs')) = (Inr l, w')"
  then show "cache_fresh (snd w') c"
    using cache_fresh_append by (cases w') (auto split: prod.splits)
qed

section \<open>Properties\<close>

lemma wal_holds_open_empty:
  "wal_holds crc (wal_open crc fs_empty m) []" "active_segment_id (fst (wal_open crc fs_empty m)) = 1"
proof -
  obtain w fs' where o: "wal_open crc fs_empty m = (w, fs')" "wal_repr crc w fs' [(1, [])]"
    using wal_open_empty by blast
  then show "wal_holds crc (wal_open crc fs_empty m) []" unfolding wal_holds_def
    by (intro exI [of _ "[(1, [])]"]) (simp add: seg_log_def)
  show "active_segment_id (fst (wal_open crc fs_empty m)) = 1"
    using wal_reprD(6) [OF o(2)] o(1) by simp
qed

lemma wal_holds_append:
  assumes "wal_holds crc w log" "storable r" "active_segment_id (fst w) \<noteq> - 1"
    "wal_append crc AppendOk r (fst w) (snd w) = (Inr l, w')"
  shows "wal_holds crc w' (log @ [(l, r)])"
  using wl.append_SomeD [OF assms(1,2)] assms(3,4) by (cases w') (simp add: wal_room_def)

text \<open>
  C21. A successful append adds exactly one record at the end of the log, at a location
  behind all others: iterating over the directory then yields the old log and the new
  record, and every location, old or new, reads back its record through the cache of open
  files, also when the append had to rotate to a new segment.
\<close>

theorem append_extends_log:
  assumes "wal_holds crc (w, fs) log" "storable r" "active_segment_id w \<noteq> - 1" "cache_fresh fs cache"
  shows "\<exists>l w' fs'. wal_append crc AppendOk r w fs = (Inr l, w', fs') \<and>
    iter_collect crc fs' (fst (iter_all fs')) = Inr (log @ [(l, r)]) \<and>
    (\<forall>k \<in> set (map fst log). k < l) \<and>
    (\<forall>(k, x) \<in> set (log @ [(l, r)]). fst (read_at crc fs' cache (fst k) (snd k)) = Inr (Some x)) \<and>
    wal_holds crc (w', fs') (log @ [(l, r)])"
proof -
  have room: "wal_room (w, fs)" using assms(3) by (simp add: wal_room_def)
  obtain l w' fs' where app: "wal_append crc AppendOk r w fs = (Inr l, w', fs')"
    and holds: "wal_holds crc (w', fs') (log @ [(l, r)])"
    using wl.append_law [OF assms(1,2) room] by (auto split: prod.splits)
  have app': "(case wal_append crc AppendOk r (fst (w, fs)) (snd (w, fs)) of (l, w', fs') \<Rightarrow> (l, w', fs')) =
      (Inr l, w', fs')" using app by simp
  have "fst (read_at crc fs' cache (fst k) (snd k)) = Inr (Some x)" if "(k, x) \<in> set (log @ [(l, r)])" for k x
    using wl.read_after_append [OF assms(1,2) room app' _ that, of cache] assms(4) by auto
  moreover have "\<forall>k \<in> set (map fst log). k < l"
    using wl.append_fresh [OF assms(1,2) room app'] by auto
  ultimately show ?thesis using app holds wl.iterate_law [OF holds] by auto
qed

theorem append_extends_log_witness:
  "\<exists>l w' fs'. wal_append byte_sum AppendOk (new_record 7 Created 3 [1, 2])
      (fst (wal_open byte_sum fs_empty None)) (snd (wal_open byte_sum fs_empty None)) = (Inr l, w', fs') \<and>
    iter_collect byte_sum fs' (fst (iter_all fs')) = Inr [(l, new_record 7 Created 3 [1, 2])]"
proof -
  have "wal_holds byte_sum (fst (wal_open byte_sum fs_empty None), snd (wal_open byte_sum fs_empty None)) []"
    using wal_holds_open_empty(1) by simp
  moreover have "storable (new_record 7 Created 3 [1, 2])"
    by (simp add: storable_def new_record_def MAX_PAYLOAD_SIZE_def)
  moreover have "active_segment_id (fst (wal_open byte_sum fs_empty None)) \<noteq> - 1"
    by (simp add: wal_holds_open_empty(2))
  ultimately show ?thesis
    using append_extends_log [where cache = "[]"] by fastforce
qed

lemma disk_holds_torn:
  assumes "wal_repr crc w fs segs" "bad_tail crc torn"
  shows "disk_holds crc (fs_append fs (active_file w) torn) segs torn"
proof -
  note d = wal_reprD [OF assms(1)]
  let ?fs = "fs_append fs (active_file w) torn"
  obtain init s rs where segs: "segs = init @ [(s, rs)]"
    using d(2) by (cases segs rule: rev_cases) auto
  have s: "s = active_segment_id w" using d(6) segs by simp
  have "fs_content fs (active_file w) = seg_bytes crc rs"
    using d(5,7) segs by (auto simp: seg_on_disk_def fs_file_def s)
  then have put: "fs_file ?fs n = (if n = seg_name s then Some (seg_bytes crc rs @ torn) else fs_file fs n)" for n
    using fs_file_put [OF d(1,7)] by (simp add: fs_append_def s)
  have "seg_on_disk crc ?fs seg" if "seg \<in> set init" for seg
  proof -
    have "fst seg \<noteq> s" using d(3) segs that by (auto simp: sorted_wrt_append)
    then show ?thesis using d(5) segs that by (simp add: seg_on_disk_def put)
  qed
  moreover have "\<forall>r \<in> set rs. storable r" using d(5) segs by (simp add: seg_on_disk_def)
  moreover have "dir_clean ?fs (map fst segs)" using d(4) by (simp add: dir_clean_def fs_read_dir_def)
  ultimately show ?thesis
    unfolding disk_holds_def using d(1,3,9) assms(2) by (simp add: segs put)
qed

lemma wal_torn_append:
  assumes "wal_holds crc (w, fs) log" "storable r" "active_segment_id w \<noteq> - 1" "n < length (encode crc r)"
  shows "\<exists>w' fs'. wal_append crc (WriteFails n e False) r w fs = (Inl e, w', fs') \<and>
    wal_holds crc (wal_open crc fs' m) log"
proof -
  obtain segs where segs: "wal_repr crc w fs segs" "log = log_of segs"
    using assms(1) by (auto simp: wal_holds_def)
  define io where "io = WriteFails n e False"
  obtain w1 fs1 segs1 where rot: "(if current_size w \<ge> max_segment_size w then wal_rotate io w fs else (Inr (), w, fs)) =
      (Inr (), w1, fs1)" "wal_repr crc w1 fs1 segs1" "log_of segs1 = log"
  proof (cases "current_size w \<ge> max_segment_size w")
    case True
    then show ?thesis
      using wal_repr_rotate [OF segs(1) assms(3), of io] that segs(2)
      by (fastforce simp: io_def seg_log_def)
  qed (use that segs in auto)
  let ?torn = "take n (encode crc r)"
  let ?fs = "fs_append fs1 (active_file w1) ?torn"
  have app: "wal_append crc io r w fs = (Inl e, w1, ?fs)"
    unfolding wal_append_def rot(1) Let_def by (simp add: io_def)
  have "disk_holds crc ?fs segs1 ?torn"
    by (rule disk_holds_torn [OF rot(2) torn_bad_tail [OF assms(2,4)]])
  then obtain w2 fs2 where "wal_open crc ?fs m = (w2, fs2)" "wal_repr crc w2 fs2 segs1"
    using wal_open_spec by blast
  then have "wal_holds crc (wal_open crc ?fs m) log"
    using rot(3) by (auto simp: wal_holds_def)
  then show ?thesis using app by (auto simp: io_def)
qed

text \<open>
  Crash recovery: when the process dies in the middle of an append, with any proper
  prefix of the frame on disk (in the old segment or, after a rotation, in the new one),
  opening the directory again recovers exactly the log before that append.
\<close>

theorem open_recovers_torn_append:
  assumes "wal_holds crc (w, fs) log" "storable r" "active_segment_id w \<noteq> - 1" "n < length (encode crc r)"
  shows "\<exists>w' fs'. wal_append crc (WriteFails n e False) r w fs = (Inl e, w', fs') \<and>
    wal_holds crc (wal_open crc fs' m) log"
  by (rule wal_torn_append [OF assms])

theorem open_recovers_torn_append_witness:
  "\<exists>w' fs'. wal_append byte_sum (WriteFails 5 (IoErr OtherKind ''disk full'') False) (new_record 7 Created 3 [1, 2])
      (fst (wal_open byte_sum fs_empty None)) (snd (wal_open byte_sum fs_empty None)) =
        (Inl (IoErr OtherKind ''disk full''), w', fs') \<and>
    wal_holds byte_sum (wal_open byte_sum fs' None) []"
proof (rule open_recovers_torn_append)
  show "wal_holds byte_sum (fst (wal_open byte_sum fs_empty None), snd (wal_open byte_sum fs_empty None)) []"
    using wal_holds_open_empty(1) by simp
  show "storable (new_record 7 Created 3 [1, 2])"
    by (simp add: storable_def new_record_def MAX_PAYLOAD_SIZE_def)
  show "5 < length (encode byte_sum (new_record 7 Created 3 [1, 2]))"
    by (simp add: frame_len_def HEADER_SIZE_def)
qed (simp add: wal_holds_open_empty(2))

text \<open>
  C22. Whatever bytes the active segment holds when a directory is opened, the log that
  \<open>Wal::open\<close> establishes is made of the longest prefix of the file that is a sequence of
  valid frames; everything from the first incomplete or undecodable frame on is cut off.
\<close>

theorem open_keeps_valid_prefix:
  assumes "fs_ok fs" "sorted_wrt (<) (map fst closed @ [s])" "0 \<notin> set (map fst closed @ [s])"
    and "dir_clean fs (map fst closed @ [s])" "\<forall>seg \<in> set closed. seg_on_disk crc fs seg"
    and "fs_file fs (seg_name s) = Some bs"
  shows "\<exists>rs rest. bs = seg_bytes crc rs @ rest \<and> (\<forall>r \<in> set rs. storable r) \<and> bad_tail crc rest \<and>
    wal_holds crc (wal_open crc fs m) (log_of (closed @ [(s, rs)]))"
proof -
  define v where "v = scan_valid crc bs 0"
  obtain rs where rs: "take v bs = seg_bytes crc rs" "\<forall>r \<in> set rs. storable r" "bad_tail crc (drop v bs)"
    using scan_valid_sound [of 0 bs crc "[]"] by (auto simp: v_def)
  then have bs: "bs = seg_bytes crc rs @ drop v bs" by (metis append_take_drop_id)
  then have "disk_holds crc fs (closed @ [(s, rs)]) (drop v bs)"
    using assms rs unfolding disk_holds_def by simp
  then obtain w fs' where "wal_open crc fs m = (w, fs')" "wal_repr crc w fs' (closed @ [(s, rs)])"
    using wal_open_spec by blast
  then have "wal_holds crc (wal_open crc fs m) (log_of (closed @ [(s, rs)]))" unfolding wal_holds_def by auto
  then show ?thesis using bs rs(2,3) by blast
qed

theorem open_keeps_valid_prefix_witness:
  "\<exists>rs rest. [1, 2, 3] = seg_bytes byte_sum rs @ rest \<and> (\<forall>r \<in> set rs. storable r) \<and> bad_tail byte_sum rest \<and>
    wal_holds byte_sum
      (wal_open byte_sum (fs_append (snd (fs_open_append fs_empty (seg_name 1))) 0 [1, 2, 3]) None)
      (log_of ([] @ [(1, rs)]))"
proof (rule open_keeps_valid_prefix)
  let ?fs = "snd (fs_open_append fs_empty (seg_name 1))"
  have o: "fs_open_append fs_empty (seg_name 1) = (0, ?fs)"
    by (simp add: fs_open_append_def fs_empty_def)
  show "fs_ok (fs_append ?fs 0 [1, 2, 3])" using fs_ok_open_append [OF fs_ok_empty o] by simp
  show "dir_clean (fs_append ?fs 0 [1, 2, 3]) (map fst [] @ [1])"
    using fs_dir_open_append [OF o]
    by (simp add: dir_clean_def is_temporary_def fs_read_dir_def) (simp add: fs_empty_def hm_keys_def)
  show "fs_file (fs_append ?fs 0 [1, 2, 3]) (seg_name 1) = Some [1, 2, 3]"
    by (simp add: fs_open_append_def fs_empty_def fs_file_def fs_append_def fs_put_def fs_content_def)
qed simp_all

text \<open>
  Failed appends: when the \<open>fsync\<close> of a rotation or the write fails (after any number
  of bytes, and the file could be cut back), the error is returned and the log is unchanged.
\<close>

theorem failed_append_keeps_log:
  assumes "wal_holds crc (w, fs) log" "active_segment_id w \<noteq> - 1"
    and "io = WriteFails n e True \<or> (io = SyncFails e \<and> max_segment_size w \<le> current_size w)"
  shows "\<exists>w' fs'. wal_append crc io r w fs = (Inl e, w', fs') \<and> wal_holds crc (w', fs') log"
  using wal_append_failed [of crc w fs _ io n e] assms unfolding wal_holds_def by (metis fst_conv snd_conv)

theorem failed_append_keeps_log_witness:
  "\<exists>w' fs'. wal_append byte_sum (WriteFails 30 (IoErr OtherKind ''disk full'') True) (new_record 7 Created 3 [1, 2])
      (fst (wal_open byte_sum fs_empty None)) (snd (wal_open byte_sum fs_empty None)) =
        (Inl (IoErr OtherKind ''disk full''), w', fs') \<and> wal_holds byte_sum (w', fs') []"
  by (rule failed_append_keeps_log) (simp_all add: wal_holds_open_empty)

text \<open>
  The reader keeps at most eight open files, one per segment, whatever it is asked for
  and whether or not the segment exists; the segment just read is the most recently used
  one, and only the least recently used entry is ever dropped.
\<close>

theorem read_cache_bounded:
  assumes "distinct (map fst cache)" "length cache \<le> MAX_LRU_CACHE_SIZE"
    and "read_at crc fs cache s off = (res, cache')"
  shows "distinct (map fst cache') \<and> length cache' \<le> 8 \<and> set (drop 1 cache) \<subseteq> set cache' \<and>
    (cache' = cache \<or> (cache' \<noteq> [] \<and> fst (last cache') = s))"
proof (cases "dropWhile (\<lambda>e. fst e \<noteq> s) cache")
  case Nil
  then have nin: "s \<notin> fst ` set cache" by (auto simp: dropWhile_eq_Nil_conv)
  show ?thesis
  proof (cases "fs_open fs (seg_name s)")
    case (Inl e)
    then show ?thesis
      using assms Nil by (auto simp: read_at_def open_cached_def MAX_LRU_CACHE_SIZE_def dest: in_set_dropD)
  next
    case (Inr f)
    have "distinct (map fst (drop 1 cache))" using assms(1) by (simp add: drop_map [symmetric])
    moreover have "cache' = (if length cache \<ge> MAX_LRU_CACHE_SIZE then drop 1 cache else cache) @ [(s, f)]"
      using assms(3) Nil Inr by (auto simp: read_at_def open_cached_def)
    ultimately show ?thesis
      using assms(1,2) nin by (auto simp: MAX_LRU_CACHE_SIZE_def dest: in_set_dropD)
  qed
next
  case (Cons e after)
  define b where "b = takeWhile (\<lambda>e. fst e \<noteq> s) cache"
  have c: "cache = b @ e # after" "fst e = s"
    using Cons takeWhile_dropWhile_id [of "\<lambda>e. fst e \<noteq> s" cache]
    by (auto simp: b_def dropWhile_eq_Cons_conv)
  have "cache' = b @ after @ [e]"
    using assms(3) Cons by (auto simp: read_at_def open_cached_def b_def)
  then show ?thesis
    using assms(1,2) unfolding c(1) by (auto simp: c(2) MAX_LRU_CACHE_SIZE_def dest: in_set_dropD)
qed

theorem read_cache_bounded_witness:
  "distinct (map fst (snd (read_at byte_sum (snd (wal_open byte_sum fs_empty None)) [] 1 0))) \<and>
    length (snd (read_at byte_sum (snd (wal_open byte_sum fs_empty None)) [] 1 0)) \<le> 8"
  using read_cache_bounded [of "[]" byte_sum "snd (wal_open byte_sum fs_empty None)" 1 0
      "fst (read_at byte_sum (snd (wal_open byte_sum fs_empty None)) [] 1 0)"
      "snd (read_at byte_sum (snd (wal_open byte_sum fs_empty None)) [] 1 0)"] by simp

text \<open>
  Segment names: the name of every segment id reads back as that id, is not taken for a
  temporary file and is none of the other names in the directory.
\<close>

theorem segment_name_roundtrip:
  "seg_id_of_name (seg_name s) = Some s \<and> \<not> is_temporary (seg_name s) \<and>
   seg_name s \<notin> {plan_name, swap_name, compacting_name} \<and> (seg_name t = seg_name s \<longleftrightarrow> t = s)"
  by (simp add: is_temporary_def)

text \<open>
  The plan file of a compaction: the ids read back from its bytes are the ids written.
\<close>

theorem plan_file_roundtrip:
  assumes "ids \<noteq> []"
  shows "map_option plan_ids (bytes_text (text_bytes (plan_text ids))) = Some ids"
  using bytes_text_text_bytes [OF plan_text_ascii] plan_roundtrip [OF assms] by simp

theorem plan_file_roundtrip_witness:
  "map_option plan_ids (bytes_text (text_bytes (plan_text [1, 2, 30]))) = Some [1, 2, 30]"
  by (rule plan_file_roundtrip) simp

end
