(* ===== verification/Compaction.thy ===== *)
theory Compaction
  imports Wal_Spec
begin

text \<open>
  Log compaction, \<open>src/src/storage/wal.rs\<close>: \<open>plan_compaction\<close>, the two phases and
  \<open>compact_with_offsets\<close>. Phase 1 replays the closed segments into two maps (the payload and
  the latest record of every task that is neither acknowledged nor dead-lettered) and writes
  one consolidated record per task; phase 2 renames the new file over segment 1 and unlinks
  the rest.
\<close>

section \<open>Operations\<close>

record CompactionStats =
  closed_segments_compacted :: nat
  surviving_records :: nat
  new_segment_id :: u64

text \<open>\<open>HashMap::entry(k).or_insert_with(v)\<close>.\<close>

definition hm_or_insert :: "'k \<Rightarrow> 'v \<Rightarrow> ('k, 'v) hmap \<Rightarrow> ('k, 'v) hmap" where
  "hm_or_insert k v m = (if hm_contains m k then m else hm_insert k v m)"

definition plan_compaction :: "fsys \<Rightarrow> u64 \<Rightarrow> u64 list option" where
  "plan_compaction fs active_seg =
     (let closed_segments = sort (filter (\<lambda>tid. tid < active_seg)
            (List.map_filter seg_id_of_name (fs_read_dir fs)))
      in if closed_segments = [] then None else Some closed_segments)"

text \<open>What one record does to \<open>created_payloads\<close> and \<open>latest_records\<close>.\<close>

type_synonym replay = "(u64, bytes) hmap \<times> (u64, Record) hmap"

definition compact_step :: "replay \<Rightarrow> Record \<Rightarrow> replay" where
  "compact_step st record =
     (let created_payloads = fst st; latest_records = snd st; tid = rec_id record; payload = rec_payload record in
      case op_type record of
        Acked \<Rightarrow> (hm_remove tid created_payloads, hm_remove tid latest_records)
      | DeadLettered \<Rightarrow> (hm_remove tid created_payloads, hm_remove tid latest_records)
      | Created \<Rightarrow> (hm_insert tid payload created_payloads, hm_insert tid record latest_records)
      | Leased \<Rightarrow>
          (if length payload \<ge> 13 then hm_or_insert tid (drop 13 payload) created_payloads else created_payloads,
           hm_insert tid record latest_records)
      | Nacked \<Rightarrow>
          (if length payload \<ge> 1 then hm_or_insert tid (drop 1 payload) created_payloads else created_payloads,
           hm_insert tid record latest_records)
      | Expired \<Rightarrow>
          (if length payload \<ge> 1 then hm_or_insert tid (drop 1 payload) created_payloads else created_payloads,
           hm_insert tid record latest_records))"

text \<open>The scan of one closed segment: unlike \<open>Wal::open\<close> it skips undecodable frames.\<close>

function compact_scan :: "(bytes \<Rightarrow> u32) \<Rightarrow> bytes \<Rightarrow> nat \<Rightarrow> replay \<Rightarrow> replay" where
  "compact_scan crc file current_offset st =
     (case next_frame file current_offset of
        None \<Rightarrow> st
      | Some frame \<Rightarrow>
          compact_scan crc file (current_offset + length frame)
            (case decode crc frame of None \<Rightarrow> st | Some record \<Rightarrow> compact_step st record))"
  by pat_completeness auto
termination
  by (relation "measure (\<lambda>(crc, file, offset, st). length file - offset)") (auto simp: next_frame_decreases)

declare compact_scan.simps [simp del]

primrec compact_segments :: "(bytes \<Rightarrow> u32) \<Rightarrow> fsys \<Rightarrow> u64 list \<Rightarrow> replay \<Rightarrow> replay result" where
  "compact_segments crc fs [] st = Inr st"
| "compact_segments crc fs (seg_id # segs) st =
     (case fs_open fs (seg_name seg_id) of
        Inl e \<Rightarrow> Inl e
      | Inr f \<Rightarrow> compact_segments crc fs segs (compact_scan crc (fs_content fs f) 0 st))"

text \<open>The record that stands for a surviving task in the new segment.\<close>

definition consolidate :: "(u64, bytes) hmap \<Rightarrow> u64 \<Rightarrow> Record \<Rightarrow> Record" where
  "consolidate created_payloads tid record =
     (if op_type record = Created then record
      else case hm_get created_payloads tid of
        None \<Rightarrow> record
      | Some orig_payload \<Rightarrow>
         (case op_type record of
            Leased \<Rightarrow>
              (let prefix_len = min 13 (length (rec_payload record))
               in new_record tid (op_type record) (rec_priority record) (take prefix_len (rec_payload record) @ orig_payload))
          | Nacked \<Rightarrow>
              (let retry_byte = (case rec_payload record of [] \<Rightarrow> 0 | b # _ \<Rightarrow> b)
               in new_record tid (op_type record) (rec_priority record) (retry_byte # orig_payload))
          | Expired \<Rightarrow>
              (let retry_byte = (case rec_payload record of [] \<Rightarrow> 0 | b # _ \<Rightarrow> b)
               in new_record tid (op_type record) (rec_priority record) (retry_byte # orig_payload))
          | _ \<Rightarrow> record))"

text \<open>
  The ids in \<open>surviving_ids\<close> are keys of \<open>latest_records\<close>, so the indexing never
  fails.
\<close>

definition survivors :: "replay \<Rightarrow> (u64 \<times> Record) list" where
  "survivors st =
     map (\<lambda>tid. (tid, consolidate (fst st) tid (the (hm_get (snd st) tid)))) (sort (hm_keys (snd st)))"

fun write_survivors ::
  "(bytes \<Rightarrow> u32) \<Rightarrow> ino \<Rightarrow> (u64 \<times> Record) list \<Rightarrow> fsys \<Rightarrow> (u64, nat) hmap \<Rightarrow> nat \<Rightarrow> fsys \<times> (u64, nat) hmap" where
  "write_survivors crc temp_file [] fs new_offsets current_offset = (fs, new_offsets)"
| "write_survivors crc temp_file ((tid, record) # rest) fs new_offsets current_offset =
     (let bs = encode crc record
      in write_survivors crc temp_file rest (fs_append fs temp_file bs)
           (hm_insert tid current_offset new_offsets) (current_offset + length bs))"

text \<open>Writing the plan file.\<close>

definition write_plan :: "fsys \<Rightarrow> u64 list \<Rightarrow> fsys" where
  "write_plan fs closed_segments =
     (let (plan_file, fs) = fs_open_truncate fs plan_name
      in fs_append fs plan_file (text_bytes (plan_text closed_segments)))"

definition execute_compaction_phase1 ::
  "(bytes \<Rightarrow> u32) \<Rightarrow> fsys \<Rightarrow> u64 list \<Rightarrow> (CompactionStats \<times> (u64, nat) hmap) result \<times> fsys" where
  "execute_compaction_phase1 crc fs closed_segments =
     (case compact_segments crc fs closed_segments ([], []) of
        Inl e \<Rightarrow> (Inl e, fs)
      | Inr st \<Rightarrow>
         (let (temp_file, fs) = fs_open_truncate fs compacting_name;
              (fs, new_offsets) = write_survivors crc temp_file (survivors st) fs [] 0;
              fs = write_plan fs closed_segments
          in (Inr (\<lparr>closed_segments_compacted = length closed_segments,
                    surviving_records = length (survivors st), new_segment_id = 1\<rparr>, new_offsets), fs)))"

definition unlink_segments :: "fsys \<Rightarrow> u64 list \<Rightarrow> fsys" where
  "unlink_segments fs segs = foldl (\<lambda>fs seg_id. if seg_id > 1 then fs_remove fs (seg_name seg_id) else fs) fs segs"

definition execute_compaction_phase2 :: "fsys \<Rightarrow> u64 list \<Rightarrow> unit result \<times> fsys" where
  "execute_compaction_phase2 fs closed_segments =
     (let fs = (if fs_exists fs plan_name then fs else write_plan fs closed_segments)
      in case fs_rename fs compacting_name (seg_name 1) of
           Inl e \<Rightarrow> (Inl e, fs)
         | Inr fs \<Rightarrow> (Inr (), fs_remove (fs_remove (unlink_segments fs closed_segments) plan_name) swap_name))"

definition compact_with_offsets ::
  "(bytes \<Rightarrow> u32) \<Rightarrow> Wal \<Rightarrow> fsys \<Rightarrow> (CompactionStats \<times> (u64, nat) hmap) option result \<times> fsys" where
  "compact_with_offsets crc w fs =
     (case plan_compaction fs (active_segment_id w) of
        None \<Rightarrow> (Inr None, fs)
      | Some closed_segments \<Rightarrow>
         (case execute_compaction_phase1 crc fs closed_segments of
            (Inl e, fs) \<Rightarrow> (Inl e, fs)
          | (Inr res, fs) \<Rightarrow>
             (case execute_compaction_phase2 fs closed_segments of
                (Inl e, fs) \<Rightarrow> (Inl e, fs)
              | (Inr _, fs) \<Rightarrow> (Inr (Some res), fs))))"

definition wal_compact :: "(bytes \<Rightarrow> u32) \<Rightarrow> Wal \<Rightarrow> fsys \<Rightarrow> CompactionStats option result \<times> fsys" where
  "wal_compact crc w fs =
     (case compact_with_offsets crc w fs of
        (Inl e, fs) \<Rightarrow> (Inl e, fs)
      | (Inr res, fs) \<Rightarrow> (Inr (map_option fst res), fs))"

section \<open>Replay\<close>

definition replay :: "Record list \<Rightarrow> replay" where
  "replay rs = foldl compact_step ([], []) rs"

text \<open>Scanning a file of valid frames replays its records.\<close>

lemma compact_scan_frames:
  assumes "\<forall>r \<in> set rs. storable r"
  shows "compact_scan crc (pre @ seg_bytes crc rs) (length pre) st = foldl compact_step st rs"
  using assms
proof (induction rs arbitrary: pre st)
  case Nil
  then show ?case using next_frame_shift [of pre "[]" 0] by (subst compact_scan.simps) simp
next
  case (Cons r rs)
  have "compact_scan crc (pre @ encode crc r @ seg_bytes crc rs) (length pre) st =
      compact_scan crc (pre @ encode crc r @ seg_bytes crc rs) (length pre + length (encode crc r)) (compact_step st r)"
    using Cons.prems by (subst compact_scan.simps) (simp add: next_frame_encode_at)
  also have "\<dots> = foldl compact_step (compact_step st r) rs"
    using Cons.IH [of "pre @ encode crc r"] Cons.prems by simp
  finally show ?case by simp
qed

lemma compact_segments_replay:
  assumes "\<forall>seg \<in> set segs. seg_on_disk crc fs seg"
  shows "compact_segments crc fs (map fst segs) st = Inr (foldl compact_step st (concat (map snd segs)))"
  using assms
proof (induction segs arbitrary: st)
  case (Cons seg segs)
  then have "fs_file fs (seg_name (fst seg)) = Some (seg_bytes crc (snd seg))" "\<forall>r \<in> set (snd seg). storable r"
    by (simp_all add: seg_on_disk_def)
  then obtain f where f: "fs_open fs (seg_name (fst seg)) = Inr f" "fs_content fs f = seg_bytes crc (snd seg)"
    by (auto simp: fs_file_def fs_open_def)
  then show ?case using Cons compact_scan_frames [of "snd seg" crc "[]"] by (simp add: seg_on_disk_def)
qed simp


subsection \<open>What the maps hold\<close>

text \<open>The records the engine writes: a lease has its 13-byte prefix, a failure its retry count.\<close>

definition wf_record :: "Record \<Rightarrow> bool" where
  "wf_record r \<longleftrightarrow>
     (op_type r = Leased \<longrightarrow> 13 \<le> length (rec_payload r)) \<and>
     (op_type r \<in> {Nacked, Expired} \<longrightarrow> 1 \<le> length (rec_payload r))"

text \<open>The bookkeeping prefix of a record's payload and the user payload behind it.\<close>

definition meta_len :: "OpType \<Rightarrow> nat" where
  "meta_len op = (case op of Leased \<Rightarrow> 13 | Nacked \<Rightarrow> 1 | Expired \<Rightarrow> 1 | _ \<Rightarrow> 0)"

definition meta :: "Record \<Rightarrow> bytes" where
  "meta r = take (meta_len (op_type r)) (rec_payload r)"

definition body :: "Record \<Rightarrow> bytes" where
  "body r = drop (meta_len (op_type r)) (rec_payload r)"

lemma hm_get_or_insert [simp]:
  "hm_get (hm_or_insert k v m) k' = (if k' = k \<and> hm_get m k = None then Some v else hm_get m k')"
  by (auto simp: hm_or_insert_def hm_contains_def)

lemma hm_ok_or_insert [simp]: "hm_ok m \<Longrightarrow> hm_ok (hm_or_insert k v m)"
  by (simp add: hm_or_insert_def)

definition ends_task :: "Record \<Rightarrow> bool" where
  "ends_task r \<longleftrightarrow> op_type r \<in> {Acked, DeadLettered}"

text \<open>One step of the replay, on both maps.\<close>

lemma compact_step_latest:
  "hm_get (snd (compact_step st r)) tid =
     (if tid = rec_id r then if ends_task r then None else Some r else hm_get (snd st) tid)"
  by (cases "op_type r") (simp_all add: compact_step_def Let_def ends_task_def)

lemma compact_step_created:
  assumes "wf_record r"
  shows "hm_get (fst (compact_step st r)) tid =
     (if tid = rec_id r
      then if ends_task r then None
           else if op_type r = Created \<or> hm_get (fst st) tid = None then Some (body r) else hm_get (fst st) tid
      else hm_get (fst st) tid)"
  using assms by (cases "op_type r")
    (simp_all add: compact_step_def Let_def ends_task_def body_def meta_len_def wf_record_def Suc_le_eq)

lemma compact_step_ok: "hm_ok (snd st) \<Longrightarrow> hm_ok (snd (compact_step st r))"
  by (cases "op_type r") (simp_all add: compact_step_def Let_def)

definition replay_inv :: "replay \<Rightarrow> bool" where
  "replay_inv st \<longleftrightarrow>
     hm_ok (snd st) \<and>
     (\<forall>tid. hm_get (fst st) tid = None \<longleftrightarrow> hm_get (snd st) tid = None) \<and>
     (\<forall>tid r. hm_get (snd st) tid = Some r \<longrightarrow>
        rec_id r = tid \<and> \<not> ends_task r \<and> wf_record r \<and> (op_type r = Created \<longrightarrow> hm_get (fst st) tid = Some (body r)))"

lemma replay_invD:
  assumes "replay_inv st"
  shows "hm_ok (snd st)" "hm_get (fst st) k = None \<longleftrightarrow> hm_get (snd st) k = None"
    "hm_get (snd st) k = Some r \<Longrightarrow> rec_id r = k \<and> \<not> ends_task r \<and> wf_record r \<and>
      (op_type r = Created \<longrightarrow> hm_get (fst st) k = Some (body r))"
  using assms unfolding replay_inv_def by blast+

lemma replay_inv_step:
  assumes "replay_inv st" "wf_record r"
  shows "replay_inv (compact_step st r)"
proof -
  note d = replay_invD [OF assms(1)]
  have "(hm_get (fst (compact_step st r)) k = None) = (hm_get (snd (compact_step st r)) k = None)" for k
    using d(2) [of k] by (simp add: compact_step_created [OF assms(2)] compact_step_latest)
  moreover have "rec_id x = k \<and> \<not> ends_task x \<and> wf_record x \<and>
      (op_type x = Created \<longrightarrow> hm_get (fst (compact_step st r)) k = Some (body x))"
    if "hm_get (snd (compact_step st r)) k = Some x" for k x
    using that d(3) [of k x] assms(2)
    by (auto simp: compact_step_created [OF assms(2)] compact_step_latest split: if_splits)
  ultimately show ?thesis using compact_step_ok [OF d(1)] unfolding replay_inv_def by blast
qed

lemma replay_inv_foldl: "replay_inv st \<Longrightarrow> \<forall>r \<in> set rs. wf_record r \<Longrightarrow> replay_inv (foldl compact_step st rs)"
  by (induction rs arbitrary: st) (auto simp: replay_inv_step)

lemma replay_inv_replay: "\<forall>r \<in> set rs. wf_record r \<Longrightarrow> replay_inv (replay rs)"
  unfolding replay_def by (intro replay_inv_foldl) (auto simp: replay_inv_def)

subsection \<open>What a replay means\<close>

text \<open>
  What a log says about a task: the kind and priority of its latest record, the bookkeeping
  prefix and the user payload; nothing for a task that was never created or is finished.
\<close>

definition task_view :: "replay \<Rightarrow> u64 \<Rightarrow> (OpType \<times> u8 \<times> bytes \<times> bytes option) option" where
  "task_view st tid =
     map_option (\<lambda>r. (op_type r, rec_priority r, meta r, hm_get (fst st) tid)) (hm_get (snd st) tid)"

definition same_tasks :: "replay \<Rightarrow> replay \<Rightarrow> bool" where
  "same_tasks st st' \<longleftrightarrow>
     (\<forall>tid. hm_get (fst st) tid = hm_get (fst st') tid \<and> task_view st tid = task_view st' tid)"

lemma same_tasks_step:
  assumes "same_tasks st st'" "wf_record r"
  shows "same_tasks (compact_step st r) (compact_step st' r)"
proof -
  have "hm_get (fst st) tid = hm_get (fst st') tid" "task_view st tid = task_view st' tid" for tid
    using assms(1) by (simp_all add: same_tasks_def)
  then show ?thesis unfolding same_tasks_def task_view_def
    by (simp add: compact_step_latest compact_step_created [OF assms(2)])
qed

lemma same_tasks_foldl:
  "same_tasks st st' \<Longrightarrow> \<forall>r \<in> set rs. wf_record r \<Longrightarrow>
   same_tasks (foldl compact_step st rs) (foldl compact_step st' rs)"
  by (induction rs arbitrary: st st') (auto simp: same_tasks_step)

text \<open>Replaying records of distinct live tasks.\<close>

lemma foldl_distinct_tasks:
  assumes "distinct (map rec_id rs)" "\<forall>r \<in> set rs. wf_record r \<and> \<not> ends_task r"
    and "\<forall>r \<in> set rs. hm_get (fst st) (rec_id r) = None"
  shows "hm_get (fst (foldl compact_step st rs)) tid =
      (case map_of (map (\<lambda>r. (rec_id r, r)) rs) tid of Some r \<Rightarrow> Some (body r) | None \<Rightarrow> hm_get (fst st) tid) \<and>
    hm_get (snd (foldl compact_step st rs)) tid =
      (case map_of (map (\<lambda>r. (rec_id r, r)) rs) tid of Some r \<Rightarrow> Some r | None \<Rightarrow> hm_get (snd st) tid)"
  using assms
proof (induction rs arbitrary: st)
  case (Cons r rs)
  have none: "map_of (map (\<lambda>r. (rec_id r, r)) rs) (rec_id r) = None"
    using Cons.prems(1) by (force simp: map_of_eq_None_iff)
  have "\<forall>x \<in> set rs. hm_get (fst (compact_step st r)) (rec_id x) = None"
    using Cons.prems by (auto simp: compact_step_created) (metis imageI)
  then show ?case using Cons.IH [of "compact_step st r"] Cons.prems none
    by (auto simp: compact_step_created compact_step_latest split: option.split)
qed simp

text \<open>The consolidated record keeps everything a task's view consists of.\<close>

lemma consolidate_same:
  assumes "replay_inv st" "hm_get (snd st) tid = Some r"
  shows "rec_id (consolidate (fst st) tid r) = tid" "op_type (consolidate (fst st) tid r) = op_type r"
    "rec_priority (consolidate (fst st) tid r) = rec_priority r" "meta (consolidate (fst st) tid r) = meta r"
    "Some (body (consolidate (fst st) tid r)) = hm_get (fst st) tid"
    "wf_record (consolidate (fst st) tid r)" "\<not> ends_task (consolidate (fst st) tid r)"
proof -
  have r: "rec_id r = tid" "\<not> ends_task r" "wf_record r" "op_type r = Created \<longrightarrow> hm_get (fst st) tid = Some (body r)"
    using assms unfolding replay_inv_def by blast+
  obtain p where p: "hm_get (fst st) tid = Some p"
    using assms unfolding replay_inv_def by fastforce
  have wf: "1 \<le> length (rec_payload r) \<longleftrightarrow> rec_payload r \<noteq> []" by (cases "rec_payload r") auto
  show "rec_id (consolidate (fst st) tid r) = tid" "op_type (consolidate (fst st) tid r) = op_type r"
    "rec_priority (consolidate (fst st) tid r) = rec_priority r" "\<not> ends_task (consolidate (fst st) tid r)"
    using r p by (cases "op_type r"; simp add: consolidate_def ends_task_def new_record_def)+
  show "meta (consolidate (fst st) tid r) = meta r" "Some (body (consolidate (fst st) tid r)) = hm_get (fst st) tid"
    "wf_record (consolidate (fst st) tid r)"
    using r p by (cases "op_type r"; cases "rec_payload r";
        simp add: consolidate_def ends_task_def new_record_def meta_def body_def meta_len_def wf_record_def)+
qed

lemma survivors_ids: "map fst (survivors st) = sort (hm_keys (snd st))"
  by (simp add: survivors_def comp_def)

lemma survivors_records:
  assumes "replay_inv st"
  shows "map rec_id (map snd (survivors st)) = sort (hm_keys (snd st))"
proof -
  have "rec_id (consolidate (fst st) tid (the (hm_get (snd st) tid))) = tid" if "tid \<in> set (hm_keys (snd st))" for tid
    using that consolidate_same(1) [OF assms] by (force simp: hm_contains_keys [symmetric] hm_contains_def)
  then have "map (\<lambda>tid. rec_id (consolidate (fst st) tid (the (hm_get (snd st) tid)))) (sort (hm_keys (snd st))) =
      sort (hm_keys (snd st))"
    by (intro map_idI) simp
  then show ?thesis by (simp add: survivors_def comp_def)
qed

lemma survivors_map_of:
  assumes "replay_inv st"
  shows "map_of (map (\<lambda>r. (rec_id r, r)) (map snd (survivors st))) tid =
    map_option (consolidate (fst st) tid) (hm_get (snd st) tid)"
proof -
  let ?rec = "\<lambda>tid. consolidate (fst st) tid (the (hm_get (snd st) tid))"
  have "map (\<lambda>r. (rec_id r, r)) (map snd (survivors st)) = zip (map rec_id (map snd (survivors st))) (map snd (survivors st))"
    by (simp add: zip_map_map zip_same_conv_map)
  also have "\<dots> = map (\<lambda>tid. (tid, ?rec tid)) (sort (hm_keys (snd st)))"
    unfolding survivors_records [OF assms] by (simp add: survivors_def zip_map2 zip_same_conv_map)
  finally show ?thesis
    by (cases "hm_get (snd st) tid") (auto simp: map_of_map_restrict restrict_map_def hm_contains_keys [symmetric] hm_contains_def)
qed

lemma survivors_live:
  assumes "replay_inv st" "r \<in> set (map snd (survivors st))"
  shows "wf_record r" "\<not> ends_task r"
  using assms consolidate_same(6,7) [OF assms(1)]
  by (auto simp: survivors_def hm_contains_keys [symmetric] hm_contains_def)

lemma replay_survivors:
  assumes "replay_inv st"
  shows "same_tasks (replay (map snd (survivors st))) st"
proof -
  have "distinct (map rec_id (map snd (survivors st)))"
    using assms by (simp only: survivors_records distinct_sort) (simp add: replay_inv_def hm_ok_def hm_keys_def)
  then have *: "hm_get (fst (replay (map snd (survivors st)))) tid =
      (case map_option (consolidate (fst st) tid) (hm_get (snd st) tid) of Some r \<Rightarrow> Some (body r) | None \<Rightarrow> None)"
    "hm_get (snd (replay (map snd (survivors st)))) tid = map_option (consolidate (fst st) tid) (hm_get (snd st) tid)" for tid
    using foldl_distinct_tasks [of "map snd (survivors st)" "([], [])" tid] survivors_live [OF assms]
    unfolding survivors_map_of [OF assms] replay_def by (auto split: option.splits)
  show ?thesis unfolding same_tasks_def
  proof
    fix tid
    show "hm_get (fst (replay (map snd (survivors st)))) tid = hm_get (fst st) tid \<and>
        task_view (replay (map snd (survivors st))) tid = task_view st tid"
    proof (cases "hm_get (snd st) tid")
      case None
      moreover have "hm_get (fst st) tid = None" using None assms unfolding replay_inv_def by blast
      ultimately show ?thesis using * by (simp add: task_view_def)
    next
      case (Some r)
      then show ?thesis using * consolidate_same [OF assms Some] by (simp add: task_view_def)
    qed
  qed
qed

section \<open>Files after a compaction\<close>

lemma fs_open_truncate_spec:
  assumes "fs_ok fs" "fs_open_truncate fs n = (i, fs')"
  shows "fs_ok fs'" "hm_get (fs_dir fs') n = Some i" "fs_file fs' m = (if m = n then Some [] else fs_file fs m)"
    "m \<noteq> n \<Longrightarrow> hm_get (fs_dir fs') m = hm_get (fs_dir fs) m"
proof -
  obtain fs1 where o: "fs_open_append fs n = (i, fs1)" "fs' = fs_put fs1 i []"
    using assms(2) by (auto simp: fs_open_truncate_def split: prod.splits)
  show ok: "fs_ok fs'" and name: "hm_get (fs_dir fs') n = Some i"
    using fs_ok_open_append [OF assms(1) o(1)] fs_open_append_name [OF o(1)] o(2) by simp_all
  show "fs_file fs' m = (if m = n then Some [] else fs_file fs m)"
    using fs_file_put [OF fs_ok_open_append [OF assms(1) o(1)] fs_open_append_name [OF o(1)]]
      fs_open_append_file [OF assms(1) o(1), of m] o(2) by simp
  show "m \<noteq> n \<Longrightarrow> hm_get (fs_dir fs') m = hm_get (fs_dir fs) m"
    using o by (auto simp: fs_open_append_def split: option.splits)
qed

lemma fs_file_append:
  assumes "fs_ok fs" "hm_get (fs_dir fs) n = Some i" "fs_file fs n = Some a"
  shows "fs_file (fs_append fs i b) m = (if m = n then Some (a @ b) else fs_file fs m)"
  using fs_file_put [OF assms(1,2)] assms(2,3) by (simp add: fs_append_def fs_file_def)

lemma fs_rename_spec:
  assumes "fs_ok fs" "fs_file fs a = Some bs" "a \<noteq> b"
  shows "\<exists>fs'. fs_rename fs a b = Inr fs' \<and> fs_ok fs' \<and>
    (\<forall>m. fs_file fs' m = (if m = b then Some bs else if m = a then None else fs_file fs m)) \<and>
    (\<forall>m. m \<noteq> a \<longrightarrow> m \<noteq> b \<longrightarrow> hm_get (fs_dir fs') m = hm_get (fs_dir fs) m)"
proof -
  obtain i where i: "hm_get (fs_dir fs) a = Some i" "fs_content fs i = bs"
    using assms(2) by (auto simp: fs_file_def)
  define fs' where "fs' = fs\<lparr>fs_dir := hm_insert b i (hm_remove a (fs_dir fs))\<rparr>"
  have "fs_content fs' j = fs_content fs j" for j by (simp add: fs'_def fs_content_def)
  then have "fs_file fs' m = (if m = b then Some bs else if m = a then None else fs_file fs m)" for m
    using i assms(3) by (cases "hm_get (fs_dir fs) m") (simp_all add: fs'_def fs_file_def)
  moreover have "fs_ok fs'"
    using assms(1) i(1) unfolding fs_ok_def fs'_def by (auto split: if_splits)
  ultimately show ?thesis using i(1) by (auto simp: fs_rename_def fs'_def)
qed

lemma unlink_segments_spec:
  shows "fs_file (unlink_segments fs segs) n = (if n \<in> seg_name ` {s \<in> set segs. s > 1} then None else fs_file fs n)"
    and "n \<notin> seg_name ` {s \<in> set segs. s > 1} \<Longrightarrow>
      hm_get (fs_dir (unlink_segments fs segs)) n = hm_get (fs_dir fs) n"
    and "fs_ok fs \<Longrightarrow> fs_ok (unlink_segments fs segs)"
proof -
  have "fs_file (unlink_segments fs segs) n = (if n \<in> seg_name ` {s \<in> set segs. s > 1} then None else fs_file fs n) \<and>
    (n \<notin> seg_name ` {s \<in> set segs. s > 1} \<longrightarrow> hm_get (fs_dir (unlink_segments fs segs)) n = hm_get (fs_dir fs) n) \<and>
    (fs_ok fs \<longrightarrow> fs_ok (unlink_segments fs segs))"
    by (induction segs arbitrary: fs) (auto simp: unlink_segments_def)
  then show "fs_file (unlink_segments fs segs) n = (if n \<in> seg_name ` {s \<in> set segs. s > 1} then None else fs_file fs n)"
    and "n \<notin> seg_name ` {s \<in> set segs. s > 1} \<Longrightarrow>
      hm_get (fs_dir (unlink_segments fs segs)) n = hm_get (fs_dir fs) n"
    and "fs_ok fs \<Longrightarrow> fs_ok (unlink_segments fs segs)" by blast+
qed

text \<open>Where the survivors end up in the new file.\<close>

lemma write_survivors_spec:
  assumes "fs_ok fs" "hm_get (fs_dir fs) n = Some f" "fs_file fs n = Some a"
    and "write_survivors crc f surv fs offs off = (fs', offs')"
  shows "fs_ok fs' \<and> fs_dir fs' = fs_dir fs \<and>
    fs_file fs' m = (if m = n then Some (a @ seg_bytes crc (map snd surv)) else fs_file fs m)"
  using assms
proof (induction surv arbitrary: fs a offs off)
  case (Cons x surv)
  obtain k r where x: "x = (k, r)" by fastforce
  let ?fs = "fs_append fs f (encode crc r)"
  have app: "fs_file ?fs m = (if m = n then Some (a @ encode crc r) else fs_file fs m)" for m
    by (rule fs_file_append [OF Cons.prems(1-3)])
  have "write_survivors crc f surv ?fs (hm_insert k off offs) (off + frame_len r) = (fs', offs')"
    using Cons.prems(4) by (simp add: x Let_def)
  then have "fs_ok fs' \<and> fs_dir fs' = fs_dir ?fs \<and>
    fs_file fs' m = (if m = n then Some ((a @ encode crc r) @ seg_bytes crc (map snd surv)) else fs_file ?fs m)"
    using Cons.prems(1,2) app by (intro Cons.IH) simp_all
  then show ?case by (simp add: x app)
qed simp

lemma write_survivors_offsets:
  assumes "write_survivors crc f surv fs offs off = (fs', offs')" "distinct (map fst surv)"
  shows "hm_get offs' k =
    (case map_of (zip (map fst surv) (map fst (layout off (map snd surv)))) k of
       Some x \<Rightarrow> Some x | None \<Rightarrow> hm_get offs k)"
  using assms
proof (induction surv arbitrary: fs offs off)
  case (Cons x surv)
  obtain i r where x: "x = (i, r)" by fastforce
  have "map_of (zip (map fst surv) (map fst (layout (off + frame_len r) (map snd surv)))) i = None"
    using Cons.prems(2) by (force simp: x map_of_eq_None_iff dest: set_zip_leftD)
  then show ?case
    using Cons.IH [of "fs_append fs f (encode crc r)" "hm_insert i off offs" "off + frame_len r"] Cons.prems
    by (auto simp: x Let_def split: option.splits)
qed simp

lemma write_plan_spec:
  assumes "fs_ok fs"
  shows "fs_ok (write_plan fs ids)"
    "fs_file (write_plan fs ids) m = (if m = plan_name then Some (text_bytes (plan_text ids)) else fs_file fs m)"
    "m \<noteq> plan_name \<Longrightarrow> hm_get (fs_dir (write_plan fs ids)) m = hm_get (fs_dir fs) m"
proof -
  obtain i fs1 where o: "fs_open_truncate fs plan_name = (i, fs1)" by fastforce
  note s = fs_open_truncate_spec [OF assms o]
  show "fs_ok (write_plan fs ids)" using s(1) o by (simp add: write_plan_def)
  show "fs_file (write_plan fs ids) m = (if m = plan_name then Some (text_bytes (plan_text ids)) else fs_file fs m)"
    using fs_file_append [OF s(1,2), of "[]" "text_bytes (plan_text ids)" m] s(3) o by (simp add: write_plan_def)
  show "m \<noteq> plan_name \<Longrightarrow> hm_get (fs_dir (write_plan fs ids)) m = hm_get (fs_dir fs) m"
    using s(4) o by (simp add: write_plan_def)
qed

lemma sorted_seg_ids_eq:
  assumes "sorted_wrt (<) (ids :: u64 list)" "distinct xs" "set xs = set ids"
  shows "sort xs = ids"
  using assms by (metis distinct_sort set_sort sorted_distinct_set_unique sorted_sort strict_sorted_iff)

lemma plan_compaction_closed:
  assumes "wal_repr crc w fs (closed @ [(active, rs)])"
  shows "plan_compaction fs (active_segment_id w) = (if closed = [] then None else Some (map fst closed))"
proof -
  note d = wal_reprD [OF assms]
  have act: "active_segment_id w = active" using d(6) by simp
  have "filter (\<lambda>n. \<not> is_temporary n) (fs_read_dir fs) = fs_read_dir fs"
    using d(4) by (simp add: dir_clean_def filter_id_conv)
  then have ids: "List.map_filter seg_id_of_name (fs_read_dir fs) = segment_ids fs"
    by (simp add: segment_ids_def)
  have ex: "\<forall>s \<in> set (map fst (closed @ [(active, rs)])). fs_exists fs (seg_name s)"
    using d(5) seg_on_disk_exists by fastforce
  note seg_ids = segment_ids_clean [OF d(1,4) ex]
  have less: "\<forall>s \<in> set (map fst closed). s < active" using d(3) by (simp add: sorted_wrt_append)
  then have "sort (filter (\<lambda>i. i < active) (segment_ids fs)) = map fst closed"
    using d(3) seg_ids by (intro sorted_seg_ids_eq) (auto simp: sorted_wrt_append)
  then show ?thesis unfolding plan_compaction_def act ids by (simp add: Let_def)
qed

section \<open>The two phases\<close>

text \<open>The records of the compacted segment.\<close>

definition compacted :: "(u64 \<times> Record list) list \<Rightarrow> Record list" where
  "compacted closed = map snd (survivors (replay (concat (map snd closed))))"

text \<open>
  Phase 1 only adds the temporary file and the plan: every other name keeps its file.
\<close>

lemma phase1_spec:
  assumes "fs_ok fs" "\<forall>seg \<in> set closed. seg_on_disk crc fs seg" "\<forall>r \<in> set (concat (map snd closed)). wf_record r"
  shows "\<exists>stats offs fs1. execute_compaction_phase1 crc fs (map fst closed) = (Inr (stats, offs), fs1) \<and> fs_ok fs1 \<and>
    (\<forall>m. fs_file fs1 m =
       (if m = compacting_name then Some (seg_bytes crc (compacted closed))
        else if m = plan_name then Some (text_bytes (plan_text (map fst closed))) else fs_file fs m)) \<and>
    (\<forall>m. m \<noteq> compacting_name \<longrightarrow> m \<noteq> plan_name \<longrightarrow> hm_get (fs_dir fs1) m = hm_get (fs_dir fs) m) \<and>
    (\<forall>k. hm_get offs k = map_of (zip (map rec_id (compacted closed)) (map fst (layout 0 (compacted closed)))) k)"
proof -
  let ?st = "replay (concat (map snd closed))"
  have inv: "replay_inv ?st" using assms(3) by (intro replay_inv_replay) simp
  have scan: "compact_segments crc fs (map fst closed) ([], []) = Inr ?st"
    using compact_segments_replay [OF assms(2)] by (simp add: replay_def)
  obtain f fs0 where o: "fs_open_truncate fs compacting_name = (f, fs0)" by fastforce
  note s0 = fs_open_truncate_spec [OF assms(1) o]
  obtain fs' offs where w: "write_survivors crc f (survivors ?st) fs0 [] 0 = (fs', offs)" by fastforce
  have s1: "fs_ok fs'" "fs_dir fs' = fs_dir fs0"
      "fs_file fs' m = (if m = compacting_name then Some (seg_bytes crc (compacted closed)) else fs_file fs m)" for m
    using write_survivors_spec [OF s0(1,2) _ w, of "[]"] s0(3) by (simp_all add: compacted_def)
  note s2 = write_plan_spec [OF s1(1)]
  have ids: "map fst (survivors ?st) = map rec_id (compacted closed)"
    using survivors_ids survivors_records [OF inv] by (simp add: compacted_def)
  have "distinct (map fst (survivors ?st))"
    using replay_invD(1) [OF inv] by (simp add: survivors_ids hm_ok_def hm_keys_def)
  then have "hm_get offs k = map_of (zip (map rec_id (compacted closed)) (map fst (layout 0 (compacted closed)))) k" for k
    using write_survivors_offsets [OF w, of k] by (simp add: ids compacted_def split: option.splits)
  moreover have "execute_compaction_phase1 crc fs (map fst closed) =
      (Inr (\<lparr>closed_segments_compacted = length (map fst closed), surviving_records = length (survivors ?st),
        new_segment_id = 1\<rparr>, offs), write_plan fs' (map fst closed))"
    by (simp add: execute_compaction_phase1_def scan o w)
  ultimately show ?thesis using s0(4) s1 s2 by auto
qed

text \<open>Phase 2 replaces segment 1 and removes the other closed segments and the plan.\<close>

lemma phase2_spec:
  assumes "fs_ok fs1" "fs_file fs1 compacting_name = Some bs" "fs_file fs1 plan_name \<noteq> None"
  shows "\<exists>fs2. execute_compaction_phase2 fs1 ids = (Inr (), fs2) \<and> fs_ok fs2 \<and>
    (\<forall>m. fs_file fs2 m =
       (if m \<in> {compacting_name, plan_name, swap_name} \<union> seg_name ` {s \<in> set ids. s > 1} then None
        else if m = seg_name 1 then Some bs else fs_file fs1 m)) \<and>
    (\<forall>m. m \<notin> {compacting_name, plan_name, swap_name, seg_name 1} \<union> seg_name ` {s \<in> set ids. s > 1} \<longrightarrow>
       hm_get (fs_dir fs2) m = hm_get (fs_dir fs1) m)"
proof -
  have ex: "fs_exists fs1 plan_name" using assms(3) by (simp add: fs_file_def fs_exists_def hm_contains_def)
  obtain fs' where r: "fs_rename fs1 compacting_name (seg_name 1) = Inr fs'" "fs_ok fs'"
      "\<forall>m. fs_file fs' m = (if m = seg_name 1 then Some bs else if m = compacting_name then None else fs_file fs1 m)"
      "\<forall>m. m \<noteq> compacting_name \<longrightarrow> m \<noteq> seg_name 1 \<longrightarrow> hm_get (fs_dir fs') m = hm_get (fs_dir fs1) m"
    using fs_rename_spec [OF assms(1,2), of "seg_name 1"] by auto
  let ?fs2 = "fs_remove (fs_remove (unlink_segments fs' ids) plan_name) swap_name"
  have "execute_compaction_phase2 fs1 ids = (Inr (), ?fs2)"
    by (simp add: execute_compaction_phase2_def ex r(1))
  moreover have "fs_ok ?fs2" using unlink_segments_spec(3) [OF r(2)] by (intro fs_ok_remove)
  moreover have "fs_file ?fs2 m =
       (if m \<in> {compacting_name, plan_name, swap_name} \<union> seg_name ` {s \<in> set ids. s > 1} then None
        else if m = seg_name 1 then Some bs else fs_file fs1 m)" for m
    using r(3) by (auto simp: unlink_segments_spec(1))
  moreover have "hm_get (fs_dir ?fs2) m = hm_get (fs_dir fs1) m"
    if "m \<notin> {compacting_name, plan_name, swap_name, seg_name 1} \<union> seg_name ` {s \<in> set ids. s > 1}" for m
    using that r(4) by (simp add: unlink_segments_spec(2))
  ultimately show ?thesis by blast
qed

text \<open>
  The whole compaction. Every record is well-formed and the consolidated records fit into
  frames (a lease adds 13 bytes to the user's payload).
\<close>

lemma dir_cleanI:
  assumes "\<And>n. fs_file fs' n \<noteq> None \<Longrightarrow> (\<exists>s \<in> set ids'. n = seg_name s) \<or> (fs_file fs n \<noteq> None \<and> (\<forall>s \<in> set ids. n \<noteq> seg_name s))"
    and "dir_clean fs ids"
  shows "dir_clean fs' ids'"
  unfolding dir_clean_def
proof (intro ballI)
  fix n assume "n \<in> set (fs_read_dir fs')"
  then have "fs_file fs' n \<noteq> None" using fs_file_Some_iff by fastforce
  then consider s where "s \<in> set ids'" "n = seg_name s" | "fs_file fs n \<noteq> None" "\<forall>s \<in> set ids. n \<noteq> seg_name s"
    using assms(1) by blast
  then show "\<not> is_temporary n \<and> n \<noteq> plan_name \<and> n \<noteq> swap_name \<and>
      (\<forall>s. seg_id_of_name n = Some s \<longrightarrow> n = seg_name s \<and> s \<in> set ids')"
  proof cases
    case 1
    then show ?thesis by (simp add: is_temporary_def)
  next
    case 2
    then have "n \<in> set (fs_read_dir fs)" using fs_file_Some_iff by blast
    then show ?thesis using assms(2) 2(2) unfolding dir_clean_def by blast
  qed
qed

lemma u64_gt_one: "(s :: u64) \<noteq> 0 \<Longrightarrow> s \<noteq> 1 \<Longrightarrow> 1 < s"
  by (metis linorder_neqE word_less_1)

lemma wal_repr_active:
  assumes "wal_repr crc w fs (closed @ [(active, rs)])"
  shows "active_segment_id w = active" "\<And>s. s \<in> fst ` set closed \<Longrightarrow> s < active \<and> (s = 1 \<or> 1 < s)"
    "(active, b) \<notin> set closed" "closed \<noteq> [] \<Longrightarrow> 1 < active"
proof -
  note d = wal_reprD [OF assms]
  show "active_segment_id w = active" using d(6) by simp
  show s: "s < active \<and> (s = 1 \<or> 1 < s)" if "s \<in> fst ` set closed" for s
  proof -
    have "s \<noteq> 0" using that d(9) by force
    then show ?thesis using u64_gt_one [of s] that d(3) by (auto simp: sorted_wrt_append)
  qed
  show "(active, b) \<notin> set closed" using s [of active] by force
  show "1 < active" if "closed \<noteq> []" using that s [of "fst (hd closed)"] by (cases closed) auto
qed

lemma disk_holds_compacted:
  assumes "wal_repr crc w fs (closed @ [(active, rs)])" "closed \<noteq> []" "\<forall>r \<in> set (compacted closed). storable r"
    and "fs_ok fs2" "\<And>m. fs_file fs2 m =
       (if m \<in> {compacting_name, plan_name, swap_name} \<union> seg_name ` {s \<in> fst ` set closed. s > 1} then None
        else if m = seg_name 1 then Some (seg_bytes crc (compacted closed)) else fs_file fs m)"
  shows "disk_holds crc fs2 [(1, compacted closed), (active, rs)] []"
proof -
  note d = wal_reprD [OF assms(1)]
  note act = wal_repr_active [OF assms(1)]
  have gt: "1 < active" by (rule act(4) [OF assms(2)])
  have "seg_name active \<notin> {compacting_name, plan_name, swap_name} \<union> seg_name ` {s \<in> fst ` set closed. s > 1}"
    using act(3) by auto
  moreover have "seg_name active \<noteq> seg_name 1" using gt by simp
  ultimately have "fs_file fs2 (seg_name active) = fs_file fs (seg_name active)"
    unfolding assms(5) [of "seg_name active"] by (simp only: if_False)
  then have disk2: "seg_on_disk crc fs2 (active, rs)" using d(5) by (simp add: seg_on_disk_def)
  have "seg_name 1 \<notin> {compacting_name, plan_name, swap_name} \<union> seg_name ` {s \<in> fst ` set closed. s > 1}" by auto
  then have "fs_file fs2 (seg_name 1) = Some (seg_bytes crc (compacted closed))"
    unfolding assms(5) [of "seg_name 1"] by (simp only: if_False if_True refl)
  then have disk1: "seg_on_disk crc fs2 (1, compacted closed)" using assms(3) by (simp add: seg_on_disk_def)
  have clean: "dir_clean fs2 (map fst [(1, compacted closed), (active, rs)])"
  proof (rule dir_cleanI [OF _ d(4)])
    fix n assume n: "fs_file fs2 n \<noteq> None"
    show "(\<exists>s \<in> set (map fst [(1, compacted closed), (active, rs)]). n = seg_name s) \<or>
        (fs_file fs n \<noteq> None \<and> (\<forall>s \<in> set (map fst (closed @ [(active, rs)])). n \<noteq> seg_name s))"
    proof (cases "n = seg_name 1 \<or> n = seg_name active")
      case False
      then have "n \<notin> seg_name ` {s \<in> fst ` set closed. s > 1}" "fs_file fs n \<noteq> None"
        using n unfolding assms(5) by (simp_all split: if_splits)
      moreover have "n \<noteq> seg_name s" if "s \<in> fst ` set closed" for s
        using that calculation(1) False act(2) [OF that] by auto
      ultimately show ?thesis using False by simp
    qed auto
  qed
  have "active \<noteq> 0" using d(9) by simp
  then show ?thesis
    unfolding disk_holds_def using assms(4) clean disk1 disk2 gt by (simp add: seg_on_disk_def)
qed

lemma disk_holds_wal_repr:
  assumes "disk_holds crc fs segs []" "fst (last segs) = active_segment_id w"
    and "hm_get (fs_dir fs) (seg_name (active_segment_id w)) = Some (active_file w)"
    and "current_size w = length (seg_bytes crc (snd (last segs)))"
  shows "wal_repr crc w fs segs"
proof -
  have "seg_on_disk crc fs seg" if "seg \<in> set segs" for seg
    using that assms(1) unfolding disk_holds_def
    by (cases segs rule: rev_cases) (auto simp: seg_on_disk_def)
  then show ?thesis using assms unfolding disk_holds_def wal_repr_def by simp
qed

lemma compact_ok:
  assumes "wal_repr crc w fs (closed @ [(active, rs)])" "closed \<noteq> []"
    and "\<forall>r \<in> set (concat (map snd closed)). wf_record r" "\<forall>r \<in> set (compacted closed). storable r"
  shows "\<exists>stats offs fs2. compact_with_offsets crc w fs = (Inr (Some (stats, offs)), fs2) \<and>
    wal_repr crc w fs2 [(1, compacted closed), (active, rs)] \<and>
    (\<forall>k. hm_get offs k = map_of (zip (map rec_id (compacted closed)) (map fst (layout 0 (compacted closed)))) k)"
proof -
  note d = wal_reprD [OF assms(1)]
  note act = wal_repr_active [OF assms(1)]
  have disk: "\<forall>seg \<in> set closed. seg_on_disk crc fs seg" using d(5) by simp
  note plan = plan_compaction_closed [OF assms(1)]
  obtain stats offs fs1 where p1: "execute_compaction_phase1 crc fs (map fst closed) = (Inr (stats, offs), fs1)" "fs_ok fs1"
    "\<forall>m. fs_file fs1 m = (if m = compacting_name then Some (seg_bytes crc (compacted closed))
        else if m = plan_name then Some (text_bytes (plan_text (map fst closed))) else fs_file fs m)"
    "\<forall>m. m \<noteq> compacting_name \<longrightarrow> m \<noteq> plan_name \<longrightarrow> hm_get (fs_dir fs1) m = hm_get (fs_dir fs) m"
    "\<forall>k. hm_get offs k = map_of (zip (map rec_id (compacted closed)) (map fst (layout 0 (compacted closed)))) k"
    using phase1_spec [OF d(1) disk assms(3)] by blast
  have c: "fs_file fs1 compacting_name = Some (seg_bytes crc (compacted closed))" "fs_file fs1 plan_name \<noteq> None"
    using p1(3) by simp_all
  obtain fs2 where p2: "execute_compaction_phase2 fs1 (map fst closed) = (Inr (), fs2)" "fs_ok fs2"
    "\<forall>m. fs_file fs2 m =
       (if m \<in> {compacting_name, plan_name, swap_name} \<union> seg_name ` {s \<in> set (map fst closed). s > 1} then None
        else if m = seg_name 1 then Some (seg_bytes crc (compacted closed)) else fs_file fs1 m)"
    "\<forall>m. m \<notin> {compacting_name, plan_name, swap_name, seg_name 1} \<union> seg_name ` {s \<in> set (map fst closed). s > 1} \<longrightarrow>
       hm_get (fs_dir fs2) m = hm_get (fs_dir fs1) m"
    using phase2_spec [OF p1(2) c, of "map fst closed"] by auto
  have "wal_repr crc w fs2 [(1, compacted closed), (active, rs)]"
  proof (rule disk_holds_wal_repr [OF disk_holds_compacted [OF assms(1,2,4) p2(2)]])
    show "hm_get (fs_dir fs2) (seg_name (active_segment_id w)) = Some (active_file w)"
    proof -
      have "seg_name active \<notin> {compacting_name, plan_name, swap_name, seg_name 1} \<union> seg_name ` {s \<in> set (map fst closed). s > 1}"
        using act(3) act(4) [OF assms(2)] by auto
      then have "hm_get (fs_dir fs2) (seg_name active) = hm_get (fs_dir fs1) (seg_name active)" using p2(4) by blast
      then show ?thesis using p1(4) d(7) act(1) by simp
    qed
    show "fst (last [(1, compacted closed), (active, rs)]) = active_segment_id w"
      "current_size w = length (seg_bytes crc (snd (last [(1, compacted closed), (active, rs)])))"
      using act(1) d(8) by simp_all
    fix m
    show "fs_file fs2 m =
       (if m \<in> {compacting_name, plan_name, swap_name} \<union> seg_name ` {s \<in> fst ` set closed. s > 1} then None
        else if m = seg_name 1 then Some (seg_bytes crc (compacted closed)) else fs_file fs m)"
      using p2(3) p1(3) by auto
  qed
  moreover have "compact_with_offsets crc w fs = (Inr (Some (stats, offs)), fs2)"
    using plan assms(2) by (simp add: compact_with_offsets_def p1(1) p2(1))
  ultimately show ?thesis using p1(5) by blast
qed

section \<open>Crashes\<close>

text \<open>
  The directory after every prefix of the system calls of the two phases; a write may be cut
  anywhere.
\<close>

definition torn_writes :: "fsys \<Rightarrow> ino \<Rightarrow> bytes \<Rightarrow> fsys list" where
  "torn_writes fs f bs = map (\<lambda>k. fs_append fs f (take k bs)) [0..<Suc (length bs)]"

definition plan_trace :: "fsys \<Rightarrow> u64 list \<Rightarrow> fsys list" where
  "plan_trace fs closed_segments =
     (let (plan_file, fs) = fs_open_truncate fs plan_name
      in torn_writes fs plan_file (text_bytes (plan_text closed_segments)))"

definition phase1_trace :: "(bytes \<Rightarrow> u32) \<Rightarrow> fsys \<Rightarrow> u64 list \<Rightarrow> fsys list" where
  "phase1_trace crc fs closed_segments =
     fs # (case compact_segments crc fs closed_segments ([], []) of
        Inl e \<Rightarrow> []
      | Inr st \<Rightarrow>
         (let (temp_file, fs) = fs_open_truncate fs compacting_name;
              temps = torn_writes fs temp_file (concat (map (encode crc \<circ> snd) (survivors st)))
          in temps @ plan_trace (last temps) closed_segments))"

definition phase2_trace :: "fsys \<Rightarrow> u64 list \<Rightarrow> fsys list" where
  "phase2_trace fs closed_segments =
     (let plans = (if fs_exists fs plan_name then [fs] else fs # plan_trace fs closed_segments)
      in plans @ (case fs_rename (last plans) compacting_name (seg_name 1) of
           Inl e \<Rightarrow> []
         | Inr fs \<Rightarrow>
            (let unlinked = map (\<lambda>k. unlink_segments fs (take k closed_segments)) [0..<Suc (length closed_segments)];
                 no_plan = fs_remove (last unlinked) plan_name
             in unlinked @ [no_plan, fs_remove no_plan swap_name])))"

text \<open>The traces end where the phases end.\<close>

lemma last_torn_writes: "last (torn_writes fs f bs) = fs_append fs f bs"
  by (simp add: torn_writes_def)

lemma last_plan_trace: "last (plan_trace fs ids) = write_plan fs ids"
  by (simp add: plan_trace_def write_plan_def last_torn_writes split: prod.splits)

lemma plan_trace_not_Nil [simp]: "plan_trace fs ids \<noteq> []"
  by (simp add: plan_trace_def torn_writes_def split: prod.splits)

lemma hm_insert_insert [simp]: "hm_insert k v (hm_insert k u m) = hm_insert k v m"
  by (simp add: hm_insert_def)

lemma fs_append_append: "fs_append (fs_append fs f a) f b = fs_append fs f (a @ b)"
  by (simp add: fs_append_def fs_put_def fs_content_def)

lemma fs_append_Nil_put: "fs_append (fs_put fs f a) f [] = fs_put fs f a"
  by (simp add: fs_append_def fs_put_def fs_content_def)

lemma write_survivors_bytes:
  "fst (write_survivors crc f surv (fs_append fs f a) offs off) =
   fs_append fs f (a @ concat (map (encode crc \<circ> snd) surv))"
  by (induction surv arbitrary: a offs off) (auto simp: Let_def fs_append_append)

lemma phase1_trace_last: "last (phase1_trace crc fs ids) = snd (execute_compaction_phase1 crc fs ids)"
proof (cases "compact_segments crc fs ids ([], [])")
  case (Inr st)
  obtain f fs0 where o: "fs_open_truncate fs compacting_name = (f, fs0)" by fastforce
  then have "fs_append fs0 f [] = fs0"
    by (auto simp: fs_open_truncate_def fs_append_Nil_put split: prod.splits)
  then have "fst (write_survivors crc f (survivors st) fs0 [] 0) =
      fs_append fs0 f (concat (map (encode crc \<circ> snd) (survivors st)))"
    using write_survivors_bytes [of crc f "survivors st" fs0 "[]"] by simp
  then show ?thesis using Inr o
    by (auto simp: phase1_trace_def execute_compaction_phase1_def last_torn_writes last_plan_trace split: prod.splits)
qed (simp add: phase1_trace_def execute_compaction_phase1_def)

lemma phase2_trace_last: "last (phase2_trace fs ids) = snd (execute_compaction_phase2 fs ids)"
proof -
  have "last (if fs_exists fs plan_name then [fs] else fs # plan_trace fs ids) =
      (if fs_exists fs plan_name then fs else write_plan fs ids)"
    by (simp add: last_plan_trace)
  then show ?thesis
    by (auto simp: phase2_trace_def execute_compaction_phase2_def Let_def last_plan_trace split: sum.splits if_splits)
qed

subsection \<open>Opening a directory with left-overs\<close>

lemma fs_remove_list:
  "fs_read_dir (foldl fs_remove fs ns) = filter (\<lambda>n. n \<notin> set ns) (fs_read_dir fs)"
proof (induction ns arbitrary: fs)
  case (Cons n ns)
  have "fs_read_dir (fs_remove fs n) = filter (\<lambda>m. m \<noteq> n) (fs_read_dir fs)"
    by (simp add: fs_read_dir_def hm_keys_def hm_remove_def delete_keys removeAll_filter_not_eq) metis
  then show ?case using Cons by (simp add: conj_commute)
qed simp

lemma segment_ids_remove_temporaries: "segment_ids (remove_temporaries fs) = segment_ids fs"
proof -
  have "filter (\<lambda>n. \<not> is_temporary n) (fs_read_dir (remove_temporaries fs)) =
      filter (\<lambda>n. \<not> is_temporary n) (fs_read_dir fs)"
    unfolding remove_temporaries_def fs_remove_list filter_filter by (intro filter_cong) auto
  then show ?thesis by (simp add: segment_ids_def)
qed

text \<open>Opening first cleans up, and only the cleaned directory matters.\<close>

lemma wal_open_cleaned:
  assumes "dir_clean (remove_temporaries (recover_compaction fs)) ids"
  shows "wal_open crc fs m = wal_open crc (remove_temporaries (recover_compaction fs)) m"
  unfolding wal_open_def Let_def recover_compaction_clean [OF assms] remove_temporaries_clean [OF assms]
    segment_ids_remove_temporaries ..

lemma fs_file_remove_temporaries:
  "fs_file (remove_temporaries fs) n = (if is_temporary n then None else fs_file fs n)"
proof -
  have "fs_file (foldl fs_remove fs ns) n = (if n \<in> set ns then None else fs_file fs n)" for ns
    by (induction ns arbitrary: fs) simp_all
  moreover have "n \<in> set (filter is_temporary (fs_read_dir fs)) \<longleftrightarrow> is_temporary n \<and> fs_file fs n \<noteq> None"
    using fs_file_Some_iff [of fs n] by auto
  ultimately show ?thesis by (auto simp: remove_temporaries_def)
qed

lemma fs_ok_remove_temporaries: "fs_ok fs \<Longrightarrow> fs_ok (remove_temporaries fs)"
proof -
  have "fs_ok fs \<Longrightarrow> fs_ok (foldl fs_remove fs ns)" for ns
    by (induction ns arbitrary: fs) (simp_all add: fs_ok_remove)
  then show "fs_ok fs \<Longrightarrow> fs_ok (remove_temporaries fs)" by (simp add: remove_temporaries_def)
qed


lemma disk_holds_cong:
  assumes "disk_holds crc fs segs torn" "fs_ok fs'" "\<And>n. fs_file fs' n = fs_file fs n"
  shows "disk_holds crc fs' segs torn"
proof -
  have "set (fs_read_dir fs') = set (fs_read_dir fs)"
    using assms(3) fs_file_Some_iff by (metis subsetI subset_antisym)
  then show ?thesis using assms unfolding disk_holds_def dir_clean_def seg_on_disk_def by simp
qed

lemma wal_open_leftovers:
  assumes "disk_holds crc fs segs torn" "fs_ok (recover_compaction fs')"
    and "\<And>n. fs_file (remove_temporaries (recover_compaction fs')) n = fs_file fs n"
  shows "wal_holds crc (wal_open crc fs' m) (log_of segs)"
proof -
  have d: "disk_holds crc (remove_temporaries (recover_compaction fs')) segs torn"
    using disk_holds_cong [OF assms(1) fs_ok_remove_temporaries [OF assms(2)] assms(3)] .
  then have "wal_open crc fs' m = wal_open crc (remove_temporaries (recover_compaction fs')) m"
    by (intro wal_open_cleaned [of _ "map fst segs"]) (simp add: disk_holds_def)
  then show ?thesis using wal_open_spec [OF d, of m] unfolding wal_holds_def by auto
qed

lemma fs_exists_file: "fs_exists fs n \<longleftrightarrow> fs_file fs n \<noteq> None"
  by (simp add: fs_exists_def hm_contains_def fs_file_def)

lemma temporary_names [simp]: "is_temporary compacting_name" "\<not> is_temporary plan_name"
  "\<not> is_temporary swap_name" "\<not> is_temporary (seg_name s)"
  using seg_name_not_temporary [of s]
  by (simp_all add: is_temporary_def compacting_name_def plan_name_def swap_name_def ends_with_def
      del: seg_name_not_temporary)

lemma dir_clean_files:
  assumes "dir_clean fs ids"
  shows "fs_file fs plan_name = None" "fs_file fs swap_name = None" "is_temporary n \<Longrightarrow> fs_file fs n = None"
proof -
  have *: "fs_file fs n = None" if "n = plan_name \<or> n = swap_name \<or> is_temporary n" for n
    using that assms fs_file_Some_iff [of fs n] unfolding dir_clean_def by (cases "fs_file fs n") auto
  show "fs_file fs plan_name = None" "fs_file fs swap_name = None" "is_temporary n \<Longrightarrow> fs_file fs n = None"
    by (rule *; simp)+
qed

text \<open>A crash before the rename: the old segments are all there, and opening keeps them.\<close>

lemma open_before_rename:
  assumes "disk_holds crc fs segs torn" "fs_ok fs'"
    and "\<And>n. n \<noteq> compacting_name \<Longrightarrow> n \<noteq> plan_name \<Longrightarrow> fs_file fs' n = fs_file fs n"
    and "fs_file fs' plan_name \<noteq> None \<Longrightarrow> fs_file fs' compacting_name \<noteq> None"
  shows "wal_holds crc (wal_open crc fs' m) (log_of segs)"
proof -
  have clean: "dir_clean fs (map fst segs)" using assms(1) by (simp add: disk_holds_def)
  note none = dir_clean_files [OF clean]
  have swap: "fs_file fs' swap_name = None" using assms(3) [of swap_name] none by simp
  let ?fs = "if fs_exists fs' plan_name then fs_remove (fs_remove fs' compacting_name) plan_name else fs'"
  have rec: "recover_compaction fs' = ?fs"
    using swap assms(4) by (simp add: recover_compaction_def fs_exists_file)
  show ?thesis
  proof (rule wal_open_leftovers [OF assms(1)])
    show "fs_ok (recover_compaction fs')" using assms(2) by (simp add: rec fs_ok_remove)
    fix n
    show "fs_file (remove_temporaries (recover_compaction fs')) n = fs_file fs n"
      using assms(3) [of n] none unfolding rec fs_file_remove_temporaries by (auto simp: fs_exists_file)
  qed
qed

text \<open>A crash after the rename, with some of the old segments already unlinked.\<close>

lemma open_after_rename:
  assumes "wal_repr crc w fs (closed @ [(active, rs)])" "closed \<noteq> []" "\<forall>r \<in> set (compacted closed). storable r"
    and "fs_ok fs'" "\<And>n. fs_file fs' n =
      (if n = plan_name then Some (text_bytes (plan_text (map fst closed)))
       else if n \<in> {compacting_name, swap_name} \<union> seg_name ` D then None
       else if n = seg_name 1 then Some (seg_bytes crc (compacted closed)) else fs_file fs n)"
    and "D \<subseteq> {s \<in> fst ` set closed. s > 1}"
  shows "wal_holds crc (wal_open crc fs' m) (log_of [(1, compacted closed), (active, rs)])"
proof -
  let ?fs2 = "fs_remove (unlink_segments fs' (map fst closed)) plan_name"
  have plan: "Option.bind (fs_file fs' plan_name) bytes_text = Some (plan_text (map fst closed))"
    using bytes_text_text_bytes [OF plan_text_ascii] by (simp add: assms(5))
  have ids: "plan_ids (plan_text (map fst closed)) = map fst closed" using assms(2) by (intro plan_roundtrip) simp
  have rec: "recover_compaction fs' = ?fs2"
    unfolding recover_compaction_def Let_def fs_exists_file
    by (simp add: plan ids unlink_segments_def) (simp add: assms(5))
  have file2: "fs_file ?fs2 n =
      (if n \<in> {compacting_name, plan_name, swap_name} \<union> seg_name ` {s \<in> fst ` set closed. s > 1} then None
       else if n = seg_name 1 then Some (seg_bytes crc (compacted closed)) else fs_file fs n)" for n
    using assms(6) by (auto simp: unlink_segments_spec(1) assms(5))
  have ok2: "fs_ok ?fs2" using unlink_segments_spec(3) [OF assms(4)] by (rule fs_ok_remove)
  have disk: "disk_holds crc ?fs2 [(1, compacted closed), (active, rs)] []"
    by (rule disk_holds_compacted [OF assms(1-3) ok2 file2])
  then have "dir_clean ?fs2 [1, active]" by (simp add: disk_holds_def)
  then have "remove_temporaries ?fs2 = ?fs2" by (rule remove_temporaries_clean)
  then show ?thesis
    using wal_open_leftovers [OF disk, of fs'] ok2 by (simp add: rec)
qed

end
