(* ===== verification/Compaction_Spec.thy ===== *)
theory Compaction_Spec
  imports Compaction
begin

text \<open>
  What compaction guarantees: a compacted log describes the same tasks as the original, also
  when the process dies anywhere in the two phases; and two cases in which it does not: a
  crash in the clean-up that \<open>Wal::open\<close> makes, and leases of maximal payloads. The
  directories of the witnesses are built by \<open>mk_fs\<close>.
\<close>

section \<open>Concrete directories\<close>

text \<open>A directory that holds given segments, and the \<open>Wal\<close> of its last segment.\<close>

definition mk_fs :: "(bytes \<Rightarrow> u32) \<Rightarrow> (u64 \<times> Record list) list \<Rightarrow> fsys" where
  "mk_fs crc segs =
     \<lparr>fs_dir = zip (map (seg_name \<circ> fst) segs) [0..<length segs],
      fs_inodes = zip [0..<length segs] (map (seg_bytes crc \<circ> snd) segs), fs_next = length segs\<rparr>"

definition mk_wal :: "(bytes \<Rightarrow> u32) \<Rightarrow> nat \<Rightarrow> (u64 \<times> Record list) list \<Rightarrow> Wal" where
  "mk_wal crc m segs =
     \<lparr>active_segment_id = fst (last segs), active_file = length segs - 1,
      current_size = length (seg_bytes crc (snd (last segs))), max_segment_size = m\<rparr>"

lemma hm_get_zip:
  "length ks = length vs \<Longrightarrow> distinct ks \<Longrightarrow> hm_get (zip ks vs) k = Some v \<longleftrightarrow> (\<exists>i < length ks. ks ! i = k \<and> vs ! i = v)"
  unfolding hm_get_def by (subst map_of_eq_Some_iff) (auto simp: in_set_zip)

lemma mk_fs_dir:
  assumes "distinct (map fst segs)"
  shows "hm_get (fs_dir (mk_fs crc segs)) n = Some i \<longleftrightarrow> i < length segs \<and> seg_name (fst (segs ! i)) = n"
    "hm_ok (fs_dir (mk_fs crc segs))"
proof -
  have "distinct (map seg_name (map fst segs))" using assms by (simp add: distinct_map inj_on_def)
  then have dist: "distinct (map (seg_name \<circ> fst) segs)" by simp
  show "hm_get (fs_dir (mk_fs crc segs)) n = Some i \<longleftrightarrow> i < length segs \<and> seg_name (fst (segs ! i)) = n"
    using hm_get_zip [OF _ dist, of "[0..<length segs]" n i] by (auto simp: mk_fs_def)
  show "hm_ok (fs_dir (mk_fs crc segs))" using dist by (simp add: mk_fs_def hm_ok_def)
qed

lemma mk_fs_content: "i < length segs \<Longrightarrow> fs_content (mk_fs crc segs) i = seg_bytes crc (snd (segs ! i))"
proof -
  assume i: "i < length segs"
  then have "hm_get (fs_inodes (mk_fs crc segs)) i = Some (seg_bytes crc (snd (segs ! i)))"
    using hm_get_zip [of "[0..<length segs]" "map (seg_bytes crc \<circ> snd) segs" i "seg_bytes crc (snd (segs ! i))"]
    by (auto simp: mk_fs_def)
  then show ?thesis by (simp add: fs_content_def)
qed

lemma mk_fs_ok:
  assumes "distinct (map fst segs)"
  shows "fs_ok (mk_fs crc segs)"
proof -
  have "fs_next (mk_fs crc segs) = length segs" by (simp add: mk_fs_def)
  then show ?thesis using mk_fs_dir(2) [OF assms] unfolding fs_ok_def mk_fs_dir(1) [OF assms] by simp
qed

lemma mk_fs_seg_on_disk:
  assumes "distinct (map fst segs)" "\<forall>r \<in> set (concat (map snd segs)). storable r" "seg \<in> set segs"
  shows "seg_on_disk crc (mk_fs crc segs) seg"
proof -
  obtain i where i: "i < length segs" "segs ! i = seg" using assms(3) unfolding in_set_conv_nth by blast
  then have "hm_get (fs_dir (mk_fs crc segs)) (seg_name (fst seg)) = Some i" using mk_fs_dir(1) [OF assms(1)] by blast
  moreover have "\<forall>r \<in> set (snd seg). storable r" using assms(2,3) by auto
  ultimately show ?thesis using mk_fs_content [OF i(1)] i(2) by (simp add: seg_on_disk_def fs_file_def)
qed

lemma mk_fs_clean: "dir_clean (mk_fs crc segs) (map fst segs)"
proof -
  have names: "set (fs_read_dir (mk_fs crc segs)) = (\<lambda>x. seg_name (fst x)) ` set segs"
    by (simp add: fs_read_dir_def hm_keys_def mk_fs_def comp_def)
  show ?thesis unfolding dir_clean_def names by simp
qed

lemma mk_fs_repr:
  assumes "sorted_wrt (<) (map fst segs)" "segs \<noteq> []" "0 \<notin> set (map fst segs)" "\<forall>r \<in> set (concat (map snd segs)). storable r"
  shows "wal_repr crc (mk_wal crc m segs) (mk_fs crc segs) segs"
proof -
  have dist: "distinct (map fst segs)" using assms(1) by (simp add: strict_sorted_iff)
  have "hm_get (fs_dir (mk_fs crc segs)) (seg_name (fst (last segs))) = Some (length segs - 1)"
    using assms(2) by (simp add: mk_fs_dir(1) [OF dist] last_conv_nth)
  moreover have "\<forall>seg \<in> set segs. seg_on_disk crc (mk_fs crc segs) seg"
    using mk_fs_seg_on_disk [OF dist assms(4)] by blast
  ultimately show ?thesis
    unfolding wal_repr_def mk_wal_def Wal.simps
    using assms(1-3) mk_fs_ok [OF dist] mk_fs_clean [of crc segs] by blast
qed

section \<open>Properties\<close>

lemma map_snd_log_of: "map snd (log_of segs) = concat (map snd segs)"
proof -
  have "map snd (seg_log seg) = snd seg" for seg
    by (simp add: seg_log_def case_prod_unfold comp_def)
  then show ?thesis by (simp add: log_of_def map_concat comp_def)
qed

text \<open>Every payload in the replay is part of the payload of some record.\<close>

lemma replay_payload_length:
  assumes "\<forall>r \<in> set rs. length (rec_payload r) \<le> n"
  shows "hm_get (fst (replay rs)) k = Some p \<Longrightarrow> length p \<le> n"
  using assms
proof (induction rs arbitrary: p rule: rev_induct)
  case (snoc r rs)
  then show ?case
    by (cases "op_type r") (auto simp: replay_def compact_step_def Let_def split: if_splits)
qed (simp add: replay_def)

lemma replay_latest_in: "hm_get (snd (replay rs)) k = Some r \<Longrightarrow> r \<in> set rs"
proof (induction rs arbitrary: r rule: rev_induct)
  case (snoc x rs)
  then show ?case by (auto simp: replay_def compact_step_latest split: if_splits)
qed (simp add: replay_def)

lemma consolidate_length:
  assumes "length (rec_payload r) \<le> n" "\<And>p. hm_get created k = Some p \<Longrightarrow> length p \<le> n"
  shows "length (rec_payload (consolidate created k r)) \<le> n + 13"
  using assms by (cases "op_type r"; cases "hm_get created k") (fastforce simp: consolidate_def Let_def)+

lemma compacted_storable:
  assumes "\<forall>r \<in> set (concat (map snd closed)). length (rec_payload r) + 13 \<le> MAX_PAYLOAD_SIZE"
  shows "\<forall>r \<in> set (compacted closed). storable r"
proof
  let ?st = "replay (concat (map snd closed))"
  fix r assume "r \<in> set (compacted closed)"
  then obtain k where k: "k \<in> set (hm_keys (snd ?st))" "r = consolidate (fst ?st) k (the (hm_get (snd ?st) k))"
    by (auto simp: compacted_def survivors_def)
  then obtain x where x: "hm_get (snd ?st) k = Some x"
    by (auto simp: hm_contains_keys [symmetric] hm_contains_def)
  let ?n = "MAX_PAYLOAD_SIZE - 13"
  have bound: "\<forall>r \<in> set (concat (map snd closed)). length (rec_payload r) \<le> ?n" using assms by fastforce
  have "length (rec_payload r) \<le> ?n + 13"
    unfolding k(2) x option.sel
    using bound replay_latest_in [OF x] replay_payload_length [OF bound] by (intro consolidate_length) blast+
  then show "storable r" by (simp add: storable_def MAX_PAYLOAD_SIZE_def)
qed

lemma compacted_same_tasks:
  assumes "\<forall>r \<in> set (concat (map snd closed) @ rs). wf_record r"
  shows "task_view (replay (compacted closed @ rs)) k = task_view (replay (concat (map snd closed) @ rs)) k"
proof -
  have "replay_inv (replay (concat (map snd closed)))" using assms by (intro replay_inv_replay) auto
  then have "same_tasks (replay (compacted closed)) (replay (concat (map snd closed)))"
    unfolding compacted_def by (rule replay_survivors)
  then show ?thesis
    using same_tasks_foldl [of "replay (compacted closed)" _ rs] assms unfolding same_tasks_def
    by (simp add: replay_def)
qed

lemma zip_layout: "zip (map f rs) (map fst (layout off rs)) = map (\<lambda>(o1, r). (f r, o1)) (layout off rs)"
  by (induction rs arbitrary: off) simp_all



text \<open>What a crash during either phase can leave behind.\<close>

lemma torn_writes_file:
  assumes "fs_ok fs" "hm_get (fs_dir fs) n = Some f" "fs_file fs n = Some []" "fs' \<in> set (torn_writes fs f bs)"
  shows "fs_ok fs'" "\<exists>k. fs_file fs' n = Some (take k bs)" "m \<noteq> n \<Longrightarrow> fs_file fs' m = fs_file fs m"
proof -
  obtain k where k: "fs' = fs_append fs f (take k bs)" using assms(4) by (auto simp: torn_writes_def simp del: upt_Suc)
  show "fs_ok fs'" using assms(1) by (simp add: k)
  show "\<exists>k. fs_file fs' n = Some (take k bs)" "m \<noteq> n \<Longrightarrow> fs_file fs' m = fs_file fs m"
    unfolding k by (auto simp: fs_file_append [OF assms(1-3)])
qed

lemma plan_trace_file:
  assumes "fs_ok fs" "fs' \<in> set (plan_trace fs ids)"
  shows "fs_ok fs'" "m \<noteq> plan_name \<Longrightarrow> fs_file fs' m = fs_file fs m"
proof -
  obtain i fs1 where o: "fs_open_truncate fs plan_name = (i, fs1)" by fastforce
  note s = fs_open_truncate_spec [OF assms(1) o]
  have "fs' \<in> set (torn_writes fs1 i (text_bytes (plan_text ids)))" using assms(2) o by (simp add: plan_trace_def)
  note t = torn_writes_file [OF s(1,2) _ this]
  show "fs_ok fs'" using t(1) s(3) by simp
  show "m \<noteq> plan_name \<Longrightarrow> fs_file fs' m = fs_file fs m" using t(3) s(3) by simp
qed

lemma phase1_trace_file:
  assumes "fs_ok fs" "fs' \<in> set (phase1_trace crc fs ids)" "fs_file fs plan_name = None"
  shows "fs_ok fs'" "\<And>m. m \<noteq> compacting_name \<Longrightarrow> m \<noteq> plan_name \<Longrightarrow> fs_file fs' m = fs_file fs m"
    "fs_file fs' plan_name \<noteq> None \<Longrightarrow> fs_file fs' compacting_name \<noteq> None"
proof -
  have "fs_ok fs' \<and> (\<forall>m. m \<noteq> compacting_name \<longrightarrow> m \<noteq> plan_name \<longrightarrow> fs_file fs' m = fs_file fs m) \<and>
      (fs_file fs' plan_name \<noteq> None \<longrightarrow> fs_file fs' compacting_name \<noteq> None)"
  proof (cases "fs' = fs")
    case True
    then show ?thesis using assms by simp
  next
    case False
    then obtain st where st: "compact_segments crc fs ids ([], []) = Inr st"
      using assms(2) by (cases "compact_segments crc fs ids ([], [])") (auto simp: phase1_trace_def)
    obtain f fs0 where o: "fs_open_truncate fs compacting_name = (f, fs0)" by fastforce
    note s = fs_open_truncate_spec [OF assms(1) o]
    define bs where "bs = concat (map (encode crc \<circ> snd) (survivors st))"
    have empty: "fs_file fs0 compacting_name = Some []" using s(3) by simp
    note t = torn_writes_file [OF s(1,2) empty]
    have "fs' \<in> set (torn_writes fs0 f bs) \<or> fs' \<in> set (plan_trace (last (torn_writes fs0 f bs)) ids)"
      using assms(2) False st o by (auto simp: phase1_trace_def bs_def Let_def)
    then show ?thesis
    proof
      assume "fs' \<in> set (torn_writes fs0 f bs)"
      then show ?thesis using t s(3) assms(3) by fastforce
    next
      let ?l = "last (torn_writes fs0 f bs)"
      assume p: "fs' \<in> set (plan_trace ?l ids)"
      have l: "?l \<in> set (torn_writes fs0 f bs)" unfolding torn_writes_def by (intro last_in_set) simp
      note p1 = plan_trace_file [OF t(1) [OF l] p]
      have "fs_file fs' compacting_name \<noteq> None" using p1(2) [of compacting_name] t(2) [OF l] by fastforce
      moreover have "fs_file fs' m = fs_file fs m" if "m \<noteq> compacting_name" "m \<noteq> plan_name" for m
        using p1(2) [OF that(2)] t(3) [OF l that(1)] s(3) that by simp
      ultimately show ?thesis using p1(1) by blast
    qed
  qed
  then show "fs_ok fs'" "\<And>m. m \<noteq> compacting_name \<Longrightarrow> m \<noteq> plan_name \<Longrightarrow> fs_file fs' m = fs_file fs m"
    "fs_file fs' plan_name \<noteq> None \<Longrightarrow> fs_file fs' compacting_name \<noteq> None" by blast+
qed

lemma open_after_cleanup:
  assumes "wal_repr crc w fs (closed @ [(active, rs)])" "closed \<noteq> []" "\<forall>r \<in> set (compacted closed). storable r"
    and "fs_ok fs2" "\<And>m. fs_file fs2 m =
       (if m \<in> {compacting_name, plan_name, swap_name} \<union> seg_name ` {s \<in> fst ` set closed. s > 1} then None
        else if m = seg_name 1 then Some (seg_bytes crc (compacted closed)) else fs_file fs m)"
  shows "wal_holds crc (wal_open crc fs2 m) (log_of [(1, compacted closed), (active, rs)])"
proof -
  have "disk_holds crc fs2 [(1, compacted closed), (active, rs)] []"
    by (rule disk_holds_compacted [OF assms])
  from wal_open_spec [OF this, of m] show ?thesis unfolding wal_holds_def by auto
qed

lemma open_in_phase2:
  assumes "wal_repr crc w fs (closed @ [(active, rs)])" "closed \<noteq> []" "\<forall>r \<in> set (compacted closed). storable r"
    and "fs_ok fs1" "\<And>m. fs_file fs1 m = (if m = compacting_name then Some (seg_bytes crc (compacted closed))
        else if m = plan_name then Some (text_bytes (plan_text (map fst closed))) else fs_file fs m)"
    and "fs' \<in> set (phase2_trace fs1 (map fst closed))" "fs' \<noteq> fs1"
  shows "wal_holds crc (wal_open crc fs' m) (log_of [(1, compacted closed), (active, rs)])"
proof -
  note d = wal_reprD [OF assms(1)] and st = assms(3)
  let ?ids = "map fst closed"
  obtain fsr where r: "fs_rename fs1 compacting_name (seg_name 1) = Inr fsr" "fs_ok fsr"
    "\<And>m. fs_file fsr m = (if m = seg_name 1 then Some (seg_bytes crc (compacted closed))
        else if m = compacting_name then None else fs_file fs1 m)"
    using fs_rename_spec [OF assms(4), of compacting_name _ "seg_name 1"] assms(5) by auto
  have "fs_exists fs1 plan_name" by (simp add: fs_exists_file assms(5))
  then have "fs' \<in> set (map (\<lambda>k. unlink_segments fsr (take k ?ids)) [0..<Suc (length ?ids)] @
      [fs_remove (unlink_segments fsr ?ids) plan_name, fs_remove (fs_remove (unlink_segments fsr ?ids) plan_name) swap_name])"
    using assms(6,7) by (simp add: phase2_trace_def r(1) Let_def)
  then consider k where "fs' = unlink_segments fsr (take k ?ids)"
    | "fs' = fs_remove (unlink_segments fsr ?ids) plan_name \<or>
       fs' = fs_remove (fs_remove (unlink_segments fsr ?ids) plan_name) swap_name"
    by (auto simp del: upt_Suc)
  then show ?thesis
  proof cases
    case 1
    show ?thesis
    proof (rule open_after_rename [OF assms(1,2) st, where D = "{s \<in> set (take k ?ids). s > 1}"])
      show "fs_ok fs'" using r(2) 1 unlink_segments_spec(3) by blast
      show "{s \<in> set (take k ?ids). s > 1} \<subseteq> {s \<in> fst ` set closed. s > 1}" by (auto dest: in_set_takeD)
      show "fs_file fs' n =
        (if n = plan_name then Some (text_bytes (plan_text ?ids))
         else if n \<in> {compacting_name, swap_name} \<union> seg_name ` {s \<in> set (take k ?ids). s > 1} then None
         else if n = seg_name 1 then Some (seg_bytes crc (compacted closed)) else fs_file fs n)" for n
        using dir_clean_files(2) [OF d(4)] unfolding 1 unlink_segments_spec(1) r(3) assms(5) by auto
    qed
  next
    case 2
    then have "fs_ok fs'" using r(2) unlink_segments_spec(3) fs_ok_remove by blast
    moreover have "fs_file fs' m =
     (if m \<in> {compacting_name, plan_name, swap_name} \<union> seg_name ` {s \<in> fst ` set closed. s > 1} then None
      else if m = seg_name 1 then Some (seg_bytes crc (compacted closed)) else fs_file fs m)" for m
      using 2 dir_clean_files(2) [OF d(4)]
      by (elim disjE) (auto simp: unlink_segments_spec(1) r(3) assms(5))
    ultimately show ?thesis by (rule open_after_cleanup [OF assms(1,2) st])
  qed
qed

text \<open>
  C4. Compaction is crash-safe: wherever the process dies in phase 1 (in the middle of the
  temporary file or of the plan) or in phase 2 (before the rename, between any two unlinks,
  before or after the plan is removed), opening the directory afterwards yields a log with
  the same tasks as the log before the compaction.
\<close>

theorem compaction_crash_safe:
  assumes "wal_repr crc w fs (closed @ [(active, rs)])" "closed \<noteq> []"
    and "\<forall>r \<in> set (concat (map snd closed) @ rs). wf_record r"
    and "\<forall>r \<in> set (concat (map snd closed)). length (rec_payload r) + 13 \<le> MAX_PAYLOAD_SIZE"
    and "fs' \<in> set (phase1_trace crc fs (map fst closed)) \<union>
      set (phase2_trace (snd (execute_compaction_phase1 crc fs (map fst closed))) (map fst closed))"
  shows "\<exists>log'. wal_holds crc (wal_open crc fs' m) log' \<and>
    (\<forall>k. task_view (replay (map snd log')) k = task_view (replay (concat (map snd closed) @ rs)) k)"
proof -
  note d = wal_reprD [OF assms(1)]
  note st = compacted_storable [OF assms(4)]
  let ?old = "log_of (closed @ [(active, rs)])" and ?new = "log_of [(1, compacted closed), (active, rs)]"
  let ?ids = "map fst closed"
  have old: "disk_holds crc fs (closed @ [(active, rs)]) []" by (rule wal_repr_disk_holds [OF assms(1)])
  have no_plan: "fs_file fs plan_name = None" using dir_clean_files(1) [OF d(4)] .
  have "\<exists>log' \<in> {?old, ?new}. wal_holds crc (wal_open crc fs' m) log'"
  proof (cases "fs' \<in> set (phase1_trace crc fs ?ids)")
    case True
    note t = phase1_trace_file [OF d(1) True no_plan]
    have "wal_holds crc (wal_open crc fs' m) ?old"
      by (rule open_before_rename [OF old t])
    then show ?thesis by blast
  next
    case False
    define fs1 where "fs1 = snd (execute_compaction_phase1 crc fs ?ids)"
    have wf: "\<forall>r \<in> set (concat (map snd closed)). wf_record r" using assms(3) by auto
    obtain p1: "fs_ok fs1" "\<And>m. fs_file fs1 m = (if m = compacting_name then Some (seg_bytes crc (compacted closed))
        else if m = plan_name then Some (text_bytes (plan_text ?ids)) else fs_file fs m)"
      using phase1_spec [OF d(1) _ wf, of crc] d(5) by (auto simp: fs1_def)
    have "last (phase1_trace crc fs ?ids) = fs1" by (simp add: fs1_def phase1_trace_last)
    then have "fs1 \<in> set (phase1_trace crc fs ?ids)" using last_in_set [of "phase1_trace crc fs ?ids"]
      by (simp add: phase1_trace_def)
    then have ne: "fs' \<noteq> fs1" using False by blast
    have "wal_holds crc (wal_open crc fs' m) ?new"
      using assms(5) False ne by (intro open_in_phase2 [OF assms(1,2) st p1]) (auto simp: fs1_def)
    then show ?thesis by blast
  qed
  moreover have "task_view (replay (map snd log')) k = task_view (replay (concat (map snd closed) @ rs)) k"
    if "log' \<in> {?old, ?new}" for log' k
  proof (cases "log' = ?old")
    case True
    then show ?thesis by (simp only: map_snd_log_of) simp
  next
    case False
    then have "log' = ?new" using that by blast
    then show ?thesis using compacted_same_tasks [OF assms(3)] by (simp only: map_snd_log_of) simp
  qed
  ultimately show ?thesis by blast
qed

theorem compaction_crash_safe_witness:
  "\<exists>log'. wal_holds byte_sum
      (wal_open byte_sum
        (last (phase1_trace byte_sum
          (mk_fs byte_sum ([(1, [new_record 7 Created 3 [42]]), (2, [new_record 7 Nacked 3 [1]])] @ [(3, [])]))
          (map fst [(1, [new_record 7 Created 3 [42]]), (2, [new_record 7 Nacked 3 [1]])]))) None) log' \<and>
    (\<forall>k. task_view (replay (map snd log')) k =
       task_view (replay (concat (map snd [(1 :: u64, [new_record 7 Created 3 [42]]), (2, [new_record 7 Nacked 3 [1]])]) @ [])) k)"
proof (rule compaction_crash_safe [where active = 3])
  let ?segs = "[(1 :: u64, [new_record 7 Created 3 [42]]), (2, [new_record 7 Nacked 3 [1]])] @ [(3, [])]"
  show "wal_repr byte_sum (mk_wal byte_sum 1 ?segs) (mk_fs byte_sum ?segs) ?segs"
    by (rule mk_fs_repr) (simp_all add: storable_def MAX_PAYLOAD_SIZE_def)
  show "last (phase1_trace crc fs ids) \<in> set (phase1_trace crc fs ids) \<union> X" for crc fs ids X
  proof -
    have "phase1_trace crc fs ids \<noteq> []" by (simp add: phase1_trace_def)
    then show ?thesis by (intro UnI1 last_in_set)
  qed
qed (simp_all add: wf_record_def MAX_PAYLOAD_SIZE_def)

text \<open>A directory from which closed segments with ids above 1 are gone.\<close>

lemma disk_holds_unlinked:
  assumes "wal_repr crc w fs (closed @ [(active, rs)])" "fs_ok fs2"
    and "\<And>n. fs_file fs2 n = (if n \<in> seg_name ` {s \<in> fst ` set closed. s > 1} then None else fs_file fs n)"
  shows "disk_holds crc fs2 (filter (\<lambda>seg. fst seg = 1) closed @ [(active, rs)]) []"
proof -
  note d = wal_reprD [OF assms(1)]
  note act = wal_repr_active [OF assms(1)]
  let ?left = "filter (\<lambda>seg. fst seg = 1) closed @ [(active, rs)]"
  have keep: "seg_on_disk crc fs2 seg" if "seg \<in> set ?left" for seg
  proof -
    have "seg_name (fst seg) \<notin> seg_name ` {s \<in> fst ` set closed. s > 1}" using that act(3) by auto
    then have "fs_file fs2 (seg_name (fst seg)) = fs_file fs (seg_name (fst seg))" by (simp only: assms(3) if_False)
    moreover have "seg_on_disk crc fs seg" using that d(5) by auto
    ultimately show ?thesis by (simp add: seg_on_disk_def)
  qed
  have "dir_clean fs2 (map fst ?left)"
  proof (rule dir_cleanI [OF _ d(4)])
    fix n assume n: "fs_file fs2 n \<noteq> None"
    then have n': "n \<notin> seg_name ` {s \<in> fst ` set closed. s > 1}" "fs_file fs n \<noteq> None"
      by (auto simp: assms(3) split: if_splits)
    have "fst seg \<in> set (map fst ?left)" if "seg \<in> set closed" "n = seg_name (fst seg)" for seg
    proof -
      have "fst seg = 1" using that n'(1) act(2) [OF imageI [OF that(1)]] by auto
      then have "seg \<in> set ?left" using that(1) by simp
      then show ?thesis by (simp only: set_map imageI)
    qed
    then show "(\<exists>s \<in> set (map fst ?left). n = seg_name s) \<or>
        (fs_file fs n \<noteq> None \<and> (\<forall>s \<in> set (map fst (closed @ [(active, rs)])). n \<noteq> seg_name s))"
      using n'(2) unfolding map_append set_append set_map by blast
  qed
  moreover have "sorted_wrt (<) (map fst ?left)"
    using d(3) act(2) [OF imageI] by (force simp: sorted_wrt_append sorted_wrt_map intro: sorted_wrt_filter)
  moreover have "0 \<notin> set (map fst ?left)" using d(9) by auto
  moreover have "fs_file fs2 (seg_name active) = Some (seg_bytes crc rs)" "\<forall>r \<in> set rs. storable r"
    using keep [of "(active, rs)"] by (simp_all add: seg_on_disk_def)
  moreover have "\<forall>seg \<in> set (butlast ?left). seg_on_disk crc fs2 seg" using keep by simp
  ultimately show ?thesis unfolding disk_holds_def using assms(2) by simp
qed

text \<open>
  C39. The clean-up of an interrupted compaction is itself not crash-safe. When
  \<open>Wal::open\<close> finds a plan and a temporary file it removes the temporary file first; if
  the process dies before the plan is removed too, the next \<open>Wal::open\<close> takes the plan for
  that of a completed swap and unlinks every closed segment but the first, although nothing
  was swapped.
\<close>

theorem interrupted_cleanup_loses_segments:
  assumes "wal_repr crc w fs (closed @ [(active, rs)])" "closed \<noteq> []"
    and "\<forall>r \<in> set (concat (map snd closed)). wf_record r"
    and "fs1 = snd (execute_compaction_phase1 crc fs (map fst closed))"
  shows "recover_compaction fs1 = fs_remove (fs_remove fs1 compacting_name) plan_name \<and>
    wal_holds crc (wal_open crc (fs_remove fs1 compacting_name) m)
      (log_of (filter (\<lambda>seg. fst seg = 1) closed @ [(active, rs)]))"
proof
  note d = wal_reprD [OF assms(1)]
  note act = wal_repr_active [OF assms(1)]
  obtain p1: "fs_ok fs1" "\<And>m. fs_file fs1 m = (if m = compacting_name then Some (seg_bytes crc (compacted closed))
      else if m = plan_name then Some (text_bytes (plan_text (map fst closed))) else fs_file fs m)"
    using phase1_spec [OF d(1) _ assms(3), of crc] d(5) by (auto simp: assms(4))
  show "recover_compaction fs1 = fs_remove (fs_remove fs1 compacting_name) plan_name"
    by (simp add: recover_compaction_def fs_exists_file p1(2))
  let ?fs = "fs_remove fs1 compacting_name"
  let ?left = "filter (\<lambda>seg. fst seg = 1) closed @ [(active, rs)]"
  let ?fs2 = "fs_remove (unlink_segments ?fs (map fst closed)) plan_name"
  have ids: "plan_ids (plan_text (map fst closed)) = map fst closed" using assms(2) by (intro plan_roundtrip) simp
  have rec: "recover_compaction ?fs = ?fs2"
    using bytes_text_text_bytes [OF plan_text_ascii]
    by (simp add: recover_compaction_def fs_exists_file ids unlink_segments_def p1(2))
  have ok2: "fs_ok ?fs2" using p1(1) unlink_segments_spec(3) fs_ok_remove by blast
  have file2: "fs_file ?fs2 n = (if n \<in> seg_name ` {s \<in> fst ` set closed. s > 1} then None else fs_file fs n)" for n
    using dir_clean_files [OF d(4)] by (auto simp: unlink_segments_spec(1) p1(2))
  have disk: "disk_holds crc ?fs2 ?left []"
    by (rule disk_holds_unlinked [OF assms(1) ok2 file2])
  then have "dir_clean ?fs2 (map fst ?left)" unfolding disk_holds_def by blast
  then have "remove_temporaries ?fs2 = ?fs2" by (rule remove_temporaries_clean)
  then show "wal_holds crc (wal_open crc ?fs m) (log_of ?left)"
    using wal_open_leftovers [OF disk, of ?fs] ok2 by (simp add: rec)
qed

theorem interrupted_cleanup_loses_segments_witness:
  "recover_compaction (snd (execute_compaction_phase1 byte_sum
      (mk_fs byte_sum ([(1, [new_record 7 Created 3 [42]]), (2, [new_record 8 Created 3 [43]])] @ [(3, [])])) [1, 2])) =
    fs_remove (fs_remove (snd (execute_compaction_phase1 byte_sum
      (mk_fs byte_sum ([(1, [new_record 7 Created 3 [42]]), (2, [new_record 8 Created 3 [43]])] @ [(3, [])])) [1, 2]))
      compacting_name) plan_name \<and>
   wal_holds byte_sum (wal_open byte_sum (fs_remove (snd (execute_compaction_phase1 byte_sum
      (mk_fs byte_sum ([(1, [new_record 7 Created 3 [42]]), (2, [new_record 8 Created 3 [43]])] @ [(3, [])])) [1, 2]))
      compacting_name) None) [((1, 0), new_record 7 Created 3 [42])]"
proof -
  let ?closed = "[(1 :: u64, [new_record 7 Created 3 [42]]), (2, [new_record 8 Created 3 [43]])]"
  have "wal_repr byte_sum (mk_wal byte_sum 1 (?closed @ [(3, [])])) (mk_fs byte_sum (?closed @ [(3, [])])) (?closed @ [(3, [])])"
    by (rule mk_fs_repr) (simp_all add: storable_def MAX_PAYLOAD_SIZE_def)
  moreover have "\<forall>r \<in> set (concat (map snd ?closed)). wf_record r" by (simp add: wf_record_def)
  ultimately show ?thesis
    using interrupted_cleanup_loses_segments [of byte_sum _ _ ?closed 3 "[]"] by (simp add: seg_log_def)
qed

text \<open>
  C40. A consolidated lease can outgrow a frame: a leased task whose payload is within 12
  bytes of \<open>MAX_PAYLOAD_SIZE\<close> is compacted into a record over that size, and then nothing
  of the compacted segment can be read: neither this record nor any record behind it.
\<close>

theorem compaction_oversizes_lease:
  assumes "length p \<le> MAX_PAYLOAD_SIZE" "MAX_PAYLOAD_SIZE < length p + 13" "length lease = 13"
  shows "compacted [(1, [new_record k Created pr p, new_record k Leased pr lease])] =
      [new_record k Leased pr (lease @ p)] \<and>
    next_frame (seg_bytes crc (compacted [(1, [new_record k Created pr p, new_record k Leased pr lease])]) @ rest) 0 = None"
proof
  show c: "compacted [(1, [new_record k Created pr p, new_record k Leased pr lease])] =
      [new_record k Leased pr (lease @ p)]"
    using assms(3) by (simp add: compacted_def replay_def compact_step_def Let_def survivors_def hm_or_insert_def
        hm_contains_def hm_keys_def consolidate_def) (simp add: hm_insert_def hm_get_def)
  let ?r = "new_record k Leased pr (lease @ p)"
  have len: "length (rec_payload ?r) < 2 ^ 32" "MAX_PAYLOAD_SIZE < length (rec_payload ?r)"
    using assms by (simp_all add: MAX_PAYLOAD_SIZE_def)
  have "byte_slice 15 19 (take HEADER_SIZE (encode crc ?r @ rest)) = byte_slice 15 19 (encode crc ?r @ rest)"
    by (simp add: byte_slice_take HEADER_SIZE_def del: take_append)
  then have "extract_payload_len (take HEADER_SIZE (encode crc ?r @ rest)) = length (rec_payload ?r)"
    using len(1) by (simp only: extract_payload_len_def encode_len_field u32_be_roundtrip unat_of_nat_u32)
  then show "next_frame (seg_bytes crc (compacted [(1, [new_record k Created pr p, new_record k Leased pr lease])]) @ rest) 0 = None"
    using len(2) unfolding c by (simp add: next_frame_def read_exact_def Let_def del: take_append new_record_simps)
qed

theorem compaction_oversizes_lease_witness:
  "compacted [(1, [new_record 7 Created 3 (replicate 67108864 0), new_record 7 Leased 3 (replicate 13 1)])] =
      [new_record 7 Leased 3 (replicate 13 1 @ replicate 67108864 0)] \<and>
    next_frame (seg_bytes byte_sum (compacted [(1, [new_record 7 Created 3 (replicate 67108864 0),
      new_record 7 Leased 3 (replicate 13 1)])]) @ []) 0 = None"
  by (rule compaction_oversizes_lease) (simp_all add: MAX_PAYLOAD_SIZE_def)

end
