(* ===== verification/Task_Queue.thy ===== *)
theory Task_Queue
  imports Nesso_Prelude
begin

unbundle bit_operations_syntax

text \<open>
  The ready queue, \<open>src/src/storage/priority_queue.rs\<close> (and \<open>TaskRef\<close> of
  \<open>src/src/storage/engine.rs\<close>): 256 FIFO buckets and a 256-bit bitmap of the non-empty
  ones. Its contract is the locale \<open>stable_priority_queue\<close>, a list in delivery order
  into which \<open>push\<close> inserts behind every task of the same or a higher priority; the
  locale carries what the clients use (draining a queue is a stable sort), and the bucket
  queue is its interpretation.
\<close>

section \<open>Tasks\<close>

record TaskRef =
  task_id :: u64
  task_priority :: u8
  task_retries :: u8

definition task_ref :: "u64 \<Rightarrow> u8 \<Rightarrow> u8 \<Rightarrow> TaskRef" where
  "task_ref i p n = \<lparr>task_id = i, task_priority = p, task_retries = n\<rparr>"

text \<open>\<open>PartialEq\<close> and \<open>Ord\<close> of \<open>TaskRef\<close>: both ignore the retry count.\<close>

datatype ordering = Less | Equal | Greater

definition word_cmp :: "'a::len word \<Rightarrow> 'a word \<Rightarrow> ordering" where
  "word_cmp a b = (if a < b then Less else if a = b then Equal else Greater)"

definition then_with :: "ordering \<Rightarrow> ordering \<Rightarrow> ordering" where
  "then_with a b = (if a = Equal then b else a)"

definition task_eq :: "TaskRef \<Rightarrow> TaskRef \<Rightarrow> bool" where
  "task_eq s t = (task_id s = task_id t \<and> task_priority s = task_priority t)"

definition task_cmp :: "TaskRef \<Rightarrow> TaskRef \<Rightarrow> ordering" where
  "task_cmp s t =
     then_with (word_cmp (task_priority s) (task_priority t)) (word_cmp (task_id t) (task_id s))"

section \<open>The bucket queue\<close>

definition NUM_PRIORITIES :: nat where
  "NUM_PRIORITIES = 256"

record PriorityBucketQueue =
  buckets :: "TaskRef list list"
  bitmap :: "u64 list"
  queue_len :: nat

definition pbq_new :: PriorityBucketQueue where
  "pbq_new = \<lparr>buckets = replicate NUM_PRIORITIES [], bitmap = replicate 4 0, queue_len = 0\<rparr>"

definition pbq_push :: "PriorityBucketQueue \<Rightarrow> TaskRef \<Rightarrow> PriorityBucketQueue" where
  "pbq_push q task =
     (let p = unat (task_priority task) in
      \<lparr>buckets = (buckets q)[p := buckets q ! p @ [task]],
       bitmap = (bitmap q)[p div 64 := bitmap q ! (p div 64) OR push_bit (p mod 64) 1],
       queue_len = queue_len q + 1\<rparr>)"

text \<open>\<open>u64::leading_zeros\<close>.\<close>

definition leading_zeros :: "u64 \<Rightarrow> nat" where
  "leading_zeros w = length (takeWhile Not (rev (map (bit w) [0..<64])))"

text \<open>
  The loop over the bitmap words; an empty bucket under a set bit is the \<open>expect\<close> that
  panics.
\<close>

fun pbq_pop_scan :: "nat list \<Rightarrow> PriorityBucketQueue \<Rightarrow> (TaskRef option \<times> PriorityBucketQueue) result" where
  "pbq_pop_scan [] q = Inr (None, q)"
| "pbq_pop_scan (word_idx # idxs) q =
     (let word = bitmap q ! word_idx in
      if word \<noteq> 0 then
        let bit_idx = 63 - leading_zeros word; p = word_idx * 64 + bit_idx in
        case buckets q ! p of
          [] \<Rightarrow> Inl (Panicked ''bucket must not be empty when bit is set'')
        | task # rest \<Rightarrow>
            Inr (Some task,
              \<lparr>buckets = (buckets q)[p := rest],
               bitmap = (if rest = [] then (bitmap q)[word_idx := word AND NOT (push_bit bit_idx 1)]
                         else bitmap q),
               queue_len = queue_len q - 1\<rparr>)
      else pbq_pop_scan idxs q)"

definition pbq_pop :: "PriorityBucketQueue \<Rightarrow> (TaskRef option \<times> PriorityBucketQueue) result" where
  "pbq_pop q = pbq_pop_scan (rev [0..<4]) q"

definition pbq_len :: "PriorityBucketQueue \<Rightarrow> nat" where
  "pbq_len q = queue_len q"

definition pbq_is_empty :: "PriorityBucketQueue \<Rightarrow> bool" where
  "pbq_is_empty q = (queue_len q = 0)"

definition pbq_clear :: "PriorityBucketQueue \<Rightarrow> PriorityBucketQueue" where
  "pbq_clear q =
     \<lparr>buckets = map (\<lambda>_. []) (buckets q), bitmap = replicate 4 0, queue_len = 0\<rparr>"

text \<open>Well-formedness: bitmap, length and buckets agree, every task is in its own bucket.\<close>

definition pbq_inv :: "PriorityBucketQueue \<Rightarrow> bool" where
  "pbq_inv q =
     (length (buckets q) = NUM_PRIORITIES \<and> length (bitmap q) = 4 \<and>
      queue_len q = length (concat (buckets q)) \<and>
      (\<forall>p \<in> set [0..<NUM_PRIORITIES].
         bit (bitmap q ! (p div 64)) (p mod 64) = (buckets q ! p \<noteq> []) \<and>
         (\<forall>t \<in> set (buckets q ! p). unat (task_priority t) = p)))"

text \<open>The queue as a list in delivery order: highest priority first, FIFO within one.\<close>

definition delivery :: "PriorityBucketQueue \<Rightarrow> TaskRef list" where
  "delivery q = concat (rev (buckets q))"

section \<open>The contract\<close>

text \<open>Tasks with a smaller key are delivered first.\<close>

definition delivery_key :: "TaskRef \<Rightarrow> nat" where
  "delivery_key t = 255 - unat (task_priority t)"

text \<open>Stable insertion: behind every element whose key is not greater.\<close>

fun insert_after :: "('a \<Rightarrow> 'k::linorder) \<Rightarrow> 'a \<Rightarrow> 'a list \<Rightarrow> 'a list" where
  "insert_after f t [] = [t]"
| "insert_after f t (x # xs) = (if f x \<le> f t then x # insert_after f t xs else t # x # xs)"

lemma insert_after_append:
  "(\<forall>x \<in> set xs. f x \<le> f t) \<Longrightarrow> (\<forall>y \<in> set ys. f t < f y) \<Longrightarrow>
   insert_after f t (xs @ ys) = xs @ t # ys"
  by (induction xs) (cases ys, auto)

lemma insort_insert_after:
  "sorted (map f xs) \<Longrightarrow> insort_key f a (insert_after f t xs) = insert_after f t (insort_key f a xs)"
proof (induction xs)
  case Nil
  then show ?case by (auto simp: not_le)
next
  case (Cons x xs)
  then show ?case by (cases "f x \<le> f t"; cases "f a \<le> f x") (auto dest: order_trans)
qed

lemma sort_key_snoc: "sort_key f (xs @ [t]) = insert_after f t (sort_key f xs)"
  by (induction xs) (simp_all add: insort_insert_after)

lemma length_insert_after [simp]: "length (insert_after f t xs) = Suc (length xs)"
  by (induction xs) auto

lemma set_insert_after [simp]: "set (insert_after f t xs) = insert t (set xs)"
  by (induction xs) auto

lemma insert_after_sorted: "sorted (map f xs) \<Longrightarrow> sorted (map f (insert_after f t xs))"
  by (induction xs) auto

text \<open>Popping up to \<open>n\<close> times, as a consumer that takes every task would.\<close>

fun drain :: "('q \<Rightarrow> ('a option \<times> 'q) result) \<Rightarrow> nat \<Rightarrow> 'q \<Rightarrow> ('a list \<times> 'q) result" where
  "drain pop 0 q = Inr ([], q)"
| "drain pop (Suc n) q =
     (case pop q of
        Inl e \<Rightarrow> Inl e
      | Inr (None, q') \<Rightarrow> Inr ([], q')
      | Inr (Some t, q') \<Rightarrow>
          (case drain pop n q' of Inl e \<Rightarrow> Inl e | Inr (ts, q'') \<Rightarrow> Inr (t # ts, q'')))"

locale stable_priority_queue =
  fixes empty :: 'q
    and push :: "'q \<Rightarrow> 'a \<Rightarrow> 'q"
    and pop :: "'q \<Rightarrow> ('a option \<times> 'q) result"
    and size_of :: "'q \<Rightarrow> nat"
    and key :: "'a \<Rightarrow> 'k::linorder"
    and invar :: "'q \<Rightarrow> bool"
    and order_list :: "'q \<Rightarrow> 'a list"
  assumes invar_empty: "invar empty"
    and list_empty: "order_list empty = []"
    and invar_push: "invar q \<Longrightarrow> invar (push q t)"
    and list_push: "invar q \<Longrightarrow> order_list (push q t) = insert_after key t (order_list q)"
    and pop_Nil: "invar q \<Longrightarrow> order_list q = [] \<Longrightarrow> pop q = Inr (None, q)"
    and pop_Cons: "invar q \<Longrightarrow> order_list q = t # ts \<Longrightarrow>
      \<exists>q'. pop q = Inr (Some t, q') \<and> invar q' \<and> order_list q' = ts"
    and size_list: "invar q \<Longrightarrow> size_of q = length (order_list q)"
begin

lemma invar_push_all: "invar q \<Longrightarrow> invar (foldl push q ts)"
  by (induction ts arbitrary: q) (auto simp: invar_push)

lemma list_push_all:
  assumes "invar q" "order_list q = sort_key key us"
  shows "order_list (foldl push q ts) = sort_key key (us @ ts)"
  using assms
proof (induction ts arbitrary: q us)
  case Nil
  then show ?case by simp
next
  case (Cons t ts)
  then have "order_list (foldl push (push q t) ts) = sort_key key ((us @ [t]) @ ts)"
    by (intro Cons.IH) (simp_all add: invar_push list_push sort_key_snoc del: sort_key_simps)
  then show ?case by simp
qed

lemma pop_never_fails:
  assumes "invar q"
  shows "\<exists>t q'. pop q = Inr (t, q') \<and> invar q'"
proof (cases "order_list q")
  case Nil
  then show ?thesis using assms pop_Nil by blast
next
  case (Cons t ts)
  then show ?thesis using pop_Cons [OF assms] by blast
qed

lemma drain_list:
  "invar q \<Longrightarrow> length (order_list q) \<le> n \<Longrightarrow>
   \<exists>q'. drain pop n q = Inr (order_list q, q') \<and> invar q' \<and> order_list q' = []"
proof (induction n arbitrary: q)
  case 0
  then show ?case by simp
next
  case (Suc n)
  show ?case
  proof (cases "order_list q")
    case Nil
    then show ?thesis using Suc.prems pop_Nil by simp
  next
    case (Cons t ts)
    obtain q' where q': "pop q = Inr (Some t, q')" "invar q'" "order_list q' = ts"
      using pop_Cons [OF Suc.prems(1) Cons] by blast
    then obtain q'' where "drain pop n q' = Inr (ts, q'')" "invar q''" "order_list q'' = []"
      using Suc.IH [of q'] Suc.prems(2) Cons by auto
    then show ?thesis using q'(1) Cons by simp
  qed
qed

lemma drain_push_all:
  "\<exists>q'. drain pop (length ts) (foldl push empty ts) = Inr (sort_key key ts, q') \<and> size_of q' = 0"
proof -
  have l: "order_list (foldl push empty ts) = sort_key key ts"
    using list_push_all [of empty "[]" ts] by (simp add: invar_empty list_empty)
  then obtain q' where "drain pop (length ts) (foldl push empty ts) = Inr (sort_key key ts, q')"
      "invar q'" "order_list q' = []"
    using drain_list [of "foldl push empty ts" "length ts"] invar_push_all [OF invar_empty] by auto
  then show ?thesis using size_list by auto
qed

end

section \<open>The bucket queue meets the contract\<close>

lemma pbq_invD:
  assumes "pbq_inv q"
  shows "length (buckets q) = 256" "length (bitmap q) = 4"
    "queue_len q = length (concat (buckets q))"
    "p < 256 \<Longrightarrow> bit (bitmap q ! (p div 64)) (p mod 64) = (buckets q ! p \<noteq> [])"
    "p < 256 \<Longrightarrow> t \<in> set (buckets q ! p) \<Longrightarrow> unat (task_priority t) = p"
  using assms by (auto simp: pbq_inv_def NUM_PRIORITIES_def)

lemma pbq_invI:
  assumes "length (buckets q) = 256" "length (bitmap q) = 4"
    "queue_len q = length (concat (buckets q))"
    "\<And>p. p < 256 \<Longrightarrow> bit (bitmap q ! (p div 64)) (p mod 64) = (buckets q ! p \<noteq> [])"
    "\<And>p t. p < 256 \<Longrightarrow> t \<in> set (buckets q ! p) \<Longrightarrow> unat (task_priority t) = p"
  shows "pbq_inv q"
  using assms by (auto simp: pbq_inv_def NUM_PRIORITIES_def)

lemma unat_u8_less [simp]: "unat (p :: u8) < 256"
  using unsigned_less [where 'a = nat, of p] by simp

lemma length_delivery: "length (delivery q) = length (concat (buckets q))"
  by (simp add: delivery_def length_concat rev_map [symmetric])

text \<open>The delivery list around one bucket.\<close>

lemma delivery_split:
  assumes "p < length bs"
  shows "concat (rev (bs[p := b])) = concat (rev (drop (Suc p) bs)) @ b @ concat (rev (take p bs))"
  using assms by (simp add: upd_conv_take_nth_drop)

lemma above_priority:
  assumes "pbq_inv q" "t \<in> set (concat (rev (drop (Suc p) (buckets q))))"
  shows "p < unat (task_priority t)"
proof -
  obtain b where "b \<in> set (drop (Suc p) (buckets q))" "t \<in> set b"
    using assms(2) by auto
  then obtain i where "i < length (buckets q) - Suc p" "t \<in> set (buckets q ! (Suc p + i))"
    by (auto simp: in_set_conv_nth [of b])
  moreover from this have "Suc p + i < length (buckets q)" by linarith
  ultimately show ?thesis using pbq_invD(1) [OF assms(1)] pbq_invD(5) [OF assms(1), of "Suc p + i" t] by simp
qed

lemma below_priority:
  assumes "pbq_inv q" "t \<in> set (concat (rev (take p (buckets q))))"
  shows "unat (task_priority t) < p"
proof -
  obtain b where "b \<in> set (take p (buckets q))" "t \<in> set b"
    using assms(2) by auto
  then obtain i where "i < length (buckets q)" "i < p" "t \<in> set (buckets q ! i)"
    by (auto simp: in_set_conv_nth [of b])
  then show ?thesis using pbq_invD(1,5) [OF assms(1)] by fastforce
qed

lemma delivery_key_less:
  "delivery_key s < delivery_key t \<longleftrightarrow> unat (task_priority t) < unat (task_priority s)"
  unfolding delivery_key_def
  using unat_u8_less [of "task_priority s"] unat_u8_less [of "task_priority t"] by linarith

lemma delivery_key_le:
  "delivery_key s \<le> delivery_key t \<longleftrightarrow> unat (task_priority t) \<le> unat (task_priority s)"
  using delivery_key_less [of t s] by linarith

lemma delivery_push:
  assumes "pbq_inv q"
  shows "delivery (pbq_push q t) = insert_after delivery_key t (delivery q)"
proof -
  let ?p = "unat (task_priority t)" and ?bs = "buckets q"
  let ?hi = "concat (rev (drop (Suc ?p) ?bs))" and ?lo = "concat (rev (take ?p ?bs))"
  have p: "?p < length ?bs" using pbq_invD(1) [OF assms] by simp
  have "delivery (pbq_push q t) = ?hi @ (?bs ! ?p @ [t]) @ ?lo"
    by (simp add: delivery_def pbq_push_def Let_def delivery_split [OF p])
  moreover have "delivery q = (?hi @ ?bs ! ?p) @ ?lo"
    using delivery_split [OF p, of "?bs ! ?p"] by (simp add: delivery_def)
  moreover have "insert_after delivery_key t ((?hi @ ?bs ! ?p) @ ?lo) = (?hi @ ?bs ! ?p) @ t # ?lo"
  proof (rule insert_after_append; intro ballI)
    fix x assume "x \<in> set (?hi @ ?bs ! ?p)"
    then consider "x \<in> set ?hi" | "x \<in> set (?bs ! ?p)" by (simp only: set_append Un_iff) blast
    then show "delivery_key x \<le> delivery_key t"
    proof cases
      case 1
      then show ?thesis using above_priority [OF assms] by (simp only: delivery_key_le less_imp_le)
    next
      case 2
      then show ?thesis using pbq_invD(5) [OF assms, of ?p x] by (simp add: delivery_key_le)
    qed
  next
    fix y assume "y \<in> set ?lo"
    then show "delivery_key t < delivery_key y"
      using below_priority [OF assms] by (simp only: delivery_key_less)
  qed
  ultimately show ?thesis by simp
qed

lemma bit_set_iff: "j < 64 \<Longrightarrow> bit (w OR 2 ^ k :: u64) j \<longleftrightarrow> bit w j \<or> j = k"
  by (auto simp: bit_simps)

lemma bit_clear_iff: "j < 64 \<Longrightarrow> bit (w AND NOT (2 ^ k) :: u64) j \<longleftrightarrow> bit w j \<and> j \<noteq> k"
  by (auto simp: bit_simps)

lemma div_mod_64_eq: "p div 64 = q div 64 \<Longrightarrow> p mod 64 = q mod 64 \<Longrightarrow> p = (q :: nat)"
  by (metis div_mult_mod_eq)

text \<open>Setting and clearing one of the 256 bits changes that bit only.\<close>

lemma bitmap_set:
  assumes "length bm = 4" "p < 256" "r < 256"
  shows "bit ((bm[p div 64 := bm ! (p div 64) OR 2 ^ (p mod 64)] ! (r div 64)) :: u64) (r mod 64)
    \<longleftrightarrow> bit (bm ! (r div 64)) (r mod 64) \<or> r = p"
proof -
  have "p div 64 < 4" using assms(2) by simp
  then show ?thesis
    using assms(1) div_mod_64_eq [of p r] by (auto simp: nth_list_update bit_set_iff)
qed

lemma bitmap_clear:
  assumes "length bm = 4" "p < 256" "r < 256"
  shows "bit ((bm[p div 64 := bm ! (p div 64) AND NOT (2 ^ (p mod 64))] ! (r div 64)) :: u64) (r mod 64)
    \<longleftrightarrow> bit (bm ! (r div 64)) (r mod 64) \<and> r \<noteq> p"
proof -
  have "p div 64 < 4" using assms(2) by simp
  then show ?thesis
    using assms(1) div_mod_64_eq [of p r] by (auto simp: nth_list_update bit_clear_iff)
qed

lemma length_concat_update:
  "p < length bs \<Longrightarrow> length (concat (bs[p := b])) + length (bs ! p) = length (concat bs) + length b"
proof -
  assume p: "p < length bs"
  then have "concat bs = concat (take p bs) @ bs ! p @ concat (drop (Suc p) bs)"
    by (metis id_take_nth_drop concat_append concat.simps(2))
  then show ?thesis using p by (simp add: upd_conv_take_nth_drop)
qed

lemma pbq_inv_push:
  assumes "pbq_inv q"
  shows "pbq_inv (pbq_push q t)"
proof (rule pbq_invI)
  note inv = pbq_invD [OF assms]
  let ?p = "unat (task_priority t)"
  show "queue_len (pbq_push q t) = length (concat (buckets (pbq_push q t)))"
    using length_concat_update [of ?p "buckets q" "buckets q ! ?p @ [t]"] inv
    by (simp add: pbq_push_def Let_def)
  fix r :: nat assume r: "r < 256"
  then show "bit (bitmap (pbq_push q t) ! (r div 64)) (r mod 64) = (buckets (pbq_push q t) ! r \<noteq> [])"
    using inv(1,2,4) by (simp add: pbq_push_def Let_def nth_list_update bitmap_set)
next
  fix r t' assume "r < 256" "t' \<in> set (buckets (pbq_push q t) ! r)"
  then show "unat (task_priority t') = r"
    using pbq_invD [OF assms] by (auto simp: pbq_push_def Let_def nth_list_update split: if_splits)
qed (use pbq_invD [OF assms] in \<open>simp_all add: pbq_push_def Let_def\<close>)

text \<open>\<open>63 - leading_zeros\<close> is the highest set bit of a non-zero word.\<close>

lemma highest_bit:
  assumes "w \<noteq> 0"
  shows "leading_zeros w < 64" "bit w (63 - leading_zeros w)"
    "63 - leading_zeros w < j \<Longrightarrow> \<not> bit w j"
proof -
  let ?xs = "rev (map (bit w) [0..<64])"
  let ?k = "leading_zeros w"
  have nth: "\<And>j. j < 64 \<Longrightarrow> ?xs ! j = bit w (63 - j)"
    by (simp add: rev_nth)
  obtain b where b: "bit w b" using assms bit_eq_iff [of w 0] by auto
  then have "b < 64" using bit_imp_le_length [of w b] by simp
  then have "\<exists>x \<in> set ?xs. \<not> Not x" using b by auto
  then have lt: "?k < length ?xs"
    unfolding leading_zeros_def by (rule length_takeWhile_less)
  then show k: "?k < 64" by simp
  have "\<not> Not (?xs ! ?k)"
    using lt unfolding leading_zeros_def by (rule nth_length_takeWhile)
  then show "bit w (63 - ?k)" using nth [OF k] by simp
  show "\<not> bit w j" if "63 - ?k < j"
  proof
    assume j: "bit w j"
    then have "j < 64" using bit_imp_le_length [of w j] by simp
    then have "63 - j < ?k" using that by simp
    then have "?xs ! (63 - j) \<in> set (takeWhile Not ?xs)"
      unfolding leading_zeros_def by (metis nth_mem takeWhile_nth)
    then have "\<not> ?xs ! (63 - j)" by (rule set_takeWhileD [THEN conjunct2])
    then show False using nth [of "63 - j"] \<open>j < 64\<close> j by simp
  qed
qed

lemma bit_word_bound: "bit (w :: u64) j \<Longrightarrow> j < 64"
  using bit_imp_le_length [of w j] by simp

lemma word_zero_no_bits: "(w :: u64) = 0 \<longleftrightarrow> (\<forall>j < 64. \<not> bit w j)"
  using bit_eq_iff [of w 0] bit_word_bound [of w] by auto

text \<open>
  The scan: if every bucket of the words it has left behind is empty, it finds the highest
  non-empty bucket, and takes the head of that bucket.
\<close>

definition take_head :: "nat \<Rightarrow> TaskRef list \<Rightarrow> PriorityBucketQueue \<Rightarrow> PriorityBucketQueue" where
  "take_head p rest q =
     \<lparr>buckets = (buckets q)[p := rest],
      bitmap = (if rest = [] then (bitmap q)[p div 64 := bitmap q ! (p div 64) AND NOT (2 ^ (p mod 64))]
                else bitmap q),
      queue_len = queue_len q - 1\<rparr>"

lemma pop_scan_result:
  assumes inv: "pbq_inv q" and "n \<le> 4" and "\<And>p. 64 * n \<le> p \<Longrightarrow> p < 256 \<Longrightarrow> buckets q ! p = []"
  shows "(pbq_pop_scan (rev [0..<n]) q = Inr (None, q) \<and> (\<forall>p < 256. buckets q ! p = [])) \<or>
    (\<exists>p t rest. p < 256 \<and> buckets q ! p = t # rest \<and> (\<forall>r. p < r \<longrightarrow> r < 256 \<longrightarrow> buckets q ! r = []) \<and>
       pbq_pop_scan (rev [0..<n]) q = Inr (Some t, take_head p rest q))"
  using assms(2,3)
proof (induction n)
  case 0
  then show ?case by simp
next
  case (Suc n)
  note i = pbq_invD [OF inv]
  let ?w = "bitmap q ! n"
  have bits: "bit ?w j = (buckets q ! (64 * n + j) \<noteq> [])" if "j < 64" for j
    using i(4) [of "64 * n + j"] that Suc.prems(1) by simp
  show ?case
  proof (cases "?w = 0")
    case True
    have "buckets q ! p = []" if "64 * n \<le> p" "p < 256" for p
    proof (cases "64 * Suc n \<le> p")
      case True
      then show ?thesis using Suc.prems(2) that by simp
    next
      case False
      then show ?thesis using bits [of "p - 64 * n"] that \<open>?w = 0\<close> by simp
    qed
    then show ?thesis using Suc.IH Suc.prems(1) True by simp
  next
    case False
    let ?b = "63 - leading_zeros ?w"
    let ?p = "64 * n + ?b"
    have b: "?b < 64" by linarith
    have p: "?p < 256" "?p div 64 = n" "?p mod 64 = ?b" using Suc.prems(1) by auto
    obtain t rest where tr: "buckets q ! ?p = t # rest"
      using bits [OF b] highest_bit(2) [OF False] by (cases "buckets q ! ?p") auto
    have "buckets q ! r = []" if r: "?p < r" "r < 256" for r
    proof (cases "64 * Suc n \<le> r")
      case True
      then show ?thesis using Suc.prems(2) r by simp
    next
      case False
      then show ?thesis using bits [of "r - 64 * n"] highest_bit(3) [OF \<open>?w \<noteq> 0\<close>, of "r - 64 * n"] r by simp
    qed
    moreover have "pbq_pop_scan (rev [0..<Suc n]) q = Inr (Some t, take_head ?p rest q)"
      using False tr p by (simp add: Let_def take_head_def mult.commute)
    ultimately show ?thesis using p(1) tr by blast
  qed
qed

lemma pbq_inv_take_head:
  assumes inv: "pbq_inv q" and p: "p < 256" and b: "buckets q ! p = t # rest"
  shows "pbq_inv (take_head p rest q)"
proof (rule pbq_invI)
  note i = pbq_invD [OF inv]
  show "queue_len (take_head p rest q) = length (concat (buckets (take_head p rest q)))"
    using length_concat_update [of p "buckets q" rest] i(1,3) p b by (simp add: take_head_def)
  fix r :: nat assume r: "r < 256"
  show "bit (bitmap (take_head p rest q) ! (r div 64)) (r mod 64) = (buckets (take_head p rest q) ! r \<noteq> [])"
    using i(1,4) p r b bitmap_clear [OF i(2) p r]
    by (cases "rest = []"; cases "r = p") (simp_all add: take_head_def)
next
  fix r t' assume "r < 256" "t' \<in> set (buckets (take_head p rest q) ! r)"
  then show "unat (task_priority t') = r"
    using pbq_invD(1,5) [OF inv] p b by (cases "r = p") (auto simp: take_head_def nth_list_update)
qed (use pbq_invD [OF inv] in \<open>simp_all add: take_head_def\<close>)

lemma concat_Nil: "(\<And>x. x \<in> set xs \<Longrightarrow> x = []) \<Longrightarrow> concat xs = []"
  by (induction xs) auto

lemma delivery_empty_above:
  assumes inv: "pbq_inv q" and p: "p < 256" and above: "\<And>r. p < r \<Longrightarrow> r < 256 \<Longrightarrow> buckets q ! r = []"
  shows "concat (rev ((buckets q)[p := b])) = b @ concat (rev (take p (buckets q)))"
proof -
  have "concat (rev (drop (Suc p) (buckets q))) = []"
  proof (rule concat_Nil)
    fix x assume "x \<in> set (rev (drop (Suc p) (buckets q)))"
    then obtain i where "i < length (buckets q) - Suc p" "x = buckets q ! (Suc p + i)"
      by (auto simp: in_set_conv_nth)
    then show "x = []" using above [of "Suc p + i"] pbq_invD(1) [OF inv] by simp
  qed
  then show ?thesis using delivery_split [of p "buckets q" b] p pbq_invD(1) [OF inv] by simp
qed

lemma pbq_pop_cases:
  assumes inv: "pbq_inv q"
  shows "(delivery q = [] \<and> pbq_pop q = Inr (None, q)) \<or>
    (\<exists>t q'. pbq_pop q = Inr (Some t, q') \<and> pbq_inv q' \<and> delivery q = t # delivery q')"
proof -
  have "(pbq_pop q = Inr (None, q) \<and> (\<forall>p < 256. buckets q ! p = [])) \<or>
    (\<exists>p t rest. p < 256 \<and> buckets q ! p = t # rest \<and> (\<forall>r. p < r \<longrightarrow> r < 256 \<longrightarrow> buckets q ! r = []) \<and>
       pbq_pop q = Inr (Some t, take_head p rest q))"
    unfolding pbq_pop_def by (rule pop_scan_result [OF inv]) simp_all
  then consider "pbq_pop q = Inr (None, q)" "\<forall>p < 256. buckets q ! p = []"
    | p t rest where "p < 256" "buckets q ! p = t # rest" "\<forall>r. p < r \<longrightarrow> r < 256 \<longrightarrow> buckets q ! r = []"
        "pbq_pop q = Inr (Some t, take_head p rest q)"
    by blast
  then show ?thesis
  proof cases
    case 1
    then have "concat (rev (buckets q)) = []"
      using pbq_invD(1) [OF inv] by (intro concat_Nil) (auto simp: in_set_conv_nth)
    then show ?thesis using 1 by (simp add: delivery_def)
  next
    case 2
    note d = delivery_empty_above [OF inv 2(1) 2(3) [rule_format]]
    have "delivery q = (t # rest) @ concat (rev (take p (buckets q)))"
      using d [of "t # rest"] 2(2) by (simp add: delivery_def list_update_same_conv [THEN iffD2] pbq_invD(1) [OF inv] 2(1))
    moreover have "delivery (take_head p rest q) = rest @ concat (rev (take p (buckets q)))"
      using d [of rest] by (simp add: delivery_def take_head_def)
    ultimately show ?thesis using 2(4) pbq_inv_take_head [OF inv 2(1,2)] by auto
  qed
qed

lemma pbq_inv_new: "pbq_inv pbq_new"
  by (rule pbq_invI) (simp_all add: pbq_new_def NUM_PRIORITIES_def)

interpretation bq: stable_priority_queue pbq_new pbq_push pbq_pop pbq_len delivery_key pbq_inv delivery
proof unfold_locales
  show "pbq_inv pbq_new" by (rule pbq_inv_new)
  show "delivery pbq_new = []" by (simp add: delivery_def pbq_new_def concat_Nil)
  fix q t assume "pbq_inv q"
  then show "pbq_inv (pbq_push q t)" by (rule pbq_inv_push)
next
  fix q t assume "pbq_inv q"
  then show "delivery (pbq_push q t) = insert_after delivery_key t (delivery q)" by (rule delivery_push)
next
  fix q assume "pbq_inv q" "delivery q = []"
  then show "pbq_pop q = Inr (None, q)" using pbq_pop_cases by fastforce
next
  fix q t ts assume "pbq_inv q" "delivery q = t # ts"
  then show "\<exists>q'. pbq_pop q = Inr (Some t, q') \<and> pbq_inv q' \<and> delivery q' = ts"
    using pbq_pop_cases [of q] by auto
next
  fix q assume "pbq_inv q"
  then show "pbq_len q = length (delivery q)" by (simp add: pbq_len_def length_delivery pbq_invD(3))
qed

section \<open>Properties\<close>

text \<open>
  Every operation keeps the queue well-formed: \<open>new\<close>, \<open>push\<close> and \<open>clear\<close> produce a
  well-formed queue, and \<open>pop\<close> of a well-formed queue neither panics (the
  \<open>expect\<close> on a bucket whose bit is set always succeeds) nor breaks it.
\<close>

theorem bucket_queue_well_formed:
  "pbq_inv pbq_new \<and>
   (pbq_inv q \<longrightarrow> pbq_inv (pbq_push q t) \<and> pbq_inv (pbq_clear q) \<and>
      (\<exists>r q'. pbq_pop q = Inr (r, q') \<and> pbq_inv q'))"
proof -
  have "pbq_inv (pbq_clear q)" if "pbq_inv q"
    using pbq_invD [OF that] by (intro pbq_invI) (simp_all add: pbq_clear_def concat_Nil)
  then show ?thesis
    using bq.invar_empty bq.invar_push bq.pop_never_fails by blast
qed

theorem bucket_queue_well_formed_witness:
  "pbq_inv (pbq_push pbq_new (task_ref 1 255 0)) \<and> pbq_inv (pbq_clear pbq_new) \<and>
   (\<exists>r q'. pbq_pop pbq_new = Inr (r, q') \<and> pbq_inv q')"
  using bucket_queue_well_formed [of pbq_new "task_ref 1 255 0"] by blast

text \<open>
  C30. The buckets and the bitmap implement a stable priority list: \<open>push\<close> inserts a task
  behind every task of the same or a higher priority, \<open>pop\<close> takes the first task of the
  list and answers \<open>None\<close> exactly when the list is empty, and \<open>len\<close> is its length.
\<close>

theorem bucket_queue_refines_priority_list:
  assumes "pbq_inv q"
  shows "delivery (pbq_push q t) = insert_after delivery_key t (delivery q) \<and>
    (case delivery q of
       [] \<Rightarrow> pbq_pop q = Inr (None, q)
     | u # us \<Rightarrow> (\<exists>q'. pbq_pop q = Inr (Some u, q') \<and> pbq_inv q' \<and> delivery q' = us)) \<and>
    pbq_len q = length (delivery q)"
  using bq.list_push [OF assms] bq.pop_Nil [OF assms] bq.pop_Cons [OF assms] bq.size_list [OF assms]
  by (auto split: list.split)

theorem bucket_queue_refines_priority_list_witness:
  "delivery (pbq_push (pbq_push pbq_new (task_ref 1 64 0)) (task_ref 2 255 0)) =
     [task_ref 2 255 0, task_ref 1 64 0]"
proof -
  have inv: "pbq_inv (pbq_push pbq_new (task_ref 1 64 0))"
    by (intro bq.invar_push bq.invar_empty)
  have "delivery (pbq_push pbq_new (task_ref 1 64 0)) = [task_ref 1 64 0]"
    by (simp add: bq.list_push bq.invar_empty bq.list_empty)
  then show ?thesis
    using bucket_queue_refines_priority_list [OF inv, of "task_ref 2 255 0"]
    by (simp add: delivery_key_def task_ref_def)
qed

text \<open>
  Scheduling order: pushing any list of tasks into a new queue and popping them all
  returns the tasks by descending priority, first pushed first among equals (the stable
  sort of the list), and leaves the queue empty.
\<close>

theorem drain_is_stable_sort:
  "\<exists>q'. drain pbq_pop (length ts) (foldl pbq_push pbq_new ts) =
     Inr (sort_key (\<lambda>t. 255 - unat (task_priority t)) ts, q') \<and> pbq_is_empty q'"
  using bq.drain_push_all [of ts]
  by (simp add: delivery_key_def [abs_def] pbq_is_empty_def pbq_len_def)

end
