(* ===== verification/Payload_Cache.thy ===== *)
theory Payload_Cache
  imports Nesso_Prelude
begin

text \<open>
  The in-memory payload cache, \<open>src/src/storage/payload_cache.rs\<close>: a map of bounded size
  with a FIFO queue of insertions that decides what is evicted. \<open>Arc<Vec<u8>>\<close> is shared
  immutable data, so it is the byte list itself. What the engine relies on is the locale
  \<open>lossy_store\<close>: a lookup may forget, but it never answers with anything but the last
  value stored under that key.
\<close>

section \<open>The cache\<close>

definition DEFAULT_PAYLOAD_CACHE_CAPACITY :: nat where
  "DEFAULT_PAYLOAD_CACHE_CAPACITY = 10000"

record PayloadCache =
  cache_capacity :: nat
  cache_entries :: "(u64, bytes) hmap"
  cache_order :: "u64 list"
  cache_hits :: u64
  cache_misses :: u64
  cache_evictions :: u64

definition cache_new :: "nat \<Rightarrow> PayloadCache" where
  "cache_new capacity =
     \<lparr>cache_capacity = capacity, cache_entries = [], cache_order = [],
      cache_hits = 0, cache_misses = 0, cache_evictions = 0\<rparr>"

definition cache_get :: "PayloadCache \<Rightarrow> u64 \<Rightarrow> bytes option \<times> PayloadCache" where
  "cache_get c i =
     (case hm_get (cache_entries c) i of
        Some payload \<Rightarrow> (Some payload, c\<lparr>cache_hits := cache_hits c + 1\<rparr>)
      | None \<Rightarrow> (None, c\<lparr>cache_misses := cache_misses c + 1\<rparr>))"

text \<open>
  The eviction loop: while there are too many entries, pop the oldest key; the first key
  that still has an entry loses it and ends the loop.
\<close>

fun cache_evict :: "nat \<Rightarrow> (u64, bytes) hmap \<Rightarrow> u64 list \<Rightarrow> u64 \<Rightarrow> (u64, bytes) hmap \<times> u64 list \<times> u64" where
  "cache_evict cap entries [] evictions = (entries, [], evictions)"
| "cache_evict cap entries (oldest_id # order) evictions =
     (if length entries > cap then
        if hm_contains entries oldest_id
        then (hm_remove oldest_id entries, order, evictions + 1)
        else cache_evict cap entries order evictions
      else (entries, oldest_id # order, evictions))"

definition cache_insert :: "PayloadCache \<Rightarrow> u64 \<Rightarrow> bytes \<Rightarrow> PayloadCache" where
  "cache_insert c i payload =
     (if cache_capacity c = 0 then c
      else
        let order = (if hm_contains (cache_entries c) i then cache_order c else cache_order c @ [i]);
            entries = hm_insert i payload (cache_entries c);
            (entries, order, evictions) = cache_evict (cache_capacity c) entries order (cache_evictions c);
            order = (if length order > cache_capacity c * 2
                     then filter (hm_contains entries) order else order)
        in c\<lparr>cache_entries := entries, cache_order := order, cache_evictions := evictions\<rparr>)"

definition cache_remove :: "PayloadCache \<Rightarrow> u64 \<Rightarrow> bytes option \<times> PayloadCache" where
  "cache_remove c i =
     (hm_get (cache_entries c) i, c\<lparr>cache_entries := hm_remove i (cache_entries c)\<rparr>)"

definition cache_clear :: "PayloadCache \<Rightarrow> PayloadCache" where
  "cache_clear c = c\<lparr>cache_entries := [], cache_order := []\<rparr>"

definition cache_len :: "PayloadCache \<Rightarrow> nat" where
  "cache_len c = length (cache_entries c)"

definition cache_stats :: "PayloadCache \<Rightarrow> u64 \<times> u64 \<times> u64" where
  "cache_stats c = (cache_hits c, cache_misses c, cache_evictions c)"

text \<open>
  Well-formedness: one entry per key, at most \<open>capacity\<close> of them, and every key with an
  entry still in the eviction queue.
\<close>

definition cache_inv :: "PayloadCache \<Rightarrow> bool" where
  "cache_inv c =
     (hm_ok (cache_entries c) \<and> length (cache_entries c) \<le> cache_capacity c \<and>
      (\<forall>k \<in> set (hm_keys (cache_entries c)). k \<in> set (cache_order c)))"

section \<open>The contract\<close>

locale lossy_store =
  fixes lookup :: "'c \<Rightarrow> 'k \<Rightarrow> 'v option"
    and ins :: "'c \<Rightarrow> 'k \<Rightarrow> 'v \<Rightarrow> 'c"
    and del :: "'c \<Rightarrow> 'k \<Rightarrow> 'c"
    and ok :: "'c \<Rightarrow> bool"
  assumes ok_ins: "ok c \<Longrightarrow> ok (ins c k v)"
    and ok_del: "ok c \<Longrightarrow> ok (del c k)"
    and lookup_ins: "ok c \<Longrightarrow> lookup (ins c k v) k' = Some w \<Longrightarrow>
      (if k' = k then w = v else lookup c k' = Some w)"
    and lookup_del: "ok c \<Longrightarrow> lookup (del c k) k' = (if k' = k then None else lookup c k')"
begin

text \<open>The cache agrees with a map of the true values wherever it answers.\<close>

definition coherent :: "'c \<Rightarrow> ('k \<Rightarrow> 'v option) \<Rightarrow> bool" where
  "coherent c m \<longleftrightarrow> ok c \<and> (\<forall>k v. lookup c k = Some v \<longrightarrow> m k = Some v)"

lemma coherentD: "coherent c m \<Longrightarrow> lookup c k = Some v \<Longrightarrow> m k = Some v"
  by (simp add: coherent_def)

lemma coherent_ins: "coherent c m \<Longrightarrow> coherent (ins c k v) (m(k \<mapsto> v))"
  by (auto simp: coherent_def ok_ins dest: lookup_ins split: if_splits)

lemma coherent_del: "coherent c m \<Longrightarrow> coherent (del c k) (m(k := None))"
  by (auto simp: coherent_def ok_del lookup_del split: if_splits)

lemma coherent_mono: "coherent c m \<Longrightarrow> m \<subseteq>\<^sub>m m' \<Longrightarrow> coherent c m'"
  by (auto simp: coherent_def map_le_def dom_def)

end

section \<open>The cache meets the contract\<close>

abbreviation cache_lookup :: "PayloadCache \<Rightarrow> u64 \<Rightarrow> bytes option" where
  "cache_lookup c i \<equiv> hm_get (cache_entries c) i"

text \<open>The loop removes nothing, or exactly the entry whose key is the oldest with an entry.\<close>

lemma evict_spec:
  assumes "set (hm_keys es) \<subseteq> set os" "length es \<le> Suc cap"
  shows "(length es \<le> cap \<and> cache_evict cap es os ev = (es, os, ev)) \<or>
    (\<exists>pre k post. length es = Suc cap \<and> os = pre @ k # post \<and> hm_contains es k \<and>
       (\<forall>x \<in> set pre. \<not> hm_contains es x) \<and>
       cache_evict cap es os ev = (hm_remove k es, post, ev + 1))"
  using assms
proof (induction os)
  case Nil
  then show ?case by (auto simp: hm_keys_def)
next
  case (Cons oldest os)
  show ?case
  proof (cases "length es > cap \<and> \<not> hm_contains es oldest")
    case True
    then have "set (hm_keys es) \<subseteq> set os"
      using Cons.prems(1) by (auto simp: hm_contains_iff hm_keys_def)
    with Cons.IH Cons.prems(2) True obtain pre k post where "length es = Suc cap" "os = pre @ k # post"
      "hm_contains es k" "\<forall>x \<in> set pre. \<not> hm_contains es x"
      "cache_evict cap es os ev = (hm_remove k es, post, ev + 1)"
      by auto
    with True show ?thesis by (intro disjI2 exI [of _ "oldest # pre"] exI [of _ k] exI [of _ post]) auto
  next
    case False
    then show ?thesis using Cons.prems(2) by fastforce
  qed
qed

lemma cache_inv_new: "cache_inv (cache_new n)"
  by (simp add: cache_inv_def cache_new_def hm_keys_def)

lemma cache_inv_get: "cache_inv c \<Longrightarrow> cache_inv (snd (cache_get c i))"
  by (simp add: cache_inv_def cache_get_def split: option.split)

lemma cache_inv_remove: "cache_inv c \<Longrightarrow> cache_inv (snd (cache_remove c i))"
  by (auto simp: cache_inv_def cache_remove_def hm_keys_remove length_hm_remove)

lemma cache_inv_clear: "cache_inv c \<Longrightarrow> cache_inv (cache_clear c)"
  by (simp add: cache_inv_def cache_clear_def hm_keys_def)

lemma cache_get_lookup [simp]: "fst (cache_get c i) = cache_lookup c i"
  by (simp add: cache_get_def split: option.split)

lemma cache_get_entries [simp]: "cache_entries (snd (cache_get c i)) = cache_entries c"
  by (simp add: cache_get_def split: option.split)

text \<open>What \<open>insert\<close> leaves in the cache, in one place.\<close>

abbreviation ins_order :: "PayloadCache \<Rightarrow> u64 \<Rightarrow> u64 list" where
  "ins_order c i \<equiv> (if hm_contains (cache_entries c) i then cache_order c else cache_order c @ [i])"

abbreviation ins_entries :: "PayloadCache \<Rightarrow> u64 \<Rightarrow> bytes \<Rightarrow> (u64, bytes) hmap" where
  "ins_entries c i v \<equiv> hm_insert i v (cache_entries c)"

lemma cache_insert_cases [consumes 2, case_names keep evict]:
  assumes "cache_inv c" "0 < cache_capacity c"
  obtains "length (ins_entries c i v) \<le> cache_capacity c"
      "cache_entries (cache_insert c i v) = ins_entries c i v"
      "cache_order (cache_insert c i v) =
         (if length (ins_order c i) > cache_capacity c * 2
          then filter (hm_contains (ins_entries c i v)) (ins_order c i) else ins_order c i)"
  | pre k post where "length (ins_entries c i v) = Suc (cache_capacity c)"
      "ins_order c i = pre @ k # post" "hm_contains (ins_entries c i v) k"
      "\<forall>x \<in> set pre. \<not> hm_contains (ins_entries c i v) x"
      "cache_entries (cache_insert c i v) = hm_remove k (ins_entries c i v)"
      "cache_order (cache_insert c i v) =
         (if length post > cache_capacity c * 2
          then filter (hm_contains (hm_remove k (ins_entries c i v))) post else post)"
proof -
  define os es where "os = ins_order c i" and "es = ins_entries c i v"
  have "set (hm_keys es) \<subseteq> set os"
    using assms(1) by (auto simp: es_def os_def cache_inv_def hm_keys_insert hm_contains_keys)
  moreover have "length es \<le> Suc (cache_capacity c)"
    using assms(1) by (simp add: es_def cache_inv_def length_hm_insert)
  moreover have "cache_insert c i v =
      (let (entries, order, evictions) = cache_evict (cache_capacity c) es os (cache_evictions c)
       in c\<lparr>cache_entries := entries,
            cache_order := if length order > cache_capacity c * 2 then filter (hm_contains entries) order else order,
            cache_evictions := evictions\<rparr>)"
    using assms(2) by (simp add: cache_insert_def Let_def es_def os_def)
  ultimately show ?thesis
    using evict_spec [of es os "cache_capacity c" "cache_evictions c"] that
    unfolding es_def [symmetric] os_def [symmetric] by auto
qed

lemma cache_insert_capacity [simp]: "cache_capacity (cache_insert c i v) = cache_capacity c"
  by (simp add: cache_insert_def Let_def split: prod.split)

lemma cache_insert_zero: "cache_capacity c = 0 \<Longrightarrow> cache_insert c i v = c"
  by (simp add: cache_insert_def)

lemma cache_inv_insert:
  assumes inv: "cache_inv c"
  shows "cache_inv (cache_insert c i v)"
proof (cases "cache_capacity c = 0")
  case True
  then show ?thesis using inv by (simp add: cache_insert_zero)
next
  case False
  note ok = inv [unfolded cache_inv_def]
  let ?es = "ins_entries c i v" and ?os = "ins_order c i"
  have sub: "\<forall>x. hm_contains ?es x \<longrightarrow> x \<in> set ?os"
    using ok by (auto simp: hm_contains_keys hm_keys_insert)
  from inv False [THEN neq0_conv [THEN iffD1]] show ?thesis
  proof (cases rule: cache_insert_cases [where i = i and v = v])
    case keep
    then show ?thesis using ok sub by (simp add: cache_inv_def hm_contains_keys [symmetric])
  next
    case (evict pre k post)
    have "x \<in> set post" if "hm_contains (hm_remove k ?es) x" for x
    proof -
      have "hm_contains ?es x" "x \<noteq> k"
        using that by (auto simp: hm_contains_def split: if_splits)
      moreover from this have "x \<in> set (pre @ k # post)"
        using sub [rule_format, of x] unfolding evict(2) by blast
      ultimately show ?thesis using evict(4) by auto
    qed
    moreover have "length (hm_remove k ?es) \<le> cache_capacity c"
      using evict(1,3) ok by (simp add: length_hm_remove)
    ultimately show ?thesis
      using evict(5,6) ok by (simp add: cache_inv_def hm_contains_keys [symmetric])
  qed
qed

lemma cache_lookup_insert:
  assumes inv: "cache_inv c" and l: "cache_lookup (cache_insert c i v) k = Some w"
  shows "if k = i then w = v else cache_lookup c k = Some w"
proof (cases "cache_capacity c = 0")
  case True
  then show ?thesis using inv l by (simp add: cache_insert_zero cache_inv_def)
next
  case False
  from inv False [THEN neq0_conv [THEN iffD1]] show ?thesis
    by (cases rule: cache_insert_cases [where i = i and v = v]) (use l in \<open>auto split: if_splits\<close>)
qed

text \<open>An id never seen by the cache is retrievable right after its insertion.\<close>

lemma cache_lookup_insert_fresh:
  assumes inv: "cache_inv c" and "0 < cache_capacity c" and fresh: "i \<notin> set (cache_order c)"
  shows "cache_lookup (cache_insert c i v) i = Some v"
proof -
  let ?es = "ins_entries c i v"
  have nc: "\<not> hm_contains (cache_entries c) i"
    using inv fresh by (auto simp: cache_inv_def hm_contains_keys)
  from inv assms(2) show ?thesis
  proof (cases rule: cache_insert_cases [where i = i and v = v])
    case keep
    then show ?thesis by simp
  next
    case (evict pre k post)
    have "length (cache_entries c) \<noteq> 0"
      using evict(1) assms(2) nc by (simp add: length_hm_insert)
    then obtain j w where j: "(j, w) \<in> set (cache_entries c)" by (cases "cache_entries c") auto
    then have jc: "hm_contains (cache_entries c) j" by (force simp: hm_contains_iff)
    then have "j \<in> set (cache_order c)" "hm_contains ?es j"
      using inv by (auto simp: cache_inv_def hm_contains_keys hm_keys_insert)
    then have "k \<noteq> i"
      using evict(2,4) nc fresh by (auto simp: append_eq_append_conv2 Cons_eq_append_conv append_eq_Cons_conv)
    then show ?thesis using evict(5) by simp
  qed
qed

interpretation pc: lossy_store cache_lookup cache_insert "\<lambda>c i. snd (cache_remove c i)" cache_inv
proof unfold_locales
  fix c k v k' w assume "cache_inv c" "cache_lookup (cache_insert c k v) k' = Some w"
  then show "if k' = k then w = v else cache_lookup c k' = Some w" by (rule cache_lookup_insert)
next
  fix c k k' assume "cache_inv c"
  then show "cache_lookup (snd (cache_remove c k)) k' = (if k' = k then None else cache_lookup c k')"
    by (simp add: cache_remove_def)
qed (simp_all add: cache_inv_insert cache_inv_remove)

lemma cache_insert_order:
  assumes inv: "cache_inv c" and d: "distinct (cache_order c)" and fresh: "i \<notin> set (cache_order c)"
    and len: "length (cache_order c) \<le> 2 * cache_capacity c"
  shows "distinct (cache_order (cache_insert c i v)) \<and>
    set (cache_order (cache_insert c i v)) \<subseteq> insert i (set (cache_order c)) \<and>
    length (cache_order (cache_insert c i v)) \<le> 2 * cache_capacity c"
proof (cases "cache_capacity c = 0")
  case True
  then show ?thesis using d len by (auto simp: cache_insert_zero)
next
  case False
  have os: "ins_order c i = cache_order c @ [i]"
    using inv fresh by (auto simp: cache_inv_def hm_contains_keys)
  have filt: "length (filter (hm_contains m) xs) \<le> n" if "distinct xs" "length m \<le> n"
    for m :: "(u64, bytes) hmap" and xs n
  proof -
    have "length (filter (hm_contains m) xs) = card (set (filter (hm_contains m) xs))"
      using that(1) by (intro distinct_card [symmetric]) simp
    also have "\<dots> \<le> card (set (hm_keys m))"
      by (intro card_mono) (auto simp: hm_contains_keys)
    also have "\<dots> \<le> n" using card_length [of "hm_keys m"] that(2) by (simp add: hm_keys_def)
    finally show ?thesis .
  qed
  from inv False [THEN neq0_conv [THEN iffD1]] show ?thesis
  proof (cases rule: cache_insert_cases [where i = i and v = v])
    case keep
    then show ?thesis using d fresh filt [of "cache_order c @ [i]" "ins_entries c i v" "cache_capacity c"]
      unfolding os by auto
  next
    case (evict pre k post)
    have "post = [] \<or> (\<exists>ys. post = ys @ [i])" "set post \<subseteq> insert i (set (cache_order c))" "distinct post"
      using evict(2) d fresh unfolding os by (auto simp: append_eq_append_conv2 append_eq_Cons_conv Cons_eq_append_conv)
    moreover have "length post \<le> length (cache_order c)"
      using arg_cong [OF evict(2), of length] unfolding os by simp
    ultimately show ?thesis using evict(6) len by auto
  qed
qed

section \<open>Properties\<close>

text \<open>
  C33. The cache is bounded: every operation keeps one entry per id, at most \<open>capacity\<close>
  entries, and every entry reachable from the eviction queue.
\<close>

theorem cache_bounded:
  "cache_inv (cache_new n) \<and>
   (cache_inv c \<longrightarrow> cache_len c \<le> cache_capacity c \<and>
      cache_inv (cache_insert c i payload) \<and> cache_inv (snd (cache_get c i)) \<and>
      cache_inv (snd (cache_remove c i)) \<and> cache_inv (cache_clear c))"
  using cache_inv_new cache_inv_insert cache_inv_get cache_inv_remove cache_inv_clear
  by (simp add: cache_inv_def [of c] cache_len_def)

theorem cache_bounded_witness:
  "cache_inv (cache_insert (cache_new 3) 1 [7]) \<and> cache_len (cache_new 3) \<le> cache_capacity (cache_new 3)"
  using cache_bounded [of 3 "cache_new 3" 1 "[7]"] by blast

text \<open>
  The cache never lies: whatever an insertion evicts, a later lookup of the inserted id
  finds the new payload or nothing, and a lookup of any other id finds what it found before
  or nothing; with a non-zero capacity and an id the cache has not seen, the new payload is
  found.
\<close>

theorem cache_lookup_after_insert:
  assumes "cache_inv c"
  shows "fst (cache_get (cache_insert c i payload) k) \<in>
      {None, if k = i then Some payload else fst (cache_get c k)} \<and>
    (0 < cache_capacity c \<longrightarrow> i \<notin> set (cache_order c) \<longrightarrow>
      fst (cache_get (cache_insert c i payload) i) = Some payload)"
  using cache_lookup_insert [OF assms, of i payload k] cache_lookup_insert_fresh [OF assms, of i payload]
  by (cases "cache_lookup (cache_insert c i payload) k") (auto split: if_splits)

theorem cache_lookup_after_insert_witness:
  "fst (cache_get (cache_insert (cache_insert (cache_new 1) 1 [7]) 2 [8]) 2) = Some [8]"
proof -
  have "cache_inv (cache_insert (cache_new 1) 1 [7])"
    by (intro cache_inv_insert cache_inv_new)
  from cache_lookup_after_insert [OF this, of 2 "[8]" 2] show ?thesis
    by (simp add: cache_insert_def cache_new_def hm_contains_def hm_insert_def Let_def)
qed

text \<open>
  The eviction queue stays bounded too: as long as no id is inserted twice, it has no
  duplicates and at most twice \<open>capacity\<close> elements.
\<close>

theorem cache_order_bounded:
  assumes "cache_inv c" "distinct (cache_order c)" "length (cache_order c) \<le> 2 * cache_capacity c"
    and "i \<notin> set (cache_order c)"
  shows "distinct (cache_order (cache_insert c i payload)) \<and>
    length (cache_order (cache_insert c i payload)) \<le> 2 * cache_capacity c"
  using cache_insert_order [OF assms(1,2,4,3)] by blast

theorem cache_order_bounded_witness:
  "distinct (cache_order (cache_insert (cache_new 2) 1 [7])) \<and>
   length (cache_order (cache_insert (cache_new 2) 1 [7])) \<le> 2 * cache_capacity (cache_new 2)"
  by (rule cache_order_bounded) (simp_all add: cache_inv_new, simp_all add: cache_new_def)

end
