(* ===== verification/Engine.thy ===== *)
theory Engine
  imports Compaction_Spec Task_Queue Payload_Cache
begin

text \<open>
  The queue engine, \<open>src/src/storage/engine.rs\<close>: the in-memory state over the log, the
  operations \<open>push\<close>, \<open>pop_and_lease\<close>, \<open>ack\<close>, \<open>nack\<close>, the expiration worker,
  \<open>compact\<close> and \<open>recover\<close>. An operation that holds the lock of the state is one
  function from the engine to its result and the engine after it. \<open>pop_and_lease\<close> and
  \<open>compact\<close> release the lock in the middle and are split there, so that interleavings
  with other operations can be expressed; so is the expiration worker. The clock is the
  argument \<open>now\<close> (seconds), failures of the operating system are arguments of type
  \<open>append_io\<close>, and arithmetic on \<open>u64\<close> and \<open>u8\<close> wraps as in a release build.
\<close>

section \<open>State\<close>

record LeaseInfo =
  consumer_id :: u32
  expire_timestamp :: u64
  lease_retries :: u8
  lease_priority :: u8

definition lease_info :: "u32 \<Rightarrow> u64 \<Rightarrow> u8 \<Rightarrow> u8 \<Rightarrow> LeaseInfo" where
  "lease_info c e r p = \<lparr>consumer_id = c, expire_timestamp = e, lease_retries = r, lease_priority = p\<rparr>"

definition MAX_RETRIES :: u8 where
  "MAX_RETRIES = 3"

text \<open>\<open>on_task_ready\<close> is present or not; the callback itself belongs to the caller.\<close>

record EngineState =
  wal :: Wal
  next_id :: u64
  index :: "(u64, loc) hmap"
  data_index :: "(u64, loc) hmap"
  ready_queue :: PriorityBucketQueue
  leased :: "(u64, LeaseInfo) hmap"
  payload_cache :: PayloadCache
  on_task_ready :: bool

text \<open>
  The engine: the state behind the mutex, the queue directory, the reader's open files, and
  how often the callback has been invoked.
\<close>

record Engine =
  inner :: EngineState
  files :: fsys
  reader :: read_cache
  callbacks :: nat

definition new_state :: "Wal \<Rightarrow> nat \<Rightarrow> EngineState" where
  "new_state w capacity =
     \<lparr>wal = w, next_id = 1, index = [], data_index = [], ready_queue = pbq_new, leased = [],
      payload_cache = cache_new capacity, on_task_ready = False\<rparr>"

definition set_on_task_ready :: "Engine \<Rightarrow> Engine" where
  "set_on_task_ready e = e\<lparr>inner := (inner e)\<lparr>on_task_ready := True\<rparr>\<rparr>"

text \<open>\<open>if let Some(cb) = cb { cb() }\<close>, \<open>n\<close> times.\<close>

definition notify :: "nat \<Rightarrow> Engine \<Rightarrow> Engine" where
  "notify n e = (if on_task_ready (inner e) then e\<lparr>callbacks := callbacks e + n\<rparr> else e)"

text \<open>\<open>state.wal.append(&record)\<close> on the engine.\<close>

definition log_append :: "(bytes \<Rightarrow> u32) \<Rightarrow> append_io \<Rightarrow> Record \<Rightarrow> Engine \<Rightarrow> loc result \<times> Engine" where
  "log_append crc io record e =
     (let (res, w, fs) = wal_append crc io record (wal (inner e)) (files e)
      in (res, e\<lparr>inner := (inner e)\<lparr>wal := w\<rparr>, files := fs\<rparr>))"

section \<open>Operations\<close>

definition push :: "(bytes \<Rightarrow> u32) \<Rightarrow> append_io \<Rightarrow> bytes \<Rightarrow> u8 \<Rightarrow> Engine \<Rightarrow> u64 result \<times> Engine" where
  "push crc io payload priority e =
     (let tid = next_id (inner e);
          e = e\<lparr>inner := (inner e)\<lparr>next_id := next_id (inner e) + 1\<rparr>\<rparr>
      in case log_append crc io (new_record tid Created priority payload) e of
           (Inl err, e) \<Rightarrow> (Inl err, e)
         | (Inr loc, e) \<Rightarrow>
            (let st = inner e;
                 e = e\<lparr>inner := st\<lparr>index := hm_insert tid loc (index st),
                       data_index := hm_insert tid loc (data_index st),
                       payload_cache := cache_insert (payload_cache st) tid payload,
                       ready_queue := pbq_push (ready_queue st) (task_ref tid priority 0)\<rparr>\<rparr>
             in (Inr tid, notify 1 e)))"

text \<open>The payload of a lease record.\<close>

definition lease_bytes :: "u32 \<Rightarrow> u64 \<Rightarrow> u8 \<Rightarrow> bytes" where
  "lease_bytes consumer expire retries = u32_to_be_bytes consumer @ u64_to_be_bytes expire @ [retries]"

text \<open>
  What \<open>pop_and_lease\<close> knows when it releases the lock: the task, and either its cached
  payload or the location to read it from.
\<close>

record PoppedTask =
  popped :: TaskRef
  data_loc :: loc
  cached_payload :: "bytes option"

definition pop_locked ::
  "(bytes \<Rightarrow> u32) \<Rightarrow> append_io \<Rightarrow> u64 \<Rightarrow> u32 \<Rightarrow> u64 \<Rightarrow> Engine \<Rightarrow> PoppedTask option result \<times> Engine" where
  "pop_locked crc io now consumer ttl e =
     (case pbq_pop (ready_queue (inner e)) of
        Inl err \<Rightarrow> (Inl err, e)
      | Inr (None, q) \<Rightarrow> (Inr None, e\<lparr>inner := (inner e)\<lparr>ready_queue := q\<rparr>\<rparr>)
      | Inr (Some t, q) \<Rightarrow>
         (let e = e\<lparr>inner := (inner e)\<lparr>ready_queue := q\<rparr>\<rparr>;
              tid = task_id t; priority = task_priority t; retries = task_retries t;
              expire = now + ttl;
              record = new_record tid Leased priority (lease_bytes consumer expire retries)
          in case log_append crc io record e of
               (Inl err, e) \<Rightarrow> (Inl err, e)
             | (Inr loc, e) \<Rightarrow>
                (let st = inner e;
                     st = st\<lparr>index := hm_insert tid loc (index st),
                            leased := hm_insert tid (lease_info consumer expire retries priority) (leased st)\<rparr>
                 in case hm_get (data_index st) tid of
                      None \<Rightarrow> (Inl (IoErr NotFound ''Missing data offset''), e\<lparr>inner := st\<rparr>)
                    | Some dloc \<Rightarrow>
                       (let (cached, cache) = cache_get (payload_cache st) tid
                        in (Inr (Some \<lparr>popped = t, data_loc = dloc, cached_payload = cached\<rparr>),
                            e\<lparr>inner := st\<lparr>payload_cache := cache\<rparr>\<rparr>)))))"

text \<open>The user's payload in a record of any kind.\<close>

definition user_payload :: "Record \<Rightarrow> bytes" where
  "user_payload r =
     (case op_type r of
        Created \<Rightarrow> rec_payload r
      | Leased \<Rightarrow> if length (rec_payload r) \<ge> 13 then drop 13 (rec_payload r) else []
      | Nacked \<Rightarrow> if length (rec_payload r) \<ge> 1 then drop 1 (rec_payload r) else []
      | Expired \<Rightarrow> if length (rec_payload r) \<ge> 1 then drop 1 (rec_payload r) else []
      | _ \<Rightarrow> rec_payload r)"

text \<open>
  The part of \<open>pop_and_lease\<close> after the lock is released: before a read attempt, before the
  second look at \<open>data_index\<close> (under the lock), or finished.
\<close>

datatype pop_pc = Reading nat loc | Relooking nat | Finished "(Record \<times> u8) option result"

definition pop_step :: "(bytes \<Rightarrow> u32) \<Rightarrow> TaskRef \<Rightarrow> pop_pc \<Rightarrow> Engine \<Rightarrow> pop_pc \<times> Engine" where
  "pop_step crc t pc e =
     (case pc of
        Reading retry cur \<Rightarrow>
          if retry \<ge> 3 then (Finished (Inl (IoErr NotFound ''Record not found after retry'')), e)
          else
           (let (res, cache) = read_at crc (files e) (reader e) (fst cur) (snd cur);
                e = e\<lparr>reader := cache\<rparr>
            in case res of
                 Inr (Some r) \<Rightarrow>
                   (Finished (Inr (Some (new_record (task_id t) Created (task_priority t) (user_payload r),
                      task_retries t))), e)
               | Inr None \<Rightarrow> (Finished (Inl (IoErr InvalidData ''Record not found at offset'')), e)
               | Inl (IoErr NotFound msg) \<Rightarrow>
                   (if retry < 2 then Relooking retry else Finished (Inl (IoErr NotFound msg)), e)
               | Inl err \<Rightarrow> (Finished (Inl err), e))
      | Relooking retry \<Rightarrow>
          (case hm_get (data_index (inner e)) (task_id t) of
             Some loc \<Rightarrow> Reading (retry + 1) loc
           | None \<Rightarrow> Finished (Inl (IoErr NotFound ''Missing data offset after compaction'')), e)
      | Finished res \<Rightarrow> (Finished res, e))"

text \<open>
  The whole of \<open>pop_and_lease\<close> without interference: three reads and two looks at the
  index are the most it makes.
\<close>

fun pop_run :: "nat \<Rightarrow> (bytes \<Rightarrow> u32) \<Rightarrow> TaskRef \<Rightarrow> pop_pc \<Rightarrow> Engine \<Rightarrow> pop_pc \<times> Engine" where
  "pop_run 0 crc t pc e = (pc, e)"
| "pop_run (Suc n) crc t pc e = (case pop_step crc t pc e of (pc, e) \<Rightarrow> pop_run n crc t pc e)"

definition pop_start :: "PoppedTask \<Rightarrow> pop_pc" where
  "pop_start p =
     (case cached_payload p of
        Some payload \<Rightarrow>
          Finished (Inr (Some (new_record (task_id (popped p)) Created (task_priority (popped p)) payload,
            task_retries (popped p))))
      | None \<Rightarrow> Reading 0 (data_loc p))"

definition pop_and_lease ::
  "(bytes \<Rightarrow> u32) \<Rightarrow> append_io \<Rightarrow> u64 \<Rightarrow> u32 \<Rightarrow> u64 \<Rightarrow> Engine \<Rightarrow> (Record \<times> u8) option result \<times> Engine" where
  "pop_and_lease crc io now consumer ttl e =
     (case pop_locked crc io now consumer ttl e of
        (Inl err, e) \<Rightarrow> (Inl err, e)
      | (Inr None, e) \<Rightarrow> (Inr None, e)
      | (Inr (Some p), e) \<Rightarrow>
         (case pop_run 5 crc (popped p) (pop_start p) e of
            (Finished res, e) \<Rightarrow> (res, e)
          | (_, e) \<Rightarrow> (Inl (Panicked ''unreachable''), e)))"

definition not_leased_error :: rs_error where
  "not_leased_error = IoErr NotFound ''Task not found or not leased''"

definition other_consumer_error :: rs_error where
  "other_consumer_error = IoErr PermissionDenied ''Task leased to another consumer''"

definition ack :: "(bytes \<Rightarrow> u32) \<Rightarrow> append_io \<Rightarrow> u64 \<Rightarrow> u32 \<Rightarrow> Engine \<Rightarrow> unit result \<times> Engine" where
  "ack crc io tid consumer e =
     (case hm_get (leased (inner e)) tid of
        Some lease \<Rightarrow>
          if consumer_id lease \<noteq> consumer then (Inl other_consumer_error, e)
          else
           (case log_append crc io (new_record tid Acked (lease_priority lease) []) e of
              (Inl err, e) \<Rightarrow> (Inl err, e)
            | (Inr loc, e) \<Rightarrow>
               (let st = inner e
                in (Inr (), e\<lparr>inner := st\<lparr>index := hm_insert tid loc (index st),
                      leased := hm_remove tid (leased st), data_index := hm_remove tid (data_index st),
                      payload_cache := snd (cache_remove (payload_cache st) tid)\<rparr>\<rparr>)))
      | None \<Rightarrow> (Inl not_leased_error, e))"

definition process_task_failure ::
  "(bytes \<Rightarrow> u32) \<Rightarrow> append_io \<Rightarrow> u64 \<Rightarrow> u8 \<Rightarrow> u8 \<Rightarrow> OpType \<Rightarrow> Engine \<Rightarrow> bool result \<times> Engine" where
  "process_task_failure crc io tid priority current_retries failure_type e =
     (let new_retries = current_retries + 1;
          op = (if new_retries \<ge> MAX_RETRIES then DeadLettered else failure_type)
      in case log_append crc io (new_record tid op priority [new_retries]) e of
           (Inl err, e) \<Rightarrow> (Inl err, e)
         | (Inr loc, e) \<Rightarrow>
            (let st = inner e;
                 st = st\<lparr>index := hm_insert tid loc (index st), leased := hm_remove tid (leased st)\<rparr>
             in if op = DeadLettered
                then (Inr False, e\<lparr>inner := st\<lparr>data_index := hm_remove tid (data_index st),
                        payload_cache := snd (cache_remove (payload_cache st) tid)\<rparr>\<rparr>)
                else (Inr True, e\<lparr>inner := st\<lparr>ready_queue :=
                        pbq_push (ready_queue st) (task_ref tid priority new_retries)\<rparr>\<rparr>)))"

definition nack :: "(bytes \<Rightarrow> u32) \<Rightarrow> append_io \<Rightarrow> u64 \<Rightarrow> u32 \<Rightarrow> Engine \<Rightarrow> unit result \<times> Engine" where
  "nack crc io tid consumer e =
     (case hm_get (leased (inner e)) tid of
        None \<Rightarrow> (Inl not_leased_error, e)
      | Some lease \<Rightarrow>
          if consumer_id lease \<noteq> consumer then (Inl other_consumer_error, e)
          else
           (case process_task_failure crc io tid (lease_priority lease) (lease_retries lease) Nacked e of
              (Inl err, e) \<Rightarrow> (Inl err, e)
            | (Inr re_enqueued, e) \<Rightarrow> (Inr (), if re_enqueued then notify 1 e else e)))"

section \<open>The expiration worker\<close>

text \<open>
  One round: \<open>collect_expired\<close> under the lock, release it, take it again and
  \<open>process_expired\<close> what was collected. Other operations can come in between.
\<close>

definition collect_expired :: "u64 \<Rightarrow> Engine \<Rightarrow> (u64 \<times> u8 \<times> u8) list" where
  "collect_expired now e =
     map (\<lambda>(tid, lease). (tid, lease_priority lease, lease_retries lease))
       (filter (\<lambda>(tid, lease). now \<ge> expire_timestamp lease) (leased (inner e)))"

text \<open>The loop over the expired tasks; errors are skipped. The result counts the re-enqueued.\<close>

fun expire_loop :: "(bytes \<Rightarrow> u32) \<Rightarrow> (u64 \<Rightarrow> append_io) \<Rightarrow> (u64 \<times> u8 \<times> u8) list \<Rightarrow> nat \<Rightarrow> Engine \<Rightarrow> nat \<times> Engine" where
  "expire_loop crc ios [] n e = (n, e)"
| "expire_loop crc ios ((tid, priority, retries) # rest) n e =
     (case process_task_failure crc (ios tid) tid priority retries Expired e of
        (Inr True, e) \<Rightarrow> expire_loop crc ios rest (n + 1) e
      | (_, e) \<Rightarrow> expire_loop crc ios rest n e)"

definition process_expired :: "(bytes \<Rightarrow> u32) \<Rightarrow> (u64 \<Rightarrow> append_io) \<Rightarrow> (u64 \<times> u8 \<times> u8) list \<Rightarrow> Engine \<Rightarrow> Engine" where
  "process_expired crc ios tasks e =
     (if tasks = [] then e
      else case expire_loop crc ios tasks 0 e of (n, e) \<Rightarrow> notify n e)"

section \<open>Status and caches\<close>

definition status :: "Engine \<Rightarrow> nat \<times> nat" where
  "status e = (pbq_len (ready_queue (inner e)), length (leased (inner e)))"

definition clear_payload_cache :: "Engine \<Rightarrow> Engine" where
  "clear_payload_cache e = e\<lparr>inner := (inner e)\<lparr>payload_cache := cache_clear (payload_cache (inner e))\<rparr>\<rparr>"

definition clear_reader_cache :: "Engine \<Rightarrow> Engine" where
  "clear_reader_cache e = e\<lparr>reader := []\<rparr>"

section \<open>Compaction\<close>

text \<open>Planning and phase 1, without the lock.\<close>

definition compact_phase1 :: "(bytes \<Rightarrow> u32) \<Rightarrow> Engine \<Rightarrow> (u64 list \<times> (u64, nat) hmap) option result \<times> Engine" where
  "compact_phase1 crc e =
     (case plan_compaction (files e) (active_segment_id (wal (inner e))) of
        None \<Rightarrow> (Inr None, e)
      | Some closed_segments \<Rightarrow>
         (case execute_compaction_phase1 crc (files e) closed_segments of
            (Inl err, fs) \<Rightarrow> (Inl err, e\<lparr>files := fs\<rparr>)
          | (Inr (stats, new_offsets), fs) \<Rightarrow> (Inr (Some (closed_segments, new_offsets)), e\<lparr>files := fs\<rparr>)))"

text \<open>An index entry that still points into a compacted segment moves to segment 1.\<close>

definition remap :: "u64 list \<Rightarrow> u64 \<Rightarrow> nat \<Rightarrow> (u64, loc) hmap \<Rightarrow> (u64, loc) hmap" where
  "remap closed_segments tid offset m =
     (case hm_get m tid of
        Some (seg, _) \<Rightarrow> if seg \<in> set closed_segments then hm_insert tid (1, offset) m else m
      | None \<Rightarrow> m)"

definition remap_state :: "u64 list \<Rightarrow> (u64, nat) hmap \<Rightarrow> EngineState \<Rightarrow> EngineState" where
  "remap_state closed_segments new_offsets st =
     foldl (\<lambda>st (tid, offset). st\<lparr>data_index := remap closed_segments tid offset (data_index st),
              index := remap closed_segments tid offset (index st)\<rparr>) st new_offsets"

text \<open>Phase 2, under the lock.\<close>

definition compact_phase2 :: "u64 list \<Rightarrow> (u64, nat) hmap \<Rightarrow> Engine \<Rightarrow> unit result \<times> Engine" where
  "compact_phase2 closed_segments new_offsets e =
     (case execute_compaction_phase2 (files e) closed_segments of
        (Inl err, fs) \<Rightarrow> (Inl err, e\<lparr>files := fs\<rparr>)
      | (Inr _, fs) \<Rightarrow>
          (Inr (), e\<lparr>inner := remap_state closed_segments new_offsets (inner e), files := fs, reader := []\<rparr>))"

definition compact :: "(bytes \<Rightarrow> u32) \<Rightarrow> Engine \<Rightarrow> bool result \<times> Engine" where
  "compact crc e =
     (case compact_phase1 crc e of
        (Inl err, e) \<Rightarrow> (Inl err, e)
      | (Inr None, e) \<Rightarrow> (Inr False, e)
      | (Inr (Some (closed_segments, new_offsets)), e) \<Rightarrow>
         (case compact_phase2 closed_segments new_offsets e of
            (Inl err, e) \<Rightarrow> (Inl err, e)
          | (Inr _, e) \<Rightarrow> (Inr True, e)))"

section \<open>Recovery\<close>

definition recover_pass1 :: "EngineState \<Rightarrow> loc \<times> Record \<Rightarrow> EngineState" where
  "recover_pass1 st item =
     (let (loc, record) = item;
          st = (if rec_id record \<ge> next_id st then st\<lparr>next_id := rec_id record + 1\<rparr> else st);
          st = st\<lparr>index := hm_insert (rec_id record) loc (index st)\<rparr>
      in if op_type record = Created then st\<lparr>data_index := hm_insert (rec_id record) loc (data_index st)\<rparr> else st)"

text \<open>The bytes of a lease record.\<close>

definition parse_lease :: "Record \<Rightarrow> LeaseInfo" where
  "parse_lease record =
     (let payload = rec_payload record
      in lease_info (u32_from_be_bytes (byte_slice 0 4 payload)) (u64_from_be_bytes (byte_slice 4 12 payload))
           (payload ! 12) (rec_priority record))"

definition first_byte :: "bytes \<Rightarrow> u8" where
  "first_byte bs = (case bs of [] \<Rightarrow> 0 | b # _ \<Rightarrow> b)"

definition recover_entry :: "u64 \<Rightarrow> u64 \<Rightarrow> loc \<Rightarrow> Record \<Rightarrow> EngineState \<Rightarrow> EngineState" where
  "recover_entry now tid loc record st =
     (let op = op_type record;
          st = (if \<not> hm_contains (data_index st) tid \<and> op \<in> {Created, Leased, Nacked, Expired}
                then st\<lparr>data_index := hm_insert tid loc (data_index st)\<rparr> else st);
          enqueue = (\<lambda>retries. st\<lparr>ready_queue := pbq_push (ready_queue st) (task_ref tid (rec_priority record) retries)\<rparr>)
      in if op \<in> {Created, Nacked, Expired}
         then enqueue (if op = Created then 0 else first_byte (rec_payload record))
         else if op = Leased
         then if length (rec_payload record) \<ge> 13
              then if expire_timestamp (parse_lease record) > now
                   then st\<lparr>leased := hm_insert tid (parse_lease record) (leased st)\<rparr>
                   else enqueue (lease_retries (parse_lease record))
              else enqueue 0
         else st\<lparr>data_index := hm_remove tid (data_index st), index := hm_remove tid (index st)\<rparr>)"

fun recover_pass2 ::
  "(bytes \<Rightarrow> u32) \<Rightarrow> u64 \<Rightarrow> fsys \<Rightarrow> (u64 \<times> loc) list \<Rightarrow> read_cache \<Rightarrow> EngineState \<Rightarrow> EngineState result \<times> read_cache" where
  "recover_pass2 crc now fs [] cache st = (Inr st, cache)"
| "recover_pass2 crc now fs ((tid, loc) # rest) cache st =
     (case read_at crc fs cache (fst loc) (snd loc) of
        (Inl err, cache) \<Rightarrow> (Inl err, cache)
      | (Inr None, cache) \<Rightarrow> recover_pass2 crc now fs rest cache st
      | (Inr (Some record), cache) \<Rightarrow> recover_pass2 crc now fs rest cache (recover_entry now tid loc record st))"

definition recover :: "(bytes \<Rightarrow> u32) \<Rightarrow> u64 \<Rightarrow> fsys \<Rightarrow> read_cache \<Rightarrow> EngineState \<Rightarrow> (EngineState \<times> read_cache) result \<times> fsys" where
  "recover crc now fs cache st =
     (let (it, fs) = iter_all fs in
      case iter_collect crc fs it of
        Inl err \<Rightarrow> (Inl err, fs)
      | Inr items \<Rightarrow>
         (let st = foldl recover_pass1 st items;
              entries = sort_key snd (index st)
          in case recover_pass2 crc now fs entries cache st of
               (Inl err, cache) \<Rightarrow> (Inl err, fs)
             | (Inr st, cache) \<Rightarrow> (Inr (st, cache), fs)))"

text \<open>\<open>Engine::open_with_config\<close> on a queue directory.\<close>

definition engine_open :: "(bytes \<Rightarrow> u32) \<Rightarrow> u64 \<Rightarrow> fsys \<Rightarrow> Engine result" where
  "engine_open crc now fs =
     (let (w, fs) = wal_open crc fs None
      in case recover crc now fs [] (new_state w DEFAULT_PAYLOAD_CACHE_CAPACITY) of
           (Inl err, fs) \<Rightarrow> Inl err
         | (Inr (st, cache), fs) \<Rightarrow> Inr \<lparr>inner = st, files = fs, reader = cache, callbacks = 0\<rparr>)"

end
