(* ===== verification/Engine_Log.thy ===== *)
theory Engine_Log
  imports Engine
begin

text \<open>
  What a log means for the engine, as functions of the list of its records: the last record
  of every task (\<open>latest\<close>), the tasks that are ready in the order of their last records
  (\<open>ready_refs\<close>), the leases (\<open>lease_map\<close>), where the payload of a task was written
  (\<open>data_map\<close>) and what it is (\<open>payload_map\<close>). The lemmas give the effect of one more
  record on each of them.
\<close>

type_synonym log = "(loc \<times> Record) list"

section \<open>The last record of every task\<close>

abbreviation log_id :: "loc \<times> Record \<Rightarrow> u64" where
  "log_id x \<equiv> rec_id (snd x)"

fun latest :: "log \<Rightarrow> log" where
  "latest [] = []"
| "latest (x # xs) = (if log_id x \<in> log_id ` set xs then latest xs else x # latest xs)"

definition latest_map :: "log \<Rightarrow> u64 \<rightharpoonup> loc \<times> Record" where
  "latest_map log = foldl (\<lambda>m x. m(log_id x \<mapsto> x)) Map.empty log"

lemma latest_snoc: "latest (xs @ [x]) = filter (\<lambda>y. log_id y \<noteq> log_id x) (latest xs) @ [x]"
  by (induction xs) auto

lemma latest_map_simps [simp]:
  "latest_map [] = Map.empty" "latest_map (log @ [x]) = (latest_map log)(log_id x \<mapsto> x)"
  by (simp_all add: latest_map_def)

lemma set_latest: "set (latest xs) \<subseteq> set xs"
  by (induction xs) auto

lemma ids_latest: "log_id ` set (latest xs) = log_id ` set xs"
  by (induction xs) auto

lemma distinct_latest: "distinct (map log_id (latest xs))"
proof (induction xs)
  case (Cons x xs)
  then show ?case using ids_latest [of xs] by auto
qed simp

lemma sorted_latest: "sorted_wrt (<) (map fst xs) \<Longrightarrow> sorted_wrt (<) (map fst (latest xs))"
proof (induction xs)
  case (Cons x xs)
  then show ?case using set_latest [of xs] by auto
qed simp

lemma latest_map_iff: "latest_map log k = Some x \<longleftrightarrow> x \<in> set (latest log) \<and> log_id x = k"
proof (induction log arbitrary: k x rule: rev_induct)
  case (snoc y log)
  then show ?case by (auto simp: latest_snoc)
qed simp

lemma latest_map_None: "latest_map log k = None \<longleftrightarrow> k \<notin> log_id ` set log"
  by (induction log rule: rev_induct) auto

lemma latest_map_in: "latest_map log k = Some x \<Longrightarrow> x \<in> set log \<and> log_id x = k"
  using set_latest latest_map_iff by blast

section \<open>Ready tasks and leases\<close>

definition lease_of :: "Record \<Rightarrow> LeaseInfo option" where
  "lease_of r = (if op_type r = Leased \<and> length (rec_payload r) \<ge> 13 then Some (parse_lease r) else None)"

text \<open>
  The entry of the ready queue that a last record stands for. The ids in \<open>X\<close> are those of
  leases that were found expired when the engine was opened: they count as ready.
\<close>

definition ready_ref :: "u64 set \<Rightarrow> Record \<Rightarrow> TaskRef option" where
  "ready_ref X r =
     (let ref = task_ref (rec_id r) (rec_priority r) in
      case op_type r of
        Created \<Rightarrow> Some (ref 0)
      | Nacked \<Rightarrow> Some (ref (first_byte (rec_payload r)))
      | Expired \<Rightarrow> Some (ref (first_byte (rec_payload r)))
      | Leased \<Rightarrow>
          (case lease_of r of
             None \<Rightarrow> Some (ref 0)
           | Some l \<Rightarrow> if rec_id r \<in> X then Some (ref (lease_retries l)) else None)
      | _ \<Rightarrow> None)"

definition ready_refs :: "u64 set \<Rightarrow> log \<Rightarrow> TaskRef list" where
  "ready_refs X log = List.map_filter (\<lambda>x. ready_ref X (snd x)) (latest log)"

definition lease_map :: "u64 set \<Rightarrow> log \<Rightarrow> u64 \<rightharpoonup> LeaseInfo" where
  "lease_map X log k = (if k \<in> X then None else Option.bind (latest_map log k) (\<lambda>x. lease_of (snd x)))"

lemma task_ref_simps [simp]:
  "task_id (task_ref i p n) = i" "task_priority (task_ref i p n) = p" "task_retries (task_ref i p n) = n"
  by (simp_all add: task_ref_def)

lemma ready_ref_id: "ready_ref X r = Some t \<Longrightarrow> task_id t = rec_id r \<and> task_priority t = rec_priority r"
  by (auto simp: ready_ref_def Let_def split: OpType.splits option.splits if_splits)

lemma ready_ref_ends: "ends_task r \<Longrightarrow> ready_ref X r = None" "ends_task r \<Longrightarrow> lease_of r = None"
  by (auto simp: ready_ref_def ends_task_def lease_of_def)

lemma ready_ref_cong: "(rec_id r \<in> X \<longleftrightarrow> rec_id r \<in> Y) \<Longrightarrow> ready_ref X r = ready_ref Y r"
  by (simp add: ready_ref_def cong: option.case_cong OpType.case_cong)

text \<open>A live task is ready or leased, and not both.\<close>

lemma ready_or_leased:
  "\<not> ends_task r \<Longrightarrow> (ready_ref X r = None) = (rec_id r \<notin> X \<and> lease_of r \<noteq> None)"
  by (auto simp: ready_ref_def ends_task_def lease_of_def Let_def split: OpType.splits)

lemma map_filter_snoc: "List.map_filter f (xs @ [x]) = List.map_filter f xs @ (case f x of None \<Rightarrow> [] | Some y \<Rightarrow> [y])"
  by (simp add: map_filter_def split: option.split)

lemma map_filter_filter:
  "(\<And>x y. x \<in> set xs \<Longrightarrow> f x = Some y \<Longrightarrow> Q y = P x) \<Longrightarrow>
   List.map_filter f (filter P xs) = filter Q (List.map_filter f xs)"
  by (induction xs) (auto simp: map_filter_simps split: option.split)

lemma map_filter_cong: "(\<And>x. x \<in> set xs \<Longrightarrow> f x = g x) \<Longrightarrow> List.map_filter f xs = List.map_filter g xs"
  by (induction xs) (auto simp: map_filter_simps split: option.split)

lemma ready_refs_snoc:
  "ready_refs (X - {rec_id r}) (log @ [(l, r)]) =
     filter (\<lambda>t. task_id t \<noteq> rec_id r) (ready_refs X log) @
     (case ready_ref (X - {rec_id r}) r of None \<Rightarrow> [] | Some t \<Rightarrow> [t])"
proof -
  let ?old = "filter (\<lambda>y. log_id y \<noteq> rec_id r) (latest log)"
  have "List.map_filter (\<lambda>x. ready_ref (X - {rec_id r}) (snd x)) ?old = List.map_filter (\<lambda>x. ready_ref X (snd x)) ?old"
    by (intro map_filter_cong ready_ref_cong) auto
  also have "\<dots> = filter (\<lambda>t. task_id t \<noteq> rec_id r) (List.map_filter (\<lambda>x. ready_ref X (snd x)) (latest log))"
    by (rule map_filter_filter) (auto dest: ready_ref_id)
  finally show ?thesis by (simp add: ready_refs_def latest_snoc map_filter_snoc)
qed

lemma set_map_filter: "y \<in> set (List.map_filter f xs) \<longleftrightarrow> (\<exists>x \<in> set xs. f x = Some y)"
  by (induction xs) (auto simp: map_filter_simps split: option.split)

lemma ready_refs_iff:
  "t \<in> set (ready_refs X log) \<longleftrightarrow> (\<exists>x. latest_map log (task_id t) = Some x \<and> ready_ref X (snd x) = Some t)"
  unfolding ready_refs_def set_map_filter latest_map_iff by (metis ready_ref_id)

lemma distinct_ready_refs: "distinct (map task_id (ready_refs X log))"
proof -
  have "map task_id (List.map_filter (\<lambda>x. ready_ref X (snd x)) xs) =
      map log_id (filter (\<lambda>x. ready_ref X (snd x) \<noteq> None) xs)" for xs
    by (induction xs) (auto simp: map_filter_simps dest: ready_ref_id)
  then show ?thesis
    unfolding ready_refs_def using distinct_latest [of log] by (simp add: distinct_map inj_on_def)
qed

lemma lease_map_snoc:
  "lease_map (X - {rec_id r}) (log @ [(l, r)]) = (lease_map X log)(rec_id r := lease_of r)"
  by (auto simp: lease_map_def fun_eq_iff)

section \<open>Payloads\<close>

definition data_step :: "(u64 \<rightharpoonup> 'a) \<Rightarrow> Record \<Rightarrow> 'a \<Rightarrow> (u64 \<rightharpoonup> 'a)" where
  "data_step m r v =
     (if op_type r = Created then m(rec_id r \<mapsto> v) else if ends_task r then m(rec_id r := None) else m)"

definition data_map :: "log \<Rightarrow> u64 \<rightharpoonup> loc" where
  "data_map log = foldl (\<lambda>m (l, r). data_step m r l) Map.empty log"

definition payload_map :: "log \<Rightarrow> u64 \<rightharpoonup> bytes" where
  "payload_map log = foldl (\<lambda>m (l, r). data_step m r (rec_payload r)) Map.empty log"

lemma data_map_simps [simp]:
  "data_map [] = Map.empty" "data_map (log @ [(l, r)]) = data_step (data_map log) r l"
  by (simp_all add: data_map_def)

lemma payload_map_simps [simp]:
  "payload_map [] = Map.empty" "payload_map (log @ [(l, r)]) = data_step (payload_map log) r (rec_payload r)"
  by (simp_all add: payload_map_def)

text \<open>The location of a task's payload holds the record that created the task.\<close>

lemma data_map_record:
  "data_map log k = Some l \<Longrightarrow>
   \<exists>r. (l, r) \<in> set log \<and> op_type r = Created \<and> rec_id r = k \<and> payload_map log k = Some (rec_payload r)"
proof (induction log arbitrary: l rule: rev_induct)
  case (snoc x log)
  obtain l' r' where x: "x = (l', r')" by fastforce
  from snoc show ?case unfolding x data_map_simps payload_map_simps data_step_def
    by (auto split: if_splits)
qed simp

lemma data_map_dom: "data_map log k = None \<longleftrightarrow> payload_map log k = None"
proof (induction log rule: rev_induct)
  case (snoc x log)
  then show ?case by (cases x) (simp add: data_step_def)
qed simp

section \<open>Logs the engine writes\<close>

text \<open>
  A task is created once, before all its other records, and has no record behind its last
  one; retry counts stay below the limit.
\<close>

definition retries_ok :: "Record \<Rightarrow> bool" where
  "retries_ok r = (case ready_ref UNIV r of None \<Rightarrow> True | Some t \<Rightarrow> task_retries t < MAX_RETRIES)"

inductive log_wf :: "log \<Rightarrow> bool" where
  log_wf_Nil: "log_wf []"
| log_wf_snoc: "log_wf log \<Longrightarrow> wf_record r \<Longrightarrow> retries_ok r \<Longrightarrow>
    (if op_type r = Created then latest_map log (rec_id r) = None else data_map log (rec_id r) \<noteq> None) \<Longrightarrow>
    log_wf (log @ [(l, r)])"

text \<open>A task has a payload as long as it is not finished.\<close>

lemma log_wf_live:
  assumes "log_wf log" "latest_map log k = Some x"
  shows "data_map log k = None \<longleftrightarrow> ends_task (snd x)"
  using assms
proof (induction arbitrary: x)
  case (log_wf_snoc log r l)
  then show ?case
    by (cases "k = rec_id r") (auto simp: data_step_def ends_task_def split: if_splits)
qed simp

lemma data_map_None:
  assumes "latest_map log k = None"
  shows "data_map log k = None"
proof (rule ccontr)
  assume "data_map log k \<noteq> None"
  then obtain l r where "(l, r) \<in> set log" "rec_id r = k" using data_map_record by blast
  then show False using assms by (force simp: latest_map_None)
qed

lemma log_wf_record: "log_wf log \<Longrightarrow> x \<in> set log \<Longrightarrow> wf_record (snd x) \<and> retries_ok (snd x)"
  by (induction rule: log_wf.induct) auto

lemma ready_ref_retries:
  assumes "retries_ok r" "ready_ref X r = Some t"
  shows "task_retries t < MAX_RETRIES"
  using assms by (auto simp: retries_ok_def ready_ref_def Let_def split: OpType.splits option.splits if_splits)

lemma lease_of_retries:
  assumes "retries_ok r" "lease_of r = Some l"
  shows "lease_retries l < MAX_RETRIES"
  using assms by (auto simp: retries_ok_def ready_ref_def lease_of_def Let_def split: if_splits)

text \<open>The lease a lease record stands for is the one it was written from.\<close>

lemma parse_lease_bytes:
  "parse_lease (new_record k op p (lease_bytes c ex n)) = lease_info c ex n p"
proof -
  let ?c = "u32_to_be_bytes c" and ?e = "u64_to_be_bytes ex"
  have "byte_slice 0 4 (?c @ ?e @ [n]) = ?c" by (rule byte_slice_append_take) simp
  moreover have "byte_slice 4 12 (?c @ ?e @ [n]) = ?e"
    using byte_slice_append_skip [of ?c 4 12 "?e @ [n]"] byte_slice_append_take [of ?e 8 "[n]"] by simp
  moreover have "(?c @ ?e @ [n]) ! 12 = n" by (simp add: nth_append)
  ultimately show ?thesis by (simp add: parse_lease_def lease_bytes_def)
qed

lemma length_lease_bytes [simp]: "length (lease_bytes c ex n) = 13"
  by (simp add: lease_bytes_def)

lemma lease_of_lease_record [simp]:
  "lease_of (new_record k Leased p (lease_bytes c ex n)) = Some (lease_info c ex n p)"
  by (simp add: lease_of_def parse_lease_bytes)

end
