(* ===== verification/Engine_Inv.thy ===== *)
theory Engine_Inv
  imports Engine_Log
begin

text \<open>
  The invariant of a running engine: its memory is a function of the log on disk. Every
  operation of the engine keeps it, with the log extended by at most one record per task.
\<close>

section \<open>The invariant\<close>

definition engine_inv :: "(bytes \<Rightarrow> u32) \<Rightarrow> log \<Rightarrow> u64 set \<Rightarrow> Engine \<Rightarrow> bool" where
  "engine_inv crc log X e \<longleftrightarrow>
     wal_holds crc (wal (inner e), files e) log \<and> cache_fresh (files e) (reader e) \<and> log_wf log \<and>
     pbq_inv (ready_queue (inner e)) \<and>
     delivery (ready_queue (inner e)) = sort_key delivery_key (ready_refs X log) \<and>
     hm_ok (leased (inner e)) \<and> (\<forall>k. hm_get (leased (inner e)) k = lease_map X log k) \<and>
     (\<forall>k. hm_get (data_index (inner e)) k = data_map log k) \<and>
     (\<forall>k x. latest_map log k = Some x \<longrightarrow> \<not> ends_task (snd x) \<longrightarrow> hm_get (index (inner e)) k = Some (fst x)) \<and>
     pc.coherent (payload_cache (inner e)) (payload_map log) \<and>
     (\<forall>x \<in> set log. log_id x < next_id (inner e))"

lemma engine_invD:
  assumes "engine_inv crc log X e"
  shows "wal_holds crc (wal (inner e), files e) log" "cache_fresh (files e) (reader e)" "log_wf log"
    "pbq_inv (ready_queue (inner e))" "delivery (ready_queue (inner e)) = sort_key delivery_key (ready_refs X log)"
    "hm_ok (leased (inner e))" "hm_get (leased (inner e)) k = lease_map X log k"
    "hm_get (data_index (inner e)) k = data_map log k"
    "latest_map log k = Some x \<Longrightarrow> \<not> ends_task (snd x) \<Longrightarrow> hm_get (index (inner e)) k = Some (fst x)"
    "pc.coherent (payload_cache (inner e)) (payload_map log)"
    "x \<in> set log \<Longrightarrow> log_id x < next_id (inner e)"
  using assms unfolding engine_inv_def by blast+

text \<open>The segment counter has not reached its end.\<close>

abbreviation has_room :: "Engine \<Rightarrow> bool" where
  "has_room e \<equiv> active_segment_id (wal (inner e)) \<noteq> - 1"

text \<open>The failures of one append after which the log is as before.\<close>

definition io_fails :: "append_io \<Rightarrow> Wal \<Rightarrow> rs_error \<Rightarrow> bool" where
  "io_fails io w err \<longleftrightarrow> (\<exists>n. io = WriteFails n err True) \<or> (io = SyncFails err \<and> max_segment_size w \<le> current_size w)"

section \<open>Appending a record\<close>

lemma append_keeps_names:
  assumes "wal_append crc io r w fs = (res, w', fs')" "hm_get (fs_dir fs) n = Some i"
  shows "hm_get (fs_dir fs') n = Some i"
proof -
  have "hm_get (fs_dir (snd (fs_open_append fs m))) n = Some i" for m
    using assms(2) by (auto simp: fs_open_append_def split: option.split)
  then have rot: "hm_get (fs_dir (snd (snd (wal_rotate io w fs)))) n = Some i"
    using assms(2) by (auto simp: wal_rotate_def Let_def split: append_io.splits prod.splits) (metis snd_conv)+
  obtain rotated w1 fs1 where s: "(if current_size w \<ge> max_segment_size w then wal_rotate io w fs else (Inr (), w, fs)) =
      (rotated, w1, fs1)" by (metis prod_cases3)
  then have "hm_get (fs_dir fs1) n = Some i" using rot assms(2) by (auto split: if_splits)
  then show ?thesis using assms(1) unfolding wal_append_def s
    by (auto simp: Let_def split: sum.splits append_io.splits if_splits)
qed

lemma cache_fresh_any_append:
  "cache_fresh fs c \<Longrightarrow> wal_append crc io r w fs = (res, w', fs') \<Longrightarrow> cache_fresh fs' c"
  unfolding cache_fresh_def using append_keeps_names by fastforce

lemma wal_append_step:
  assumes "engine_inv crc log X e" "storable r" "has_room e"
  shows "\<exists>l w fs. wal_append crc AppendOk r (wal (inner e)) (files e) = (Inr l, w, fs) \<and>
    wal_holds crc (w, fs) (log @ [(l, r)]) \<and> cache_fresh fs (reader e)"
proof -
  note d = engine_invD [OF assms(1)]
  obtain l w fs where app: "wal_append crc AppendOk r (wal (inner e)) (files e) = (Inr l, w, fs)"
    and h: "wal_holds crc (w, fs) (log @ [(l, r)])"
    using wl.append_law [OF d(1) assms(2)] assms(3) by (auto simp: wal_room_def split: prod.splits)
  then show ?thesis using cache_fresh_any_append [OF d(2) app] by blast
qed

lemma log_append_ok:
  assumes "engine_inv crc log X e" "storable r" "has_room e"
  shows "\<exists>l w fs. log_append crc AppendOk r e = (Inr l, e\<lparr>inner := (inner e)\<lparr>wal := w\<rparr>, files := fs\<rparr>) \<and>
    wal_holds crc (w, fs) (log @ [(l, r)]) \<and> cache_fresh fs (reader e)"
  using wal_append_step [OF assms] by (auto simp: log_append_def) blast

lemma wal_append_fails:
  assumes "engine_inv crc log X e" "has_room e" "io_fails io (wal (inner e)) err"
  shows "\<exists>w fs. wal_append crc io r (wal (inner e)) (files e) = (Inl err, w, fs) \<and>
    wal_holds crc (w, fs) log \<and> cache_fresh fs (reader e)"
proof -
  note d = engine_invD [OF assms(1)]
  obtain segs where segs: "wal_repr crc (wal (inner e)) (files e) segs" "log = log_of segs"
    using d(1) by (auto simp: wal_holds_def)
  obtain n where "io = WriteFails n err True \<or> (io = SyncFails err \<and> max_segment_size (wal (inner e)) \<le> current_size (wal (inner e)))"
    using assms(3) by (auto simp: io_fails_def)
  then obtain w fs segs' where app: "wal_append crc io r (wal (inner e)) (files e) = (Inl err, w, fs)"
      "wal_repr crc w fs segs'" "log_of segs' = log_of segs"
    using wal_append_failed [OF segs(1) assms(2)] by blast
  have "wal_holds crc (w, fs) log"
    unfolding wal_holds_def fst_conv snd_conv using app(2) app(3) [symmetric] segs(2) by auto
  then show ?thesis using app(1) cache_fresh_any_append [OF d(2) app(1)] by blast
qed

lemma log_append_fails:
  assumes "engine_inv crc log X e" "has_room e" "io_fails io (wal (inner e)) err"
  shows "\<exists>w fs. log_append crc io r e = (Inl err, e\<lparr>inner := (inner e)\<lparr>wal := w\<rparr>, files := fs\<rparr>) \<and>
    wal_holds crc (w, fs) log \<and> cache_fresh fs (reader e)"
  using wal_append_fails [OF assms, of r] by (auto simp: log_append_def) blast

text \<open>A new log and \<open>Wal\<close> with the same records change nothing else.\<close>

lemma engine_inv_same_log:
  assumes "engine_inv crc log X e" "wal_holds crc (w, fs) log" "cache_fresh fs (reader e)"
  shows "engine_inv crc log X (e\<lparr>inner := (inner e)\<lparr>wal := w\<rparr>, files := fs\<rparr>)"
  using assms unfolding engine_inv_def by simp

lemma engine_inv_notify [simp]: "engine_inv crc log X (notify n e) = engine_inv crc log X e"
  by (simp add: engine_inv_def notify_def)

section \<open>One more record\<close>

text \<open>The state after a record: what each part of the memory has to become.\<close>

lemma engine_inv_snoc:
  assumes "engine_inv crc log X e"
    and "wal_holds crc (wal (inner e'), files e') (log @ [(l, r)])" "cache_fresh (files e') (reader e')"
    and "wf_record r" "retries_ok r"
    and "if op_type r = Created then latest_map log (rec_id r) = None else data_map log (rec_id r) \<noteq> None"
    and "pbq_inv (ready_queue (inner e'))"
    and "delivery (ready_queue (inner e')) = sort_key delivery_key (filter (\<lambda>t. task_id t \<noteq> rec_id r) (ready_refs X log) @
       (case ready_ref (X - {rec_id r}) r of None \<Rightarrow> [] | Some t \<Rightarrow> [t]))"
    and "hm_ok (leased (inner e'))"
    and "\<And>k. hm_get (leased (inner e')) k = (if k = rec_id r then lease_of r else hm_get (leased (inner e)) k)"
    and "\<And>k. hm_get (data_index (inner e')) k = data_step (hm_get (data_index (inner e))) r l k"
    and "\<And>k. hm_get (index (inner e')) k = (if k = rec_id r then Some l else hm_get (index (inner e)) k)"
    and "pc.coherent (payload_cache (inner e')) (data_step (payload_map log) r (rec_payload r))"
    and "next_id (inner e) \<le> next_id (inner e')" "rec_id r < next_id (inner e')"
  shows "engine_inv crc (log @ [(l, r)]) (X - {rec_id r}) e'"
proof -
  note d = engine_invD [OF assms(1)]
  have wf: "log_wf (log @ [(l, r)])" using d(3) assms(4-6) by (rule log_wf_snoc)
  have "data_step (hm_get (data_index (inner e))) r l = data_step (data_map log) r l"
    using d(8) by (intro arg_cong [of _ _ "\<lambda>m. data_step m r l"]) auto
  moreover have "hm_get (index (inner e')) k = Some (fst x)"
    if "latest_map (log @ [(l, r)]) k = Some x" "\<not> ends_task (snd x)" for k x
    using that d(9) [of k x] by (auto simp: assms(12) split: if_splits)
  moreover have "hm_get (leased (inner e')) k = lease_map (X - {rec_id r}) (log @ [(l, r)]) k" for k
    using d(7) by (simp add: assms(10) lease_map_snoc)
  moreover have "\<forall>x \<in> set (log @ [(l, r)]). log_id x < next_id (inner e')"
  proof
    fix x assume "x \<in> set (log @ [(l, r)])"
    then consider "x \<in> set log" | "x = (l, r)" by auto
    then show "log_id x < next_id (inner e')"
      using d(11) [of x] assms(14,15) by cases (auto intro: order_less_le_trans)
  qed
  ultimately show ?thesis
    unfolding engine_inv_def ready_refs_snoc payload_map_simps data_map_simps
    using assms(2,3,7,8,9,11,13) wf by auto
qed

section \<open>Ready and leased tasks\<close>

lemma leased_not_ready:
  assumes "lease_map X log k = Some li"
  shows "filter (\<lambda>t. task_id t \<noteq> k) (ready_refs X log) = ready_refs X log"
proof (rule filter_True, rule ballI)
  fix t assume "t \<in> set (ready_refs X log)"
  then obtain x where x: "latest_map log (task_id t) = Some x" "ready_ref X (snd x) = Some t"
    unfolding ready_refs_iff by blast
  show "task_id t \<noteq> k"
  proof
    assume "task_id t = k"
    then have "lease_of (snd x) = Some li" "k \<notin> X" "rec_id (snd x) = k"
      using assms x(1) latest_map_in [OF x(1)] by (auto simp: lease_map_def split: if_splits)
    then show False
      using x(2) by (auto simp: ready_ref_def lease_of_def Let_def split: if_splits)
  qed
qed

lemma leased_live:
  assumes "log_wf log" "lease_map X log k = Some li"
  shows "data_map log k \<noteq> None" "lease_retries li < MAX_RETRIES" "latest_map log k \<noteq> None"
proof -
  obtain x where x: "latest_map log k = Some x" "lease_of (snd x) = Some li"
    using assms(2) by (auto simp: lease_map_def split: if_splits bind_splits)
  then have "\<not> ends_task (snd x)" using ready_ref_ends(2) by force
  then show "data_map log k \<noteq> None" "latest_map log k \<noteq> None" using log_wf_live [OF assms(1) x(1)] x(1) by simp_all
  show "lease_retries li < MAX_RETRIES"
    using lease_of_retries log_wf_record [OF assms(1)] latest_map_in [OF x(1)] x(2) by blast
qed

lemma ready_live:
  assumes "log_wf log" "t \<in> set (ready_refs X log)"
  shows "data_map log (task_id t) \<noteq> None" "task_retries t < MAX_RETRIES"
proof -
  obtain x where x: "latest_map log (task_id t) = Some x" "ready_ref X (snd x) = Some t"
    using assms(2) unfolding ready_refs_iff by blast
  then have "\<not> ends_task (snd x)" using ready_ref_ends(1) by force
  then show "data_map log (task_id t) \<noteq> None" using log_wf_live [OF assms(1) x(1)] by simp
  show "task_retries t < MAX_RETRIES"
    using ready_ref_retries log_wf_record [OF assms(1)] latest_map_in [OF x(1)] x(2) by blast
qed

lemma sort_key_drop_head:
  assumes "sort_key f xs = t # ts" "distinct (map task_id xs)"
  shows "sort_key f (filter (\<lambda>u. task_id u \<noteq> task_id t) xs) = ts"
proof -
  have "distinct (map task_id (sort_key f xs))" using assms(2) by (simp add: distinct_map)
  then have "distinct (map task_id (t # ts))" unfolding assms(1) .
  then have "filter (\<lambda>u. task_id u \<noteq> task_id t) ts = ts" by (intro filter_True ballI) (auto simp: image_iff)
  then show ?thesis using filter_sort [of "\<lambda>u. task_id u \<noteq> task_id t" f xs] assms(1) by simp
qed

section \<open>Operations\<close>

lemma engine_inv_next:
  assumes "engine_inv crc log X e" "next_id (inner e) \<le> n"
  shows "engine_inv crc log X (e\<lparr>inner := (inner e)\<lparr>next_id := n\<rparr>\<rparr>)"
  using assms unfolding engine_inv_def by (auto intro: order_less_le_trans)

lemma push_ok:
  assumes "engine_inv crc log X e" "length payload \<le> MAX_PAYLOAD_SIZE" "has_room e" "next_id (inner e) \<noteq> - 1"
  shows "\<exists>l e'. push crc AppendOk payload priority e = (Inr (next_id (inner e)), e') \<and>
    engine_inv crc (log @ [(l, new_record (next_id (inner e)) Created priority payload)]) (X - {next_id (inner e)}) e'"
proof -
  define k where "k = next_id (inner e)"
  define r where "r = new_record k Created priority payload"
  define e1 where "e1 = e\<lparr>inner := (inner e)\<lparr>next_id := k + 1\<rparr>\<rparr>"
  have less: "k < k + 1" using assms(4) word_less_plus_one k_def by blast
  have inv1: "engine_inv crc log X e1"
    unfolding e1_def using assms(1) less k_def by (intro engine_inv_next) auto
  note d = engine_invD [OF inv1]
  have "storable r" "has_room e1" using assms(2,3) by (simp_all add: storable_def r_def e1_def)
  then obtain l w fs where app: "log_append crc AppendOk r e1 = (Inr l, e1\<lparr>inner := (inner e1)\<lparr>wal := w\<rparr>, files := fs\<rparr>)"
    "wal_holds crc (w, fs) (log @ [(l, r)])" "cache_fresh fs (reader e1)"
    using log_append_ok [OF inv1] by blast
  define st where "st = (inner e1)\<lparr>wal := w, index := hm_insert k l (index (inner e1)),
    data_index := hm_insert k l (data_index (inner e1)), payload_cache := cache_insert (payload_cache (inner e1)) k payload,
    ready_queue := pbq_push (ready_queue (inner e1)) (task_ref k priority 0)\<rparr>"
  define e2 where "e2 = e1\<lparr>files := fs, inner := st\<rparr>"
  have pushed: "push crc AppendOk payload priority e = (Inr k, notify 1 e2)"
    using app(1) by (simp add: push_def Let_def k_def [symmetric] r_def e1_def e2_def st_def)
  have fresh: "latest_map log k = None"
    using engine_invD(11) [OF assms(1)] unfolding latest_map_None k_def by fastforce
  have nin: "filter (\<lambda>t. task_id t \<noteq> k) (ready_refs X log) = ready_refs X log"
    using fresh ready_refs_iff by (intro filter_True) fastforce
  have "engine_inv crc (log @ [(l, r)]) (X - {rec_id r}) e2"
  proof (rule engine_inv_snoc [OF inv1])
    show "delivery (ready_queue (inner e2)) = sort_key delivery_key (filter (\<lambda>t. task_id t \<noteq> rec_id r) (ready_refs X log) @
       (case ready_ref (X - {rec_id r}) r of None \<Rightarrow> [] | Some t \<Rightarrow> [t]))"
      using d(4,5) nin by (simp add: e2_def st_def r_def ready_ref_def bq.list_push sort_key_snoc del: sort_key_simps)
    show "pc.coherent (payload_cache (inner e2)) (data_step (payload_map log) r (rec_payload r))"
      using pc.coherent_ins [OF d(10)] by (simp add: e2_def st_def r_def data_step_def)
    show "hm_get (leased (inner e2)) i = (if i = rec_id r then lease_of r else hm_get (leased (inner e1)) i)" for i
      using d(7) [of k] fresh by (simp add: e2_def st_def r_def lease_of_def lease_map_def)
  qed (use app d fresh less bq.invar_push in \<open>simp_all add: e2_def st_def r_def e1_def data_step_def wf_record_def
      retries_ok_def ready_ref_def MAX_RETRIES_def\<close>)
  then show ?thesis
    using pushed by (intro exI [of _ l] exI [of _ "notify 1 e2"]) (simp add: r_def k_def)
qed

lemma push_fails:
  assumes "engine_inv crc log X e" "has_room e" "io_fails io (wal (inner e)) err" "next_id (inner e) \<noteq> - 1"
  shows "\<exists>e'. push crc io payload priority e = (Inl err, e') \<and> engine_inv crc log X e'"
proof -
  let ?e1 = "e\<lparr>inner := (inner e)\<lparr>next_id := next_id (inner e) + 1\<rparr>\<rparr>"
  have inv1: "engine_inv crc log X ?e1"
    using assms(1) word_less_plus_one [OF assms(4)] by (intro engine_inv_next) auto
  then obtain w fs where "log_append crc io (new_record (next_id (inner e)) Created priority payload) ?e1 =
      (Inl err, ?e1\<lparr>inner := (inner ?e1)\<lparr>wal := w\<rparr>, files := fs\<rparr>)" "wal_holds crc (w, fs) log" "cache_fresh fs (reader ?e1)"
    using log_append_fails [OF inv1, of io err "new_record (next_id (inner e)) Created priority payload"] assms(2,3)
    by auto
  then show ?thesis using engine_inv_same_log [OF inv1] by (auto simp: push_def Let_def)
qed

text \<open>Reading the payload of a popped task.\<close>

lemma pop_run_Finished [simp]: "pop_run n crc t (Finished res) e = (Finished res, e)"
  by (induction n) (simp_all add: pop_step_def)

lemma pop_run_Reading:
  assumes "read_at crc (files e) (reader e) (fst cur) (snd cur) = (Inr (Some r), cache)"
  shows "pop_run (Suc n) crc t (Reading 0 cur) e =
    (Finished (Inr (Some (new_record (task_id t) Created (task_priority t) (user_payload r), task_retries t))),
     e\<lparr>reader := cache\<rparr>)"
  using assms by (simp add: pop_step_def)

lemma pop_empty:
  assumes "engine_inv crc log X e" "ready_refs X log = []"
  shows "pop_and_lease crc io now c ttl e = (Inr None, e)"
proof -
  have "pbq_pop (ready_queue (inner e)) = Inr (None, ready_queue (inner e))"
    using engine_invD(4,5) [OF assms(1)] assms(2) by (intro bq.pop_Nil) simp_all
  then show ?thesis by (simp add: pop_and_lease_def pop_locked_def)
qed

text \<open>The locked part on a non-empty queue: the head is leased and nothing else changes.\<close>

lemma pop_locked_ok:
  assumes "engine_inv crc log X e" "has_room e" "sort_key delivery_key (ready_refs X log) = t # ts"
    and "r = new_record (task_id t) Leased (task_priority t) (lease_bytes c (now + ttl) (task_retries t))"
  shows "\<exists>l e' dloc cached. pop_locked crc AppendOk now c ttl e =
      (Inr (Some \<lparr>popped = t, data_loc = dloc, cached_payload = cached\<rparr>), e') \<and>
    engine_inv crc (log @ [(l, r)]) (X - {task_id t}) e' \<and> data_map log (task_id t) = Some dloc \<and>
    (\<forall>p. cached = Some p \<longrightarrow> payload_map log (task_id t) = Some p)"
proof -
  note d = engine_invD [OF assms(1)]
  obtain q where q: "pbq_pop (ready_queue (inner e)) = Inr (Some t, q)" "pbq_inv q" "delivery q = ts"
    using bq.pop_Cons [OF d(4)] d(5) assms(3) by auto
  have tin: "t \<in> set (ready_refs X log)" using assms(3) by (metis list.set_intros(1) set_sort)
  note live = ready_live [OF d(3) tin]
  obtain dloc where dloc: "data_map log (task_id t) = Some dloc" using live(1) by blast
  define e1 where "e1 = e\<lparr>inner := (inner e)\<lparr>ready_queue := q\<rparr>\<rparr>"
  have st: "storable r" by (simp add: storable_def assms(4) MAX_PAYLOAD_SIZE_def)
  obtain l w fs where app: "wal_append crc AppendOk r (wal (inner e)) (files e) = (Inr l, w, fs)"
    "wal_holds crc (w, fs) (log @ [(l, r)])" "cache_fresh fs (reader e)"
    using wal_append_step [OF assms(1) st assms(2)] by blast
  have app1: "log_append crc AppendOk r e1 = (Inr l, e1\<lparr>inner := (inner e1)\<lparr>wal := w\<rparr>, files := fs\<rparr>)"
    using app(1) by (simp add: log_append_def e1_def)
  define st where "st = (inner e1)\<lparr>wal := w, index := hm_insert (task_id t) l (index (inner e1)),
    leased := hm_insert (task_id t) (lease_info c (now + ttl) (task_retries t) (task_priority t)) (leased (inner e1)),
    payload_cache := snd (cache_get (payload_cache (inner e1)) (task_id t))\<rparr>"
  define e2 where "e2 = e1\<lparr>files := fs, inner := st\<rparr>"
  let ?cached = "cache_lookup (payload_cache (inner e)) (task_id t)"
  have res: "pop_locked crc AppendOk now c ttl e =
      (Inr (Some \<lparr>popped = t, data_loc = dloc, cached_payload = ?cached\<rparr>), e2)"
    using app1 q(1) d(8) [of "task_id t"] dloc
    by (simp add: pop_locked_def Let_def assms(4) e1_def e2_def st_def) (simp add: case_prod_unfold)
  have "engine_inv crc (log @ [(l, r)]) (X - {rec_id r}) e2"
  proof (rule engine_inv_snoc [OF assms(1)])
    have "sort_key delivery_key (filter (\<lambda>u. task_id u \<noteq> task_id t) (ready_refs X log)) = ts"
      by (rule sort_key_drop_head [OF assms(3) distinct_ready_refs])
    then show "delivery (ready_queue (inner e2)) = sort_key delivery_key (filter (\<lambda>u. task_id u \<noteq> rec_id r) (ready_refs X log) @
       (case ready_ref (X - {rec_id r}) r of None \<Rightarrow> [] | Some t \<Rightarrow> [t]))"
      using q(3) by (simp add: e2_def st_def e1_def assms(4) ready_ref_def)
    show "pc.coherent (payload_cache (inner e2)) (data_step (payload_map log) r (rec_payload r))"
      using d(10) by (simp add: e2_def st_def e1_def assms(4) data_step_def ends_task_def pc.coherent_def cache_inv_get)
    show "retries_ok r" using live(2) by (simp add: retries_ok_def assms(4) ready_ref_def lease_info_def)
    show "rec_id r < next_id (inner e2)"
    proof -
      obtain x where "latest_map log (task_id t) = Some x" using tin ready_refs_iff by blast
      then show ?thesis using d(11) latest_map_in by (fastforce simp: e2_def st_def e1_def assms(4))
    qed
  qed (use app d q live in \<open>simp_all add: e2_def st_def e1_def assms(4) data_step_def ends_task_def wf_record_def\<close>)
  moreover have "payload_map log (task_id t) = Some p" if "?cached = Some p" for p
    using pc.coherentD [OF d(10)] that by simp
  ultimately show ?thesis using res dloc
    by (intro exI [of _ l] exI [of _ e2] exI [of _ dloc] exI [of _ ?cached]) (simp add: assms(4))
qed

text \<open>\<open>pop_and_lease\<close> hands out the head of the ready list with the payload it was pushed with.\<close>

lemma user_payload_Created: "op_type r = Created \<Longrightarrow> user_payload r = rec_payload r"
  by (simp add: user_payload_def)

lemma engine_inv_reader: "engine_inv crc log X e \<Longrightarrow> cache_fresh (files e) c \<Longrightarrow> engine_inv crc log X (e\<lparr>reader := c\<rparr>)"
  unfolding engine_inv_def by simp

lemma pop_ok:
  assumes "engine_inv crc log X e" "has_room e" "sort_key delivery_key (ready_refs X log) = t # ts"
    and "r = new_record (task_id t) Leased (task_priority t) (lease_bytes c (now + ttl) (task_retries t))"
  shows "\<exists>l e' p. pop_and_lease crc AppendOk now c ttl e =
      (Inr (Some (new_record (task_id t) Created (task_priority t) p, task_retries t)), e') \<and>
    payload_map log (task_id t) = Some p \<and> engine_inv crc (log @ [(l, r)]) (X - {task_id t}) e'"
proof -
  obtain l e1 dloc cached where lock: "pop_locked crc AppendOk now c ttl e =
      (Inr (Some \<lparr>popped = t, data_loc = dloc, cached_payload = cached\<rparr>), e1)"
    and inv1: "engine_inv crc (log @ [(l, r)]) (X - {task_id t}) e1" and dloc: "data_map log (task_id t) = Some dloc"
    and hit: "\<forall>p. cached = Some p \<longrightarrow> payload_map log (task_id t) = Some p"
    using pop_locked_ok [OF assms] by blast
  show ?thesis
  proof (cases cached)
    case (Some p)
    then show ?thesis using lock inv1 hit
      by (intro exI [of _ l] exI [of _ e1] exI [of _ p]) (simp add: pop_and_lease_def pop_start_def)
  next
    case None
    obtain x where x: "(dloc, x) \<in> set log" "op_type x = Created" "payload_map log (task_id t) = Some (rec_payload x)"
      using data_map_record [OF dloc] by blast
    obtain cache where "read_at crc (files e1) (reader e1) (fst dloc) (snd dloc) = (Inr (Some x), cache)"
        "cache_fresh (files e1) cache"
      using wl.read_law [OF engine_invD(1) [OF inv1], of "reader e1" dloc x] engine_invD(2) [OF inv1] x(1) by auto
    then have "pop_and_lease crc AppendOk now c ttl e =
        (Inr (Some (new_record (task_id t) Created (task_priority t) (rec_payload x), task_retries t)), e1\<lparr>reader := cache\<rparr>)"
        "engine_inv crc (log @ [(l, r)]) (X - {task_id t}) (e1\<lparr>reader := cache\<rparr>)"
      using lock None inv1 pop_run_Reading [of crc e1 dloc x cache 4 t] user_payload_Created [OF x(2)] engine_inv_reader
      by (simp_all add: pop_and_lease_def pop_start_def)
    then show ?thesis using x(3) by blast
  qed
qed

text \<open>Acknowledging.\<close>

lemma ack_ok:
  assumes "engine_inv crc log X e" "has_room e" "hm_get (leased (inner e)) k = Some li" "consumer_id li = c"
  shows "\<exists>l e'. ack crc AppendOk k c e = (Inr (), e') \<and>
    engine_inv crc (log @ [(l, new_record k Acked (lease_priority li) [])]) (X - {k}) e'"
proof -
  note d = engine_invD [OF assms(1)]
  define r where "r = new_record k Acked (lease_priority li) []"
  have lm: "lease_map X log k = Some li" using d(7) assms(3) by simp
  note live = leased_live [OF d(3) lm]
  have st: "storable r" by (simp add: storable_def r_def)
  obtain l w fs where app: "wal_append crc AppendOk r (wal (inner e)) (files e) = (Inr l, w, fs)"
    "wal_holds crc (w, fs) (log @ [(l, r)])" "cache_fresh fs (reader e)"
    using wal_append_step [OF assms(1) st assms(2)] by blast
  define st where "st = (inner e)\<lparr>wal := w, index := hm_insert k l (index (inner e)), leased := hm_remove k (leased (inner e)),
    data_index := hm_remove k (data_index (inner e)), payload_cache := snd (cache_remove (payload_cache (inner e)) k)\<rparr>"
  define e2 where "e2 = e\<lparr>files := fs, inner := st\<rparr>"
  have res: "ack crc AppendOk k c e = (Inr (), e2)"
    using app(1) assms(3,4) by (simp add: ack_def log_append_def Let_def r_def e2_def st_def)
  have "engine_inv crc (log @ [(l, r)]) (X - {rec_id r}) e2"
  proof (rule engine_inv_snoc [OF assms(1)])
    show "delivery (ready_queue (inner e2)) = sort_key delivery_key (filter (\<lambda>u. task_id u \<noteq> rec_id r) (ready_refs X log) @
       (case ready_ref (X - {rec_id r}) r of None \<Rightarrow> [] | Some t \<Rightarrow> [t]))"
      using d(5) leased_not_ready [OF lm] by (simp add: e2_def st_def r_def ready_ref_def)
    show "pc.coherent (payload_cache (inner e2)) (data_step (payload_map log) r (rec_payload r))"
      using pc.coherent_del [OF d(10)] by (simp add: e2_def st_def r_def data_step_def ends_task_def)
    show "rec_id r < next_id (inner e2)"
      using live(3) d(11) latest_map_in by (fastforce simp: e2_def st_def r_def)
  qed (use app d live in \<open>simp_all add: e2_def st_def r_def data_step_def ends_task_def wf_record_def lease_of_def
      retries_ok_def ready_ref_def\<close>)
  then show ?thesis using res by (intro exI [of _ l] exI [of _ e2]) (simp add: r_def)
qed

text \<open>A failed or expired lease: back to the queue, or out of it after the third failure.\<close>

lemma retry_bound: "n < MAX_RETRIES \<Longrightarrow> unat (n + 1) = Suc (unat n) \<and> n + 1 \<le> MAX_RETRIES"
proof -
  assume "n < MAX_RETRIES"
  then have n: "unat n < 3" by (simp add: MAX_RETRIES_def word_less_nat_alt)
  then have "unat (n + 1) = Suc (unat n)" by (simp add: unat_word_ariths)
  then show ?thesis using n by (simp add: MAX_RETRIES_def word_le_nat_alt)
qed

lemma task_failure_ok:
  assumes "engine_inv crc log X e" "has_room e" "hm_get (leased (inner e)) k = Some li" "ft \<in> {Nacked, Expired}"
    and "n = lease_retries li" "r = new_record k (if n + 1 \<ge> MAX_RETRIES then DeadLettered else ft) pr [n + 1]"
  shows "\<exists>l e'. process_task_failure crc AppendOk k pr n ft e = (Inr (n + 1 < MAX_RETRIES), e') \<and>
    engine_inv crc (log @ [(l, r)]) (X - {k}) e' \<and>
    leased (inner e') = hm_remove k (leased (inner e)) \<and> on_task_ready (inner e') = on_task_ready (inner e)"
proof -
  note d = engine_invD [OF assms(1)]
  have lm: "lease_map X log k = Some li" using d(7) assms(3) by simp
  note live = leased_live [OF d(3) lm]
  have st: "storable r" by (simp add: storable_def assms(6) MAX_PAYLOAD_SIZE_def)
  obtain l w fs where app: "wal_append crc AppendOk r (wal (inner e)) (files e) = (Inr l, w, fs)"
    "wal_holds crc (w, fs) (log @ [(l, r)])" "cache_fresh fs (reader e)"
    using wal_append_step [OF assms(1) st assms(2)] by blast
  define st where "st = (inner e)\<lparr>wal := w, index := hm_insert k l (index (inner e)), leased := hm_remove k (leased (inner e))\<rparr>"
  define e2 where "e2 = e\<lparr>files := fs, inner := (if n + 1 \<ge> MAX_RETRIES
      then st\<lparr>data_index := hm_remove k (data_index (inner e)), payload_cache := snd (cache_remove (payload_cache (inner e)) k)\<rparr>
      else st\<lparr>ready_queue := pbq_push (ready_queue (inner e)) (task_ref k pr (n + 1))\<rparr>)\<rparr>"
  have res: "process_task_failure crc AppendOk k pr n ft e = (Inr (n + 1 < MAX_RETRIES), e2)"
    using app(1) assms(4) by (auto simp: process_task_failure_def log_append_def Let_def assms(6) e2_def st_def)
  have "engine_inv crc (log @ [(l, r)]) (X - {rec_id r}) e2"
  proof (rule engine_inv_snoc [OF assms(1)])
    have [simp]: "pbq_inv (ready_queue (inner e))" by (rule d(4))
    show "delivery (ready_queue (inner e2)) = sort_key delivery_key (filter (\<lambda>u. task_id u \<noteq> rec_id r) (ready_refs X log) @
       (case ready_ref (X - {rec_id r}) r of None \<Rightarrow> [] | Some t \<Rightarrow> [t]))"
      using d(5) leased_not_ready [OF lm] assms(4)
      by (auto simp: e2_def st_def assms(6) ready_ref_def first_byte_def bq.list_push sort_key_snoc simp del: sort_key_simps)
    show "pc.coherent (payload_cache (inner e2)) (data_step (payload_map log) r (rec_payload r))"
      using pc.coherent_del [OF d(10)] d(10) assms(4) by (auto simp: e2_def st_def assms(6) data_step_def ends_task_def)
    show "rec_id r < next_id (inner e2)"
      using live(3) d(11) latest_map_in by (fastforce simp: e2_def st_def assms(6))
    show "retries_ok r" using assms(4)
      by (auto simp: assms(6) retries_ok_def ready_ref_def first_byte_def)
    show "hm_get (leased (inner e2)) i = (if i = rec_id r then lease_of r else hm_get (leased (inner e)) i)" for i
      using assms(4) by (auto simp: e2_def st_def assms(6) lease_of_def)
  qed (use app d live assms(4) bq.invar_push in \<open>auto simp: e2_def st_def assms(6) data_step_def ends_task_def wf_record_def\<close>)
  then show ?thesis using res by (intro exI [of _ l] exI [of _ e2]) (simp add: assms(6) e2_def st_def)
qed

text \<open>What remains of an operation when its append fails: nothing.\<close>

lemma task_failure_fails:
  assumes "engine_inv crc log X e" "has_room e" "io_fails io (wal (inner e)) err"
  shows "\<exists>e'. process_task_failure crc io k pr n ft e = (Inl err, e') \<and> engine_inv crc log X e' \<and>
    leased (inner e') = leased (inner e) \<and> on_task_ready (inner e') = on_task_ready (inner e)"
proof -
  let ?r = "new_record k (if n + 1 \<ge> MAX_RETRIES then DeadLettered else ft) pr [n + 1]"
  obtain w fs where "log_append crc io ?r e = (Inl err, e\<lparr>inner := (inner e)\<lparr>wal := w\<rparr>, files := fs\<rparr>)"
      "wal_holds crc (w, fs) log" "cache_fresh fs (reader e)"
    using log_append_fails [OF assms, of ?r] by blast
  then show ?thesis using engine_inv_same_log [OF assms(1)] by (auto simp: process_task_failure_def Let_def)
qed

lemma ack_fails:
  assumes "engine_inv crc log X e" "has_room e" "io_fails io (wal (inner e)) err"
    and "hm_get (leased (inner e)) k = Some li" "consumer_id li = c"
  shows "\<exists>e'. ack crc io k c e = (Inl err, e') \<and> engine_inv crc log X e'"
proof -
  obtain w fs where "log_append crc io (new_record k Acked (lease_priority li) []) e =
      (Inl err, e\<lparr>inner := (inner e)\<lparr>wal := w\<rparr>, files := fs\<rparr>)" "wal_holds crc (w, fs) log" "cache_fresh fs (reader e)"
    using log_append_fails [OF assms(1-3), of "new_record k Acked (lease_priority li) []"] by blast
  then show ?thesis using engine_inv_same_log [OF assms(1)] assms(4,5) by (auto simp: ack_def)
qed

section \<open>Rounds of the expiration worker\<close>

text \<open>
  Appends that either succeed or leave the log as it was: all but a failed \<open>open\<close> after
  the segment counter has moved, and a partial write that could not be cut back.
\<close>

definition io_clean :: "append_io \<Rightarrow> bool" where
  "io_clean io = (case io of AppendOk \<Rightarrow> True | SyncFails _ \<Rightarrow> True | OpenFails _ \<Rightarrow> False | WriteFails _ _ truncated \<Rightarrow> truncated)"

lemma io_clean_cases:
  assumes "io_clean io"
  obtains (ok) "\<And>r fs. wal_append crc io r w fs = wal_append crc AppendOk r w fs" | (fails) err where "io_fails io w err"
proof (cases io)
  case (SyncFails err)
  then show ?thesis
    using that by (cases "max_segment_size w \<le> current_size w") (auto simp: io_fails_def wal_append_def)
qed (use assms that in \<open>auto simp: io_clean_def io_fails_def\<close>)

lemma append_active:
  assumes "wal_append crc io r w fs = (res, w', fs')"
  shows "unat (active_segment_id w') \<le> Suc (unat (active_segment_id w))"
proof -
  have inc: "unat (a + 1) \<le> Suc (unat a)" for a :: u64
    by (cases "a = - 1") (simp_all add: unat_word_ariths)
  have "active_segment_id w' = active_segment_id w \<or> active_segment_id w' = active_segment_id w + 1"
    using assms by (auto simp: wal_append_def wal_rotate_def Let_def
        split: if_splits append_io.splits sum.splits prod.splits)
  then show ?thesis using inc by auto
qed

abbreviation room_for :: "nat \<Rightarrow> Engine \<Rightarrow> bool" where
  "room_for n e \<equiv> unat (active_segment_id (wal (inner e))) + n < 2 ^ 64"

lemma room_for_has_room: "room_for (Suc n) e \<Longrightarrow> has_room e"
  by (auto simp: unsigned_minus_1_eq_mask mask_eq_exp_minus_1)

lemma task_failure_active:
  assumes "process_task_failure crc io k pr n ft e = (res, e')" "room_for (Suc m) e"
  shows "room_for m e'"
proof -
  obtain res' w fs where a: "wal_append crc io (new_record k (if n + 1 \<ge> MAX_RETRIES then DeadLettered else ft) pr [n + 1])
      (wal (inner e)) (files e) = (res', w, fs)" by (metis prod_cases3)
  have "wal (inner e') = w"
    using assms(1) a by (auto simp: process_task_failure_def log_append_def Let_def split: sum.splits if_splits)
  then show ?thesis using append_active [OF a] assms(2) by simp
qed

text \<open>A list of distinct tasks that are leased with the given priority and retries.\<close>

definition expired_leases :: "(u64 \<times> u8 \<times> u8) list \<Rightarrow> Engine \<Rightarrow> bool" where
  "expired_leases tasks e \<longleftrightarrow>
     distinct (map fst tasks) \<and>
     (\<forall>(k, pr, n) \<in> set tasks. \<exists>li. hm_get (leased (inner e)) k = Some li \<and> lease_priority li = pr \<and> lease_retries li = n)"

lemma collect_expired_leases:
  assumes "hm_ok (leased (inner e))"
  shows "expired_leases (collect_expired now e) e"
proof -
  have "map fst (collect_expired now e) = map fst (filter (\<lambda>(k, l). now \<ge> expire_timestamp l) (leased (inner e)))"
    by (simp add: collect_expired_def comp_def case_prod_unfold)
  moreover have "distinct (map fst (filter P (leased (inner e))))" for P
    using assms by (simp add: hm_ok_def distinct_map_filter)
  ultimately show ?thesis
    using assms by (auto simp: expired_leases_def) (auto simp: collect_expired_def hm_get_Some_iff)
qed

end
