(* ===== verification/Engine_Recovery.thy ===== *)
theory Engine_Recovery
  imports Engine_Inv
begin

text \<open>
  Recovery: opening a directory rebuilds, from the log alone, a memory that satisfies the
  invariant of a running engine. Leases that have expired by then count as ready.
\<close>

section \<open>First pass\<close>

definition created_map :: "log \<Rightarrow> u64 \<rightharpoonup> loc" where
  "created_map log = foldl (\<lambda>m (l, r). if op_type r = Created then m(rec_id r \<mapsto> l) else m) Map.empty log"

lemma created_map_simps [simp]:
  "created_map [] = Map.empty"
  "created_map (log @ [(l, r)]) = (if op_type r = Created then (created_map log)(rec_id r \<mapsto> l) else created_map log)"
  by (simp_all add: created_map_def)

lemma created_data: "data_map log k = Some l \<Longrightarrow> created_map log k = Some l"
proof (induction log arbitrary: l rule: rev_induct)
  case (snoc x log)
  then show ?case by (cases x) (auto simp: data_step_def split: if_splits)
qed simp

lemma created_None: "latest_map log k = None \<Longrightarrow> created_map log k = None"
proof (induction log rule: rev_induct)
  case (snoc x log)
  then show ?case by (cases x) (auto split: if_splits)
qed simp

lemma recover_pass1_spec:
  assumes "\<forall>x \<in> set log. log_id x \<noteq> - 1" "index st = []" "data_index st = []"
  shows "hm_ok (index (foldl recover_pass1 st log)) \<and>
    (\<forall>k. hm_get (index (foldl recover_pass1 st log)) k = map_option fst (latest_map log k)) \<and>
    (\<forall>k. hm_get (data_index (foldl recover_pass1 st log)) k = created_map log k) \<and>
    (\<forall>x \<in> set log. log_id x < next_id (foldl recover_pass1 st log)) \<and>
    wal (foldl recover_pass1 st log) = wal st \<and> ready_queue (foldl recover_pass1 st log) = ready_queue st \<and>
    leased (foldl recover_pass1 st log) = leased st \<and> payload_cache (foldl recover_pass1 st log) = payload_cache st"
  using assms
proof (induction log rule: rev_induct)
  case (snoc x log)
  obtain l r where x: "x = (l, r)" by fastforce
  define s where "s = foldl recover_pass1 st log"
  have IH: "hm_ok (index s)" "\<forall>k. hm_get (index s) k = map_option fst (latest_map log k)"
    "\<forall>k. hm_get (data_index s) k = created_map log k" "\<forall>x \<in> set log. log_id x < next_id s"
    "wal s = wal st" "ready_queue s = ready_queue st" "leased s = leased st" "payload_cache s = payload_cache st"
    using snoc by (auto simp: s_def)
  have "rec_id r < rec_id r + 1" using snoc.prems(1) word_less_plus_one [of "rec_id r"] by (simp add: x)
  then have "\<forall>y \<in> set (log @ [x]). log_id y < next_id (recover_pass1 s x)"
    using IH(4) by (auto simp: recover_pass1_def Let_def x not_le)
  then show ?case using IH unfolding foldl_append foldl.simps s_def [symmetric]
    by (auto simp: recover_pass1_def Let_def x)
qed simp

section \<open>The order of the second pass\<close>

lemma option_eqI: "(\<And>x. a = Some x \<longleftrightarrow> b = Some x) \<Longrightarrow> a = b"
  by (cases a; cases b) auto

lemma map_of_keyed:
  assumes "distinct (map f xs)"
  shows "map_of (map (\<lambda>x. (f x, x)) xs) k = Some x \<longleftrightarrow> x \<in> set xs \<and> f x = k"
proof -
  have "distinct (map fst (map (\<lambda>x. (f x, x)) xs))" using assms by (simp add: comp_def)
  from map_of_eq_Some_iff [OF this] show ?thesis by auto
qed

lemma map_of_latest: "map_of (map (\<lambda>x. (log_id x, x)) (latest log)) k = latest_map log k"
  by (rule option_eqI) (simp only: map_of_keyed [OF distinct_latest] latest_map_iff)

text \<open>Sorting the index by location puts the tasks in the order of their last records.\<close>

lemma sorted_index:
  assumes "sorted_wrt (<) (map fst log)" "hm_ok ix" "\<forall>k. hm_get ix k = map_option fst (latest_map log k)"
  shows "sort_key snd ix = map (\<lambda>x. (log_id x, fst x)) (latest log)"
proof -
  have iff: "(k, l) \<in> set ix \<longleftrightarrow> (\<exists>x. x \<in> set (latest log) \<and> log_id x = k \<and> l = fst x)" for k l
  proof -
    have "(k, l) \<in> set ix \<longleftrightarrow> map_option fst (latest_map log k) = Some l"
      unfolding hm_get_Some_iff [OF assms(2), symmetric] assms(3) [rule_format] ..
    then show ?thesis unfolding map_option_eq_Some latest_map_iff by blast
  qed
  have set_ix: "set ix = (\<lambda>x. (log_id x, fst x)) ` set (latest log)"
    unfolding set_eq_iff split_paired_All iff image_iff by blast
  have srt: "sorted_wrt (<) (map fst (latest log))" by (rule sorted_latest [OF assms(1)])
  then have d: "distinct (map fst (latest log))" and s: "sorted (map fst (latest log))"
    by (simp_all add: strict_sorted_iff)
  have inj: "inj_on snd (set ix)"
    using d unfolding set_ix by (auto simp: inj_on_def distinct_map)
  have dist: "distinct (map snd (sort_key snd ix))"
    using assms(2) inj by (simp add: distinct_map hm_ok_def)
  show ?thesis
  proof (rule map_sorted_distinct_set_unique [where f = snd])
    show "inj_on snd (set (sort_key snd ix) \<union> set (map (\<lambda>x. (log_id x, fst x)) (latest log)))"
      using inj set_ix by simp
  qed (use dist d s set_ix in \<open>simp_all add: comp_def\<close>)
qed

section \<open>Second pass\<close>

definition recover_last :: "u64 \<Rightarrow> EngineState \<Rightarrow> loc \<times> Record \<Rightarrow> EngineState" where
  "recover_last now st x = recover_entry now (log_id x) (fst x) (snd x) st"

lemma recover_pass2_log:
  assumes "wal_holds crc (w, fs) log" "set xs \<subseteq> set log" "cache_fresh fs cache"
  shows "\<exists>cache'. recover_pass2 crc now fs (map (\<lambda>x. (log_id x, fst x)) xs) cache st =
      (Inr (foldl (recover_last now) st xs), cache') \<and> cache_fresh fs cache'"
  using assms(2,3)
proof (induction xs arbitrary: cache st)
  case (Cons x xs)
  obtain cache1 where "read_at crc fs cache (fst (fst x)) (snd (fst x)) = (Inr (Some (snd x)), cache1)" "cache_fresh fs cache1"
    using wl.read_law [OF assms(1), of cache "fst x" "snd x"] Cons.prems by auto
  then show ?case using Cons.IH [of cache1 "recover_last now st x"] Cons.prems by (simp add: recover_last_def)
qed simp

text \<open>The leases that are over when the directory is opened.\<close>

definition lease_over :: "u64 \<Rightarrow> Record \<Rightarrow> bool" where
  "lease_over now r = (case lease_of r of None \<Rightarrow> False | Some li \<Rightarrow> expire_timestamp li \<le> now)"

definition expired_ids :: "u64 \<Rightarrow> log \<Rightarrow> u64 set" where
  "expired_ids now log = {k. \<exists>x. latest_map log k = Some x \<and> lease_over now (snd x)}"

lemma expired_ids_latest: "x \<in> set (latest log) \<Longrightarrow> log_id x \<in> expired_ids now log \<longleftrightarrow> lease_over now (snd x)"
proof -
  assume "x \<in> set (latest log)"
  then have "latest_map log (log_id x) = Some x" using latest_map_iff by blast
  then show ?thesis by (cases x) (simp add: expired_ids_def)
qed

text \<open>The effect of one entry, with \<open>X\<close> the expired leases.\<close>

lemma recover_last_effect:
  assumes "log_id x \<in> X \<longleftrightarrow> lease_over now (snd x)"
  shows "ready_queue (recover_last now st x) =
      (case ready_ref X (snd x) of None \<Rightarrow> ready_queue st | Some t \<Rightarrow> pbq_push (ready_queue st) t)"
    "leased (recover_last now st x) =
      (case lease_of (snd x) of
         None \<Rightarrow> leased st
       | Some li \<Rightarrow> if log_id x \<in> X then leased st else hm_insert (log_id x) li (leased st))"
    "hm_get (data_index (recover_last now st x)) k =
      (if k = log_id x
       then if ends_task (snd x) then None
            else (case hm_get (data_index st) k of None \<Rightarrow> Some (fst x) | Some l \<Rightarrow> Some l)
       else hm_get (data_index st) k)"
    "hm_get (index (recover_last now st x)) k =
      (if k = log_id x \<and> ends_task (snd x) then None else hm_get (index st) k)"
    "wal (recover_last now st x) = wal st" "next_id (recover_last now st x) = next_id st"
    "payload_cache (recover_last now st x) = payload_cache st"
proof -
  show "ready_queue (recover_last now st x) =
      (case ready_ref X (snd x) of None \<Rightarrow> ready_queue st | Some t \<Rightarrow> pbq_push (ready_queue st) t)"
    using assms by (cases "op_type (snd x)")
      (auto simp: recover_last_def recover_entry_def Let_def ready_ref_def lease_of_def lease_over_def)
  show "leased (recover_last now st x) =
      (case lease_of (snd x) of
         None \<Rightarrow> leased st
       | Some li \<Rightarrow> if log_id x \<in> X then leased st else hm_insert (log_id x) li (leased st))"
    using assms by (cases "op_type (snd x)")
      (auto simp: recover_last_def recover_entry_def Let_def lease_of_def lease_over_def)
  show "hm_get (data_index (recover_last now st x)) k =
      (if k = log_id x
       then if ends_task (snd x) then None
            else (case hm_get (data_index st) k of None \<Rightarrow> Some (fst x) | Some l \<Rightarrow> Some l)
       else hm_get (data_index st) k)"
    by (cases "op_type (snd x)")
      (auto simp: recover_last_def recover_entry_def Let_def ends_task_def hm_contains_def split: option.split)
  show "hm_get (index (recover_last now st x)) k =
      (if k = log_id x \<and> ends_task (snd x) then None else hm_get (index st) k)"
    "wal (recover_last now st x) = wal st" "next_id (recover_last now st x) = next_id st"
    "payload_cache (recover_last now st x) = payload_cache st"
    by (cases "op_type (snd x)"; auto simp: recover_last_def recover_entry_def Let_def ends_task_def)+
qed

text \<open>The effect of a list of entries for distinct tasks.\<close>

abbreviation entry_of :: "log \<Rightarrow> u64 \<Rightarrow> (loc \<times> Record) option" where
  "entry_of xs k \<equiv> map_of (map (\<lambda>x. (log_id x, x)) xs) k"

lemma entry_of_None: "log_id x \<notin> log_id ` set xs \<Longrightarrow> entry_of xs (log_id x) = None"
  by (simp add: map_of_eq_None_iff image_image)

lemma recover_fold_queue:
  assumes "\<forall>x \<in> set xs. log_id x \<in> X \<longleftrightarrow> lease_over now (snd x)"
  shows "ready_queue (foldl (recover_last now) st xs) =
      foldl pbq_push (ready_queue st) (List.map_filter (\<lambda>x. ready_ref X (snd x)) xs)"
    "wal (foldl (recover_last now) st xs) = wal st" "next_id (foldl (recover_last now) st xs) = next_id st"
    "payload_cache (foldl (recover_last now) st xs) = payload_cache st"
    "hm_ok (leased st) \<Longrightarrow> hm_ok (leased (foldl (recover_last now) st xs))"
proof -
  have "ready_queue (foldl (recover_last now) st xs) =
      foldl pbq_push (ready_queue st) (List.map_filter (\<lambda>x. ready_ref X (snd x)) xs) \<and>
    wal (foldl (recover_last now) st xs) = wal st \<and> next_id (foldl (recover_last now) st xs) = next_id st \<and>
    payload_cache (foldl (recover_last now) st xs) = payload_cache st \<and>
    (hm_ok (leased st) \<longrightarrow> hm_ok (leased (foldl (recover_last now) st xs)))"
    using assms
  proof (induction xs arbitrary: st)
    case (Cons x xs)
    have x: "log_id x \<in> X \<longleftrightarrow> lease_over now (snd x)" using Cons.prems by simp
    note f = recover_last_effect [OF x]
    have "hm_ok (leased st) \<longrightarrow> hm_ok (leased (recover_last now st x))" by (simp add: f(2) split: option.split)
    then show ?case using Cons.IH [of "recover_last now st x"] Cons.prems
      by (simp add: f(1,5-7) map_filter_simps split: option.split)
  qed (simp add: map_filter_simps)
  then show "ready_queue (foldl (recover_last now) st xs) =
      foldl pbq_push (ready_queue st) (List.map_filter (\<lambda>x. ready_ref X (snd x)) xs)"
    "wal (foldl (recover_last now) st xs) = wal st" "next_id (foldl (recover_last now) st xs) = next_id st"
    "payload_cache (foldl (recover_last now) st xs) = payload_cache st"
    "hm_ok (leased st) \<Longrightarrow> hm_ok (leased (foldl (recover_last now) st xs))" by blast+
qed

lemma recover_fold_maps:
  assumes "\<forall>x \<in> set xs. log_id x \<in> X \<longleftrightarrow> lease_over now (snd x)" "distinct (map log_id xs)"
  shows "hm_get (leased (foldl (recover_last now) st xs)) k =
      (case entry_of xs k of
         None \<Rightarrow> hm_get (leased st) k
       | Some x \<Rightarrow> (case lease_of (snd x) of
           Some li \<Rightarrow> if k \<in> X then hm_get (leased st) k else Some li | None \<Rightarrow> hm_get (leased st) k)) \<and>
    hm_get (data_index (foldl (recover_last now) st xs)) k =
      (case entry_of xs k of
         None \<Rightarrow> hm_get (data_index st) k
       | Some x \<Rightarrow> if ends_task (snd x) then None
           else (case hm_get (data_index st) k of None \<Rightarrow> Some (fst x) | Some l \<Rightarrow> Some l)) \<and>
    hm_get (index (foldl (recover_last now) st xs)) k =
      (case entry_of xs k of
         None \<Rightarrow> hm_get (index st) k
       | Some x \<Rightarrow> if ends_task (snd x) then None else hm_get (index st) k)"
  using assms
proof (induction xs arbitrary: st)
  case (Cons x xs)
  have x: "log_id x \<in> X \<longleftrightarrow> lease_over now (snd x)" using Cons.prems by simp
  note f = recover_last_effect [OF x]
  have none: "entry_of xs (log_id x) = None" using Cons.prems(2) by (intro entry_of_None) simp
  note IH = Cons.IH [of "recover_last now st x"]
  show ?case
  proof (cases "k = log_id x")
    case True
    then show ?thesis using IH Cons.prems none by (simp add: f split: option.split)
  next
    case False
    then have "entry_of (x # xs) k = entry_of xs k" by simp
    then show ?thesis using IH Cons.prems False by (simp add: f split: option.split)
  qed
qed simp

section \<open>Opening\<close>

text \<open>Both passes as folds over the log, whatever log it is.\<close>

lemma recover_fold:
  assumes "wal_holds crc (w, fs) log" "\<forall>x \<in> set log. log_id x \<noteq> - 1"
  shows "\<exists>cache. recover crc now fs [] (new_state w cap) =
      (Inr (foldl (recover_last now) (foldl recover_pass1 (new_state w cap) log) (latest log), cache), fs) \<and> cache_fresh fs cache"
proof -
  define s1 where "s1 = foldl recover_pass1 (new_state w cap) log"
  have p1: "hm_ok (index s1)" "\<forall>k. hm_get (index s1) k = map_option fst (latest_map log k)"
    using recover_pass1_spec [OF assms(2), of "new_state w cap"] by (simp_all add: s1_def new_state_def)
  have entries: "sort_key snd (index s1) = map (\<lambda>x. (log_id x, fst x)) (latest log)"
    by (rule sorted_index [OF wl.sorted_law [OF assms(1)] p1])
  obtain cache where p2: "recover_pass2 crc now fs (sort_key snd (index s1)) [] s1 =
      (Inr (foldl (recover_last now) s1 (latest log)), cache)" "cache_fresh fs cache"
    using recover_pass2_log [OF assms(1) set_latest cache_fresh_Nil] unfolding entries by blast
  obtain segs where "wal_repr crc w fs segs" "log = log_of segs" using assms(1) by (auto simp: wal_holds_def)
  then have it: "iter_all fs = (fst (iter_all fs), fs)" "iter_collect crc fs (fst (iter_all fs)) = Inr log"
    using iter_all_log by blast+
  have "recover crc now fs [] (new_state w cap) = (Inr (foldl (recover_last now) s1 (latest log), cache), fs)"
    unfolding recover_def by (subst it(1)) (simp add: it(2) s1_def [symmetric] p2(1))
  then show ?thesis using p2(2) unfolding s1_def by blast
qed

lemma recover_spec:
  assumes "wal_holds crc (w, fs) log" "log_wf log" "\<forall>x \<in> set log. log_id x \<noteq> - 1"
  shows "\<exists>st cache. recover crc now fs [] (new_state w cap) = (Inr (st, cache), fs) \<and>
    engine_inv crc log (expired_ids now log) \<lparr>inner = st, files = fs, reader = cache, callbacks = 0\<rparr>"
proof -
  let ?X = "expired_ids now log"
  define s1 where "s1 = foldl recover_pass1 (new_state w cap) log"
  have p1: "hm_ok (index s1)" "\<forall>k. hm_get (index s1) k = map_option fst (latest_map log k)"
    "\<forall>k. hm_get (data_index s1) k = created_map log k" "\<forall>x \<in> set log. log_id x < next_id s1"
    "wal s1 = w" "ready_queue s1 = pbq_new" "leased s1 = []" "payload_cache s1 = cache_new cap"
    using recover_pass1_spec [OF assms(3), of "new_state w cap"] by (simp_all add: s1_def new_state_def)
  define s2 where "s2 = foldl (recover_last now) s1 (latest log)"
  obtain cache where rec: "recover crc now fs [] (new_state w cap) = (Inr (s2, cache), fs)" and p2: "cache_fresh fs cache"
    using recover_fold [OF assms(1,3)] unfolding s1_def s2_def by blast
  have X: "\<forall>x \<in> set (latest log). log_id x \<in> ?X \<longleftrightarrow> lease_over now (snd x)"
    using expired_ids_latest by blast
  note q = recover_fold_queue [OF X, of s1, folded s2_def]
  note m = recover_fold_maps [OF X distinct_latest, of s1, folded s2_def, unfolded map_of_latest]
  have "hm_get (leased s2) k = lease_map ?X log k" for k
    using m [of k] by (simp add: p1(7) lease_map_def split: option.split)
  moreover have "hm_get (data_index s2) k = data_map log k" for k
  proof (cases "latest_map log k")
    case None
    then show ?thesis using m [of k] p1(3) by (simp add: data_map_None created_None)
  next
    case (Some x)
    then show ?thesis
      using m [of k] p1(3) log_wf_live [OF assms(2) Some] created_data [of log k] by (cases "data_map log k") auto
  qed
  moreover have "hm_get (index s2) k = Some (fst x)" if "latest_map log k = Some x" "\<not> ends_task (snd x)" for k x
    using m [of k] that p1(2) by simp
  moreover have "delivery (ready_queue s2) = sort_key delivery_key (ready_refs ?X log)" "pbq_inv (ready_queue s2)"
    using bq.list_push_all [OF bq.invar_empty, of "[]"] bq.invar_push_all [OF bq.invar_empty]
    by (simp_all add: q(1) p1(6) bq.list_empty ready_refs_def)
  moreover have "pc.coherent (payload_cache s2) (payload_map log)"
    by (simp add: q(4) p1(8) pc.coherent_def cache_inv_new) (simp add: cache_new_def)
  ultimately have "engine_inv crc log ?X \<lparr>inner = s2, files = fs, reader = cache, callbacks = 0\<rparr>"
    unfolding engine_inv_def using assms(1,2) p1(4,5,7) p2 q(2,3,5) by simp
  then show ?thesis using rec by blast
qed

lemma engine_open_spec:
  assumes "wal_holds crc (wal_open crc fs None) log" "log_wf log" "\<forall>x \<in> set log. log_id x \<noteq> - 1"
  shows "\<exists>e. engine_open crc now fs = Inr e \<and> engine_inv crc log (expired_ids now log) e"
proof -
  obtain w fs' where o: "wal_open crc fs None = (w, fs')" by fastforce
  then show ?thesis
    using recover_spec [of crc w fs' log now DEFAULT_PAYLOAD_CACHE_CAPACITY] assms
    by (auto simp: engine_open_def Let_def)
qed

end
