(* ===== verification/Engine_Spec.thy ===== *)
theory Engine_Spec
  imports Engine_Recovery
begin

text \<open>
  What the engine promises, as an abstract machine without files, logs, indexes or caches: a
  list of ready tasks in the order they will be handed out, the leases, and the payloads of
  all live tasks. The engine's steps, restarts and crashes included, are simulated by steps
  of this machine.
\<close>

section \<open>The abstract machine\<close>

record task_spec =
  s_ready :: "TaskRef list"
  s_leased :: "u64 \<rightharpoonup> LeaseInfo"
  s_payload :: "u64 \<rightharpoonup> bytes"

definition spec_init :: task_spec where
  "spec_init = \<lparr>s_ready = [], s_leased = Map.empty, s_payload = Map.empty\<rparr>"

abbreviation enqueue :: "TaskRef \<Rightarrow> TaskRef list \<Rightarrow> TaskRef list" where
  "enqueue \<equiv> insert_after delivery_key"

text \<open>What each kind of step does to the tasks.\<close>

definition spec_push :: "u64 \<Rightarrow> u8 \<Rightarrow> bytes \<Rightarrow> task_spec \<Rightarrow> task_spec" where
  "spec_push k pr p s =
     s\<lparr>s_ready := enqueue (task_ref k pr 0) (s_ready s), s_payload := (s_payload s)(k \<mapsto> p)\<rparr>"

definition spec_pop :: "u32 \<Rightarrow> u64 \<Rightarrow> task_spec \<Rightarrow> task_spec" where
  "spec_pop c ex s =
     (case s_ready s of
        [] \<Rightarrow> s
      | t # ts \<Rightarrow> s\<lparr>s_ready := ts,
          s_leased := (s_leased s)(task_id t \<mapsto> lease_info c ex (task_retries t) (task_priority t))\<rparr>)"

definition spec_finish :: "u64 \<Rightarrow> task_spec \<Rightarrow> task_spec" where
  "spec_finish k s = s\<lparr>s_leased := (s_leased s)(k := None), s_payload := (s_payload s)(k := None)\<rparr>"

definition spec_retry :: "u64 \<Rightarrow> u8 \<Rightarrow> u8 \<Rightarrow> task_spec \<Rightarrow> task_spec" where
  "spec_retry k pr n s =
     s\<lparr>s_leased := (s_leased s)(k := None), s_ready := enqueue (task_ref k pr n) (s_ready s)\<rparr>"

definition spec_fail :: "u64 \<Rightarrow> LeaseInfo \<Rightarrow> task_spec \<Rightarrow> task_spec" where
  "spec_fail k li s =
     (if lease_retries li + 1 \<ge> MAX_RETRIES then spec_finish k s
      else spec_retry k (lease_priority li) (lease_retries li + 1) s)"

text \<open>
  Reopening at a time: exactly the expired leases become ready, with the retries they had;
  the tasks that were ready keep their order, and no payload changes.
\<close>

definition spec_reopened :: "u64 \<Rightarrow> task_spec \<Rightarrow> task_spec \<Rightarrow> bool" where
  "spec_reopened now s s' \<longleftrightarrow>
     (let over = (\<lambda>k. case s_leased s k of None \<Rightarrow> False | Some li \<Rightarrow> expire_timestamp li \<le> now) in
      s_payload s' = s_payload s \<and>
      s_leased s' = (\<lambda>k. if over k then None else s_leased s k) \<and>
      sorted (map delivery_key (s_ready s')) \<and>
      filter (\<lambda>t. \<not> over (task_id t)) (s_ready s') = s_ready s \<and>
      {t \<in> set (s_ready s'). over (task_id t)} =
        {task_ref k (lease_priority li) (lease_retries li) |k li. s_leased s k = Some li \<and> expire_timestamp li \<le> now} \<and>
      distinct (map task_id (s_ready s')))"

inductive spec_step :: "task_spec \<Rightarrow> task_spec \<Rightarrow> bool" where
  step_push: "s_payload s k = None \<Longrightarrow> spec_step s (spec_push k pr p s)"
| step_pop: "s_ready s \<noteq> [] \<Longrightarrow> spec_step s (spec_pop c ex s)"
| step_ack: "s_leased s k = Some li \<Longrightarrow> spec_step s (spec_finish k s)"
| step_fail: "s_leased s k = Some li \<Longrightarrow> spec_step s (spec_fail k li s)"
| step_reopen: "spec_reopened now s s' \<Longrightarrow> spec_step s s'"

inductive_cases spec_stepE: "spec_step s s'"

section \<open>The tasks of a log\<close>

definition spec_of :: "u64 set \<Rightarrow> log \<Rightarrow> task_spec" where
  "spec_of X log =
     \<lparr>s_ready = sort_key delivery_key (ready_refs X log), s_leased = lease_map X log, s_payload = payload_map log\<rparr>"

lemma spec_of_Nil [simp]: "spec_of X [] = spec_init"
  by (simp add: spec_of_def spec_init_def ready_refs_def map_filter_simps lease_map_def fun_eq_iff)

lemma spec_of_push:
  assumes "latest_map log k = None"
  shows "spec_of (X - {k}) (log @ [(l, new_record k Created pr p)]) = spec_push k pr p (spec_of X log)"
proof -
  have "filter (\<lambda>t. task_id t \<noteq> k) (ready_refs X log) = ready_refs X log"
  proof (rule filter_True, rule ballI, rule notI)
    fix t assume "t \<in> set (ready_refs X log)" "task_id t = k"
    then show False using assms unfolding ready_refs_iff by simp
  qed
  then show ?thesis
    using ready_refs_snoc [of X "new_record k Created pr p" log l] lease_map_snoc [of X "new_record k Created pr p" log l] assms
    by (simp add: spec_of_def spec_push_def ready_ref_def sort_key_snoc data_step_def lease_of_def lease_map_def
        fun_eq_iff del: sort_key_simps)
qed

lemma spec_of_pop:
  assumes "sort_key delivery_key (ready_refs X log) = t # ts"
  shows "spec_of (X - {task_id t}) (log @ [(l, new_record (task_id t) Leased (task_priority t)
      (lease_bytes c ex (task_retries t)))]) = spec_pop c ex (spec_of X log)"
proof -
  let ?r = "new_record (task_id t) Leased (task_priority t) (lease_bytes c ex (task_retries t))"
  show ?thesis
    using ready_refs_snoc [of X ?r log l] lease_map_snoc [of X ?r log l] sort_key_drop_head [OF assms distinct_ready_refs] assms
    by (simp add: spec_of_def spec_pop_def ready_ref_def data_step_def ends_task_def)
qed

lemma spec_of_finish:
  assumes "lease_map X log k = Some li" "ends_task r" "rec_id r = k" "op_type r \<noteq> Created"
  shows "spec_of (X - {k}) (log @ [(l, r)]) = spec_finish k (spec_of X log)"
  using ready_refs_snoc [of X r log l] lease_map_snoc [of X r log l] leased_not_ready [OF assms(1)] ready_ref_ends [OF assms(2)] assms(2-4)
  by (simp add: spec_of_def spec_finish_def data_step_def)

lemma spec_of_retry:
  assumes "lease_map X log k = Some li" "ft \<in> {Nacked, Expired}"
  shows "spec_of (X - {k}) (log @ [(l, new_record k ft pr [n])]) = spec_retry k pr n (spec_of X log)"
proof -
  let ?r = "new_record k ft pr [n]"
  have "ready_ref Y ?r = Some (task_ref k pr n)" "lease_of ?r = None" "data_step m ?r v = m" for Y and m :: "u64 \<rightharpoonup> bytes" and v
    using assms(2) by (auto simp: ready_ref_def first_byte_def lease_of_def data_step_def ends_task_def)
  then show ?thesis
    using ready_refs_snoc [of X ?r log l] lease_map_snoc [of X ?r log l] leased_not_ready [OF assms(1)]
    by (simp add: spec_of_def spec_retry_def sort_key_snoc del: sort_key_simps)
qed

lemma spec_of_fail:
  assumes "lease_map X log k = Some li" "ft \<in> {Nacked, Expired}" "n = lease_retries li + 1" "pr = lease_priority li"
  shows "spec_of (X - {k}) (log @ [(l, new_record k (if n \<ge> MAX_RETRIES then DeadLettered else ft) pr [n])]) =
    spec_fail k li (spec_of X log)"
  using spec_of_finish [OF assms(1), of "new_record k DeadLettered pr [n]" l] spec_of_retry [OF assms(1,2), of l pr n] assms(3,4)
  by (simp add: spec_fail_def ends_task_def)

subsection \<open>Reopening\<close>

lemma map_filter_restrict:
  "(\<And>x. x \<in> set xs \<Longrightarrow> f x = (case g x of None \<Rightarrow> None | Some y \<Rightarrow> if Q y then Some y else None)) \<Longrightarrow>
   List.map_filter f xs = filter Q (List.map_filter g xs)"
  by (induction xs) (auto simp: map_filter_simps split: option.split)

lemma lease_of_priority: "lease_of r = Some li \<Longrightarrow> lease_priority li = rec_priority r"
  by (auto simp: lease_of_def parse_lease_def lease_info_def Let_def split: if_splits)

lemma ready_ref_leased: "lease_of r = Some li \<Longrightarrow>
   ready_ref X r = (if rec_id r \<in> X then Some (task_ref (rec_id r) (lease_priority li) (lease_retries li)) else None)"
  using lease_of_priority by (auto simp: ready_ref_def lease_of_def Let_def split: if_splits)

lemma expired_ids_iff:
  "latest_map log k = Some x \<Longrightarrow> k \<in> expired_ids now log \<longleftrightarrow> lease_over now (snd x)"
  "latest_map log k = None \<Longrightarrow> k \<notin> expired_ids now log"
  by (cases x) (simp_all add: expired_ids_def)

lemma lease_over_iff:
  assumes "X \<subseteq> expired_ids now log"
  shows "(case lease_map X log k of None \<Rightarrow> False | Some li \<Rightarrow> expire_timestamp li \<le> now) \<longleftrightarrow>
    k \<in> expired_ids now log - X"
  by (cases "latest_map log k")
    (simp_all add: lease_map_def expired_ids_iff lease_over_def split: option.splits)

lemma ready_refs_reopened:
  assumes "X \<subseteq> Y" "Y = expired_ids now log"
  shows "filter (\<lambda>t. task_id t \<notin> Y - X) (ready_refs Y log) = ready_refs X log"
  unfolding ready_refs_def
proof (rule map_filter_restrict [symmetric])
  fix x assume x: "x \<in> set (latest log)"
  show "ready_ref X (snd x) =
      (case ready_ref Y (snd x) of None \<Rightarrow> None | Some t \<Rightarrow> if task_id t \<notin> Y - X then Some t else None)"
  proof (cases "log_id x \<in> Y - X")
    case True
    then obtain li where "lease_of (snd x) = Some li"
      using expired_ids_latest [OF x] assms(2) by (auto simp: lease_over_def split: option.splits)
    then show ?thesis using True by (simp add: ready_ref_leased)
  next
    case False
    then have "log_id x \<in> X \<longleftrightarrow> log_id x \<in> Y" using assms(1) by blast
    then have "ready_ref X (snd x) = ready_ref Y (snd x)" by (rule ready_ref_cong)
    then show ?thesis using False by (auto dest!: ready_ref_id split: option.split)
  qed
qed

lemma expired_ready_refs:
  assumes "Y = expired_ids now log"
  shows "{t \<in> set (ready_refs Y log). task_id t \<in> Y - X} =
    {task_ref k (lease_priority li) (lease_retries li) |k li. lease_map X log k = Some li \<and> expire_timestamp li \<le> now}"
proof (rule set_eqI, rule iffI)
  fix t assume "t \<in> {t \<in> set (ready_refs Y log). task_id t \<in> Y - X}"
  then obtain x where x: "latest_map log (task_id t) = Some x" "ready_ref Y (snd x) = Some t" "task_id t \<in> Y - X"
    unfolding ready_refs_iff by blast
  then obtain li where "lease_of (snd x) = Some li" "expire_timestamp li \<le> now"
    using assms by (auto simp: expired_ids_def lease_over_def split: option.splits)
  then show "t \<in> {task_ref k (lease_priority li) (lease_retries li) |k li. lease_map X log k = Some li \<and> expire_timestamp li \<le> now}"
    using x latest_map_in [OF x(1)] ready_ref_leased [of "snd x" li Y]
    by (intro CollectI exI [of _ "task_id t"] exI [of _ li]) (auto simp: lease_map_def split: if_splits)
next
  fix t assume "t \<in> {task_ref k (lease_priority li) (lease_retries li) |k li. lease_map X log k = Some li \<and> expire_timestamp li \<le> now}"
  then obtain k li x where t: "t = task_ref k (lease_priority li) (lease_retries li)" "expire_timestamp li \<le> now" "k \<notin> X"
      "latest_map log k = Some x" "lease_of (snd x) = Some li"
    by (auto simp: lease_map_def split: if_splits bind_splits)
  have "k \<in> Y" "log_id x = k"
    using t assms latest_map_in [OF t(4)] by (simp_all add: expired_ids_iff lease_over_def)
  then show "t \<in> {t \<in> set (ready_refs Y log). task_id t \<in> Y - X}"
    using t ready_ref_leased [OF t(5), of Y] by (cases x) (auto simp: ready_refs_iff)
qed

lemma spec_of_reopen:
  assumes "X \<subseteq> expired_ids now log"
  shows "spec_reopened now (spec_of X log) (spec_of (expired_ids now log) log)"
proof -
  let ?Y = "expired_ids now log"
  have over: "(case lease_map X log k of None \<Rightarrow> False | Some li \<Rightarrow> expire_timestamp li \<le> now) = (k \<in> ?Y - X)" for k
    by (rule lease_over_iff [OF assms])
  have "lease_map ?Y log = (\<lambda>k. if k \<in> ?Y - X then None else lease_map X log k)"
    using assms by (auto simp: lease_map_def fun_eq_iff)
  moreover have "filter (\<lambda>t. task_id t \<notin> ?Y - X) (sort_key delivery_key (ready_refs ?Y log)) =
      sort_key delivery_key (ready_refs X log)"
    using ready_refs_reopened [OF assms refl] by (simp add: filter_sort del: Diff_iff)
  moreover have "distinct (map task_id (sort_key delivery_key (ready_refs ?Y log)))"
    using distinct_ready_refs [of ?Y log] by (simp add: distinct_map)
  ultimately show ?thesis
    unfolding spec_reopened_def Let_def spec_of_def task_spec.simps over
    using expired_ready_refs [OF refl, of now log X] by (simp del: Diff_iff)
qed

section \<open>Refinement\<close>

text \<open>
  An engine at a time refines an abstract state: its memory satisfies the invariant for a
  log of these tasks, and every lease that an earlier reopening found expired still is.
\<close>

definition refines :: "(bytes \<Rightarrow> u32) \<Rightarrow> u64 \<Rightarrow> Engine \<Rightarrow> task_spec \<Rightarrow> bool" where
  "refines crc now e s \<longleftrightarrow>
     (\<exists>log X. engine_inv crc log X e \<and> X \<subseteq> expired_ids now log \<and> s = spec_of X log)"

lemma refinesI: "engine_inv crc log X e \<Longrightarrow> X \<subseteq> expired_ids now log \<Longrightarrow> s = spec_of X log \<Longrightarrow> refines crc now e s"
  unfolding refines_def by blast

lemma refines_memory:
  assumes "refines crc now e s"
  shows "delivery (ready_queue (inner e)) = s_ready s" "hm_get (leased (inner e)) k = s_leased s k"
    "pbq_inv (ready_queue (inner e))"
  using assms engine_invD(4,5,7) unfolding refines_def spec_of_def by fastforce+

lemma expired_snoc:
  assumes "X \<subseteq> expired_ids now log" "rec_id r = k"
  shows "X - {k} \<subseteq> expired_ids now (log @ [(l, r)])"
  using assms by (auto simp: expired_ids_def)

lemma expired_mono: "t \<le> now \<Longrightarrow> expired_ids t log \<subseteq> expired_ids now log"
proof
  fix k assume t: "t \<le> now" and k: "k \<in> expired_ids t log"
  then obtain x where x: "latest_map log k = Some x" using expired_ids_iff(2) by (cases "latest_map log k") blast+
  then have "lease_over t (snd x)" using k by (simp add: expired_ids_iff)
  then have "lease_over now (snd x)" using t by (auto simp: lease_over_def split: option.splits)
  then show "k \<in> expired_ids now log" using x by (simp add: expired_ids_iff)
qed

lemma refines_mono: "refines crc t e s \<Longrightarrow> t \<le> now \<Longrightarrow> refines crc now e s"
  unfolding refines_def using expired_mono by blast

lemma refines_fields:
  assumes "refines crc now e s" "inner e' = inner e" "files e' = files e" "reader e' = reader e"
  shows "refines crc now e' s"
  using assms unfolding refines_def engine_inv_def by auto

subsection \<open>One lemma per operation and outcome\<close>

lemma push_sim:
  assumes "refines crc now e s" "length p \<le> MAX_PAYLOAD_SIZE" "has_room e" "next_id (inner e) \<noteq> - 1"
  shows "\<exists>e'. push crc AppendOk p pr e = (Inr (next_id (inner e)), e') \<and> s_payload s (next_id (inner e)) = None \<and>
    refines crc now e' (spec_push (next_id (inner e)) pr p s)"
proof -
  obtain log X where i: "engine_inv crc log X e" "X \<subseteq> expired_ids now log" "s = spec_of X log"
    using assms(1) unfolding refines_def by blast
  let ?k = "next_id (inner e)"
  obtain l e' where p: "push crc AppendOk p pr e = (Inr ?k, e')"
      "engine_inv crc (log @ [(l, new_record ?k Created pr p)]) (X - {?k}) e'"
    using push_ok [OF i(1) assms(2-4)] by blast
  have fresh: "latest_map log ?k = None"
    using engine_invD(11) [OF i(1)] unfolding latest_map_None by fastforce
  have "refines crc now e' (spec_push ?k pr p s)"
    by (rule refinesI [OF p(2) expired_snoc [OF i(2)]]) (simp_all add: spec_of_push [OF fresh] i(3))
  moreover have "s_payload s ?k = None"
    using data_map_None [OF fresh] data_map_dom by (simp add: i(3) spec_of_def)
  ultimately show ?thesis using p(1) by blast
qed

lemma push_fails_sim:
  assumes "refines crc now e s" "has_room e" "io_fails io (wal (inner e)) err" "next_id (inner e) \<noteq> - 1"
  shows "\<exists>e'. push crc io p pr e = (Inl err, e') \<and> refines crc now e' s"
  using assms push_fails [OF _ assms(2-4)] unfolding refines_def by blast

lemma pop_empty_sim:
  assumes "refines crc now e s" "s_ready s = []"
  shows "pop_and_lease crc io now c ttl e = (Inr None, e)"
  using assms pop_empty unfolding refines_def spec_of_def by (metis length_0_conv length_sort task_spec.select_convs(1))

lemma pop_sim:
  assumes "refines crc now e s" "has_room e" "s_ready s = t # ts"
  shows "\<exists>e' p. pop_and_lease crc AppendOk now c ttl e =
      (Inr (Some (new_record (task_id t) Created (task_priority t) p, task_retries t)), e') \<and>
    s_payload s (task_id t) = Some p \<and> refines crc now e' (spec_pop c (now + ttl) s)"
proof -
  obtain log X where i: "engine_inv crc log X e" "X \<subseteq> expired_ids now log" "s = spec_of X log"
    using assms(1) unfolding refines_def by blast
  have srt: "sort_key delivery_key (ready_refs X log) = t # ts" using assms(3) by (simp add: i(3) spec_of_def)
  obtain l e' p where p: "pop_and_lease crc AppendOk now c ttl e =
      (Inr (Some (new_record (task_id t) Created (task_priority t) p, task_retries t)), e')"
      "payload_map log (task_id t) = Some p"
      "engine_inv crc (log @ [(l, new_record (task_id t) Leased (task_priority t) (lease_bytes c (now + ttl) (task_retries t)))])
        (X - {task_id t}) e'"
    using pop_ok [OF i(1) assms(2) srt refl] by blast
  have "refines crc now e' (spec_pop c (now + ttl) s)"
    by (rule refinesI [OF p(3) expired_snoc [OF i(2)]]) (simp_all add: spec_of_pop [OF srt] i(3))
  then show ?thesis using p(1,2) by (auto simp: i(3) spec_of_def)
qed

lemma ack_sim:
  assumes "refines crc now e s" "has_room e" "s_leased s k = Some li" "consumer_id li = c"
  shows "\<exists>e'. ack crc AppendOk k c e = (Inr (), e') \<and> refines crc now e' (spec_finish k s)"
proof -
  obtain log X where i: "engine_inv crc log X e" "X \<subseteq> expired_ids now log" "s = spec_of X log"
    using assms(1) unfolding refines_def by blast
  have lm: "lease_map X log k = Some li" using assms(3) by (simp add: i(3) spec_of_def)
  then have "hm_get (leased (inner e)) k = Some li" using engine_invD(7) [OF i(1)] by simp
  then obtain l e' where a: "ack crc AppendOk k c e = (Inr (), e')"
      "engine_inv crc (log @ [(l, new_record k Acked (lease_priority li) [])]) (X - {k}) e'"
    using ack_ok [OF i(1) assms(2) _ assms(4)] by blast
  have "refines crc now e' (spec_finish k s)"
    by (rule refinesI [OF a(2) expired_snoc [OF i(2)]]) (simp_all add: spec_of_finish [OF lm] i(3) ends_task_def)
  then show ?thesis using a(1) by blast
qed

lemma task_failure_sim:
  assumes "refines crc now e s" "has_room e" "s_leased s k = Some li" "ft \<in> {Nacked, Expired}"
  shows "\<exists>e'. process_task_failure crc AppendOk k (lease_priority li) (lease_retries li) ft e =
      (Inr (lease_retries li + 1 < MAX_RETRIES), e') \<and> refines crc now e' (spec_fail k li s) \<and>
    on_task_ready (inner e') = on_task_ready (inner e)"
proof -
  obtain log X where i: "engine_inv crc log X e" "X \<subseteq> expired_ids now log" "s = spec_of X log"
    using assms(1) unfolding refines_def by blast
  have lm: "lease_map X log k = Some li" using assms(3) by (simp add: i(3) spec_of_def)
  then have le: "hm_get (leased (inner e)) k = Some li" using engine_invD(7) [OF i(1)] by simp
  let ?n = "lease_retries li + 1"
  let ?r = "new_record k (if ?n \<ge> MAX_RETRIES then DeadLettered else ft) (lease_priority li) [?n]"
  obtain l e' where a: "process_task_failure crc AppendOk k (lease_priority li) (lease_retries li) ft e =
      (Inr (?n < MAX_RETRIES), e')" "engine_inv crc (log @ [(l, ?r)]) (X - {k}) e'"
      "on_task_ready (inner e') = on_task_ready (inner e)"
    using task_failure_ok [OF i(1) assms(2) le assms(4) refl refl] by blast
  have "refines crc now e' (spec_fail k li s)"
    by (rule refinesI [OF a(2) expired_snoc [OF i(2)]]) (simp_all only: spec_of_fail [OF lm assms(4) refl refl] i(3) new_record_simps)
  then show ?thesis using a(1,3) by blast
qed

lemma reopen_sim:
  assumes "refines crc t e s" "t \<le> now"
    and "\<And>log X. engine_inv crc log X e \<Longrightarrow> wal_holds crc (wal_open crc fs None) log"
  shows "\<exists>e' s'. engine_open crc now fs = Inr e' \<and> spec_reopened now s s' \<and> refines crc now e' s'"
proof -
  obtain log X where i: "engine_inv crc log X e" "X \<subseteq> expired_ids now log" "s = spec_of X log"
    using refines_mono [OF assms(1,2)] unfolding refines_def by blast
  have "\<forall>x \<in> set log. log_id x \<noteq> - 1"
    using engine_invD(11) [OF i(1)] by fastforce
  then obtain e' where e': "engine_open crc now fs = Inr e'" "engine_inv crc log (expired_ids now log) e'"
    using engine_open_spec [OF assms(3) [OF i(1)] engine_invD(3) [OF i(1)]] by blast
  then show ?thesis
    using spec_of_reopen [OF i(2)] i(3) unfolding refines_def by blast
qed

text \<open>A restart, and a crash in the middle of any append.\<close>

lemma wal_holds_reopen:
  assumes "wal_holds crc (w, fs) log"
  shows "wal_holds crc (wal_open crc fs m) log"
proof -
  obtain segs where segs: "wal_repr crc w fs segs" "log = log_of segs" using assms by (auto simp: wal_holds_def)
  from wal_open_spec [OF wal_repr_disk_holds [OF segs(1)], of m] show ?thesis
    using segs(2) unfolding wal_holds_def by auto
qed

lemma restart_sim:
  assumes "refines crc t e s" "t \<le> now"
  shows "\<exists>e' s'. engine_open crc now (files e) = Inr e' \<and> spec_reopened now s s' \<and> refines crc now e' s'"
  by (rule reopen_sim [OF assms]) (rule wal_holds_reopen [OF engine_invD(1)])

lemma crash_sim:
  assumes "refines crc t e s" "t \<le> now" "storable r" "has_room e" "n < length (encode crc r)"
  shows "\<exists>w fs e' s'. wal_append crc (WriteFails n err False) r (wal (inner e)) (files e) = (Inl err, w, fs) \<and>
    engine_open crc now fs = Inr e' \<and> spec_reopened now s s' \<and> refines crc now e' s'"
proof -
  obtain log X where i: "engine_inv crc log X e" "X \<subseteq> expired_ids now log" "s = spec_of X log"
    using refines_mono [OF assms(1,2)] unfolding refines_def by blast
  obtain w fs where a: "wal_append crc (WriteFails n err False) r (wal (inner e)) (files e) = (Inl err, w, fs)"
      "wal_holds crc (wal_open crc fs None) log"
    using wal_torn_append [OF engine_invD(1) [OF i(1)] assms(3-5)] by blast
  have "\<exists>e' s'. engine_open crc now fs = Inr e' \<and> spec_reopened now s s' \<and> refines crc now e' s'"
  proof (rule reopen_sim [OF assms(1,2)])
    fix log' X' assume "engine_inv crc log' X' e"
    then have "log' = log" using wl.holds_unique engine_invD(1) i(1) by blast
    then show "wal_holds crc (wal_open crc fs None) log'" using a(2) by simp
  qed
  then show ?thesis using a(1) by blast
qed

section \<open>Runs\<close>

text \<open>
  Regular runs: the engine with the clock. The steps are the operations with any arguments
  within the bounds, the locked part of the expiration worker that processes what it has
  collected, the cache operations, restarts, and crashes that leave a torn record behind.
  Pushes, acknowledgements, rejections and the worker may fail to append, as long as what was
  written can be taken back. Three things that the program can do are left out, because they
  leave the contract: a lease whose record cannot be written (the task is then in no queue until
  the next restart), a lease that ends after the worker has collected it and before the worker
  processes it (the finished task comes back), and a compaction.

  The worker collects under the lock, releases it and takes it again to process its list. The
  list \<open>ts\<close> of \<open>es_expire\<close> is what it collected at some time before; other operations may have
  come in between, but the leases in the list are still there.
\<close>

inductive engine_step :: "(bytes \<Rightarrow> u32) \<Rightarrow> u64 \<times> Engine \<Rightarrow> u64 \<times> Engine \<Rightarrow> bool" for crc where
  es_push: "t \<le> now \<Longrightarrow> length p \<le> MAX_PAYLOAD_SIZE \<Longrightarrow> has_room e \<Longrightarrow> next_id (inner e) \<noteq> - 1 \<Longrightarrow> io_clean io \<Longrightarrow>
    push crc io p pr e = (res, e') \<Longrightarrow> engine_step crc (t, e) (now, e')"
| es_pop: "t \<le> now \<Longrightarrow> has_room e \<Longrightarrow> pop_and_lease crc AppendOk now c ttl e = (res, e') \<Longrightarrow>
    engine_step crc (t, e) (now, e')"
| es_ack: "t \<le> now \<Longrightarrow> has_room e \<Longrightarrow> io_clean io \<Longrightarrow> ack crc io k c e = (res, e') \<Longrightarrow> engine_step crc (t, e) (now, e')"
| es_nack: "t \<le> now \<Longrightarrow> has_room e \<Longrightarrow> io_clean io \<Longrightarrow> nack crc io k c e = (res, e') \<Longrightarrow> engine_step crc (t, e) (now, e')"
| es_expire: "t \<le> now \<Longrightarrow> distinct (map fst ts) \<Longrightarrow> set ts \<subseteq> set (collect_expired now e) \<Longrightarrow> room_for (length ts) e \<Longrightarrow>
    (\<And>k. io_clean (ios k)) \<Longrightarrow> engine_step crc (t, e) (now, process_expired crc ios ts e)"
| es_callback: "engine_step crc (t, e) (t, set_on_task_ready e)"
| es_clear_payloads: "engine_step crc (t, e) (t, clear_payload_cache e)"
| es_clear_reader: "engine_step crc (t, e) (t, clear_reader_cache e)"
| es_restart: "t \<le> now \<Longrightarrow> engine_open crc now (files e) = Inr e' \<Longrightarrow> engine_step crc (t, e) (now, e')"
| es_crash: "t \<le> now \<Longrightarrow> storable r \<Longrightarrow> has_room e \<Longrightarrow> n < length (encode crc r) \<Longrightarrow>
    wal_append crc (WriteFails n err False) r (wal (inner e)) (files e) = (Inl err, w, fs) \<Longrightarrow>
    engine_open crc now fs = Inr e' \<Longrightarrow> engine_step crc (t, e) (now, e')"

definition engine_init :: "(bytes \<Rightarrow> u32) \<Rightarrow> u64 \<times> Engine \<Rightarrow> bool" where
  "engine_init crc te \<longleftrightarrow> engine_open crc (fst te) fs_empty = Inr (snd te)"

subsection \<open>Every step is a step of the abstract machine\<close>

abbreviation spec_steps :: "task_spec \<Rightarrow> task_spec \<Rightarrow> bool" where
  "spec_steps \<equiv> spec_step\<^sup>*\<^sup>*"

lemma push_outcome:
  assumes "refines crc now e s" "length p \<le> MAX_PAYLOAD_SIZE" "has_room e" "next_id (inner e) \<noteq> - 1" "io_clean io"
    and "push crc io p pr e = (res, e')"
  shows "case res of Inl err \<Rightarrow> refines crc now e' s | Inr k \<Rightarrow> s_payload s k = None \<and> refines crc now e' (spec_push k pr p s)"
  using assms(5)
proof (cases rule: io_clean_cases [where crc = crc and w = "wal (inner e)"])
  case ok
  then have "push crc io p pr e = push crc AppendOk p pr e" by (simp add: push_def log_append_def)
  then show ?thesis using push_sim [OF assms(1-4), of pr] assms(6) by auto
next
  case (fails err)
  then show ?thesis using push_fails_sim [OF assms(1,3) fails assms(4), of p pr] assms(6) by auto
qed

lemma push_step:
  assumes "refines crc now e s" "length p \<le> MAX_PAYLOAD_SIZE" "has_room e" "next_id (inner e) \<noteq> - 1" "io_clean io"
    and "push crc io p pr e = (res, e')"
  shows "\<exists>s'. spec_steps s s' \<and> refines crc now e' s'"
  using push_outcome [OF assms] step_push r_into_rtranclp [of spec_step] by (cases res) (auto, blast)

lemma pop_step_sim:
  assumes "refines crc now e s" "has_room e" "pop_and_lease crc AppendOk now c ttl e = (res, e')"
  shows "\<exists>s'. spec_steps s s' \<and> refines crc now e' s'"
proof (cases "s_ready s")
  case Nil
  then show ?thesis using pop_empty_sim [OF assms(1) Nil, of AppendOk c ttl] assms(1,3) by auto
next
  case (Cons t ts)
  then have "refines crc now e' (spec_pop c (now + ttl) s)" "s_ready s \<noteq> []"
    using pop_sim [OF assms(1,2) Cons, of c ttl] assms(3) by auto
  then show ?thesis using step_pop r_into_rtranclp [of spec_step] by blast
qed

lemma ack_outcome:
  assumes "refines crc now e s" "has_room e" "io_clean io" "ack crc io k c e = (res, e')"
  shows "case res of Inl err \<Rightarrow> refines crc now e' s
    | Inr _ \<Rightarrow> \<exists>li. s_leased s k = Some li \<and> consumer_id li = c \<and> refines crc now e' (spec_finish k s)"
proof (cases "\<exists>li. s_leased s k = Some li \<and> consumer_id li = c")
  case False
  then show ?thesis
    using assms(1,4) refines_memory(2) [OF assms(1), of k] by (auto simp: ack_def split: option.splits if_splits)
next
  case True
  then obtain li where li: "s_leased s k = Some li" "consumer_id li = c" by blast
  from assms(3) show ?thesis
  proof (cases rule: io_clean_cases [where crc = crc and w = "wal (inner e)"])
    case ok
    then have "log_append crc io r e = log_append crc AppendOk r e" for r by (simp add: log_append_def)
    then have "ack crc io k c e = ack crc AppendOk k c e" unfolding ack_def by (simp split: option.split)
    then show ?thesis using ack_sim [OF assms(1,2) li] assms(4) li by auto
  next
    case (fails err)
    have "hm_get (leased (inner e)) k = Some li" using refines_memory(2) [OF assms(1)] li(1) by simp
    then show ?thesis
      using ack_fails [OF _ assms(2) fails _ li(2)] assms(1,4) unfolding refines_def by fastforce
  qed
qed

lemma ack_step:
  assumes "refines crc now e s" "has_room e" "io_clean io" "ack crc io k c e = (res, e')"
  shows "\<exists>s'. spec_steps s s' \<and> refines crc now e' s'"
  using ack_outcome [OF assms] step_ack r_into_rtranclp [of spec_step] by (cases res) (auto, blast)

lemma task_failure_outcome:
  assumes "refines crc now e s" "has_room e" "io_clean io" "s_leased s k = Some li" "ft \<in> {Nacked, Expired}"
    and "process_task_failure crc io k (lease_priority li) (lease_retries li) ft e = (res, e')"
  shows "case res of Inl err \<Rightarrow> refines crc now e' s
    | Inr b \<Rightarrow> b = (lease_retries li + 1 < MAX_RETRIES) \<and> refines crc now e' (spec_fail k li s)"
  using assms(3)
proof (cases rule: io_clean_cases [where crc = crc and w = "wal (inner e)"])
  case ok
  then have "process_task_failure crc io k (lease_priority li) (lease_retries li) ft e =
      process_task_failure crc AppendOk k (lease_priority li) (lease_retries li) ft e"
    by (simp add: process_task_failure_def log_append_def)
  then show ?thesis using task_failure_sim [OF assms(1,2,4,5)] assms(6) by auto
next
  case (fails err)
  then show ?thesis
    using task_failure_fails [OF _ assms(2) fails, of crc _ _ k "lease_priority li" "lease_retries li" ft] assms(1,6)
    unfolding refines_def by fastforce
qed

lemma task_failure_step:
  assumes "refines crc now e s" "has_room e" "io_clean io" "s_leased s k = Some li" "ft \<in> {Nacked, Expired}"
    and "process_task_failure crc io k (lease_priority li) (lease_retries li) ft e = (res, e')"
  shows "\<exists>s'. (s' = s \<or> s' = spec_fail k li s) \<and> refines crc now e' s'"
  using task_failure_outcome [OF assms] by (cases res) auto

lemma refines_notify [simp]: "refines crc now (notify n e) s = refines crc now e s"
  by (simp add: refines_def)

lemma nack_step:
  assumes "refines crc now e s" "has_room e" "io_clean io" "nack crc io k c e = (res, e')"
  shows "\<exists>s'. spec_steps s s' \<and> refines crc now e' s'"
proof (cases "\<exists>li. s_leased s k = Some li \<and> consumer_id li = c")
  case False
  then have "e' = e" using assms(4) refines_memory(2) [OF assms(1)] by (auto simp: nack_def split: option.splits if_splits)
  then show ?thesis using assms(1) by blast
next
  case True
  then obtain li where li: "s_leased s k = Some li" "consumer_id li = c" by blast
  obtain res1 e1 where f: "process_task_failure crc io k (lease_priority li) (lease_retries li) Nacked e = (res1, e1)"
    by fastforce
  obtain s' where s': "s' = s \<or> s' = spec_fail k li s" "refines crc now e1 s'"
    using task_failure_step [OF assms(1-3) li(1) _ f] by blast
  have "e' = e1 \<or> e' = notify 1 e1"
    using assms(4) f li refines_memory(2) [OF assms(1)] by (auto simp: nack_def split: sum.splits if_splits)
  then have "refines crc now e' s'" using s'(2) by auto
  then show ?thesis using s'(1) step_fail [OF li(1)] by auto
qed

text \<open>
  How many tasks a round takes off their leases, and how many of these it dead-letters.
\<close>

fun expire_tally :: "(bytes \<Rightarrow> u32) \<Rightarrow> (u64 \<Rightarrow> append_io) \<Rightarrow> (u64 \<times> u8 \<times> u8) list \<Rightarrow> Engine \<Rightarrow> nat \<times> nat" where
  "expire_tally crc ios [] e = (0, 0)"
| "expire_tally crc ios ((tid, priority, retries) # rest) e =
     (case process_task_failure crc (ios tid) tid priority retries Expired e of
        (Inl _, e) \<Rightarrow> expire_tally crc ios rest e
      | (Inr re_enqueued, e) \<Rightarrow>
         (case expire_tally crc ios rest e of (x, d) \<Rightarrow> (Suc x, d + (if re_enqueued then 0 else 1))))"

inductive spec_expired :: "nat \<Rightarrow> nat \<Rightarrow> task_spec \<Rightarrow> task_spec \<Rightarrow> bool" where
  se_none: "spec_expired 0 0 s s"
| se_fail: "s_leased s k = Some li \<Longrightarrow> spec_expired x d (spec_fail k li s) s' \<Longrightarrow>
    spec_expired (Suc x) (d + (if lease_retries li + 1 < MAX_RETRIES then 0 else 1)) s s'"

lemma spec_expired_steps: "spec_expired x d s s' \<Longrightarrow> spec_steps s s'"
  by (induction rule: spec_expired.induct) (auto intro: converse_rtranclp_into_rtranclp [of spec_step, OF step_fail])

lemma expire_loop_counts:
  assumes "refines crc now e s" "expired_leases tasks e" "\<And>k. io_clean (ios k)" "room_for (length tasks) e"
    and "expire_tally crc ios tasks e = (x, d)"
  shows "\<exists>s'. spec_expired x d s s' \<and> refines crc now (snd (expire_loop crc ios tasks n e)) s'"
  using assms
proof (induction tasks arbitrary: e s n x d)
  case Nil
  then show ?case using se_none by auto
next
  case (Cons task tasks)
  obtain k pr m where task: "task = (k, pr, m)" by (metis prod_cases3)
  obtain li where li: "hm_get (leased (inner e)) k = Some li" "lease_priority li = pr" "lease_retries li = m"
    using Cons.prems(2) by (auto simp: expired_leases_def task)
  then have sl: "s_leased s k = Some li" using refines_memory(2) [OF Cons.prems(1)] by simp
  obtain res e1 where f: "process_task_failure crc (ios k) k pr m Expired e = (res, e1)" by fastforce
  have room: "has_room e" using room_for_has_room [where n = "length tasks"] Cons.prems(4) by simp
  note out = task_failure_outcome [OF Cons.prems(1) room Cons.prems(3) [of k] sl, of Expired res e1] f li(2,3)
  obtain s1 where s1: "s1 = s \<or> s1 = spec_fail k li s" "refines crc now e1 s1" using out by (cases res) auto
  have "hm_get (leased (inner e1)) i = hm_get (leased (inner e)) i" if "i \<noteq> k" for i
    using s1 refines_memory(2) [OF s1(2)] refines_memory(2) [OF Cons.prems(1)] that
    by (auto simp: spec_fail_def spec_finish_def spec_retry_def)
  then have "expired_leases tasks e1" using Cons.prems(2) by (fastforce simp: expired_leases_def task)
  moreover have "room_for (length tasks) e1" using task_failure_active [OF f] Cons.prems(4) by simp
  moreover obtain x' d' where xd: "expire_tally crc ios tasks e1 = (x', d')" by fastforce
  ultimately have IH: "\<exists>s'. spec_expired x' d' s2 s' \<and> refines crc now (snd (expire_loop crc ios tasks n' e1)) s'"
    if "refines crc now e1 s2" for n' s2 using Cons.IH [OF that _ Cons.prems(3)] by blast
  show ?case
  proof (cases res)
    case (Inl err)
    then have "refines crc now e1 s" using out by simp
    then show ?thesis using IH Cons.prems(5) xd by (simp add: task f Inl)
  next
    case (Inr b)
    then have b: "b = (lease_retries li + 1 < MAX_RETRIES)" "refines crc now e1 (spec_fail k li s)" using out by simp_all
    have "x = Suc x'" "d = d' + (if b then 0 else 1)" using Cons.prems(5) xd by (auto simp: task f Inr)
    then show ?thesis using IH [OF b(2)] se_fail [OF sl] b(1) by (cases b) (simp_all add: task f Inr, (metis add.right_neutral)+)
  qed
qed

lemma process_counts:
  assumes "refines crc now e s" "expired_leases ts e" "\<And>k. io_clean (ios k)" "room_for (length ts) e" "expire_tally crc ios ts e = (x, d)"
  shows "\<exists>s'. spec_expired x d s s' \<and> refines crc now (process_expired crc ios ts e) s'"
proof -
  have ios: "io_clean (ios k)" for k by (rule assms(3))
  obtain n e1 where l: "expire_loop crc ios ts 0 e = (n, e1)" by fastforce
  then obtain s' where "spec_expired x d s s'" "refines crc now e1 s'"
    using expire_loop_counts [OF assms(1,2) _ assms(4,5), where n = 0] ios by auto
  then show ?thesis using l by (intro exI [of _ s']) (auto simp: process_expired_def)
qed

text \<open>Collected leases that are still there.\<close>

lemma refines_hm_ok: "refines crc now e s \<Longrightarrow> hm_ok (leased (inner e))"
  using engine_invD(6) unfolding refines_def by blast

lemma Ball_mono: "Ball B P \<Longrightarrow> A \<subseteq> B \<Longrightarrow> Ball A P"
  by (auto simp: subset_iff)

lemma collected_leases:
  assumes "refines crc now e s" "distinct (map fst ts)" "set ts \<subseteq> set (collect_expired now e)"
  shows "expired_leases ts e"
proof -
  let ?P = "\<lambda>(k, pr, n). \<exists>li. hm_get (leased (inner e)) k = Some li \<and> lease_priority li = pr \<and> lease_retries li = n"
  have "Ball (set (collect_expired now e)) ?P"
    using collect_expired_leases [OF refines_hm_ok [OF assms(1)], of now] unfolding expired_leases_def by (rule conjunct2)
  then have "Ball (set ts) ?P" using assms(3) by (rule Ball_mono)
  then show ?thesis unfolding expired_leases_def using assms(2) by (rule conjI [rotated])
qed

lemma collected_earlier:
  assumes "refines crc t0 e0 s0" "refines crc now e s" "t0 \<le> now"
    and "\<And>k. k \<in> fst ` set (collect_expired t0 e0) \<Longrightarrow> hm_get (leased (inner e)) k = hm_get (leased (inner e0)) k"
  shows "distinct (map fst (collect_expired t0 e0))" "set (collect_expired t0 e0) \<subseteq> set (collect_expired now e)"
proof -
  note ok = refines_hm_ok [OF assms(1)] refines_hm_ok [OF assms(2)]
  show "distinct (map fst (collect_expired t0 e0))" using collect_expired_leases [OF ok(1), of t0] by (simp add: expired_leases_def)
  show "set (collect_expired t0 e0) \<subseteq> set (collect_expired now e)"
  proof
    fix task assume task: "task \<in> set (collect_expired t0 e0)"
    then obtain k li where li: "(k, li) \<in> set (leased (inner e0))" "expire_timestamp li \<le> t0" "task = (k, lease_priority li, lease_retries li)"
      by (auto simp: collect_expired_def)
    have "hm_get (leased (inner e)) k = Some li"
      using assms(4) [of k] task li(1,3) ok(1) by (force simp: hm_get_Some_iff)
    then have "(k, li) \<in> set (leased (inner e))" using ok(2) by (simp add: hm_get_Some_iff)
    then show "task \<in> set (collect_expired now e)" using li(2,3) assms(3) by (force simp: collect_expired_def)
  qed
qed

lemma expire_step:
  assumes "refines crc now e s" "distinct (map fst ts)" "set ts \<subseteq> set (collect_expired now e)" "\<And>k. io_clean (ios k)" "room_for (length ts) e"
  shows "\<exists>s'. spec_steps s s' \<and> refines crc now (process_expired crc ios ts e) s'"
proof -
  obtain x d where "expire_tally crc ios ts e = (x, d)" by fastforce
  from process_counts [OF assms(1) collected_leases [OF assms(1-3)] assms(4,5) this] show ?thesis using spec_expired_steps by blast
qed

lemma refines_clear:
  assumes "refines crc now e s"
  shows "refines crc now (clear_payload_cache e) s" "refines crc now (clear_reader_cache e) s"
    "refines crc now (set_on_task_ready e) s"
proof -
  obtain log X where i: "engine_inv crc log X e" "X \<subseteq> expired_ids now log" "s = spec_of X log"
    using assms unfolding refines_def by blast
  have "cache_inv (payload_cache (inner e))" using engine_invD(10) [OF i(1)] by (simp add: pc.coherent_def)
  then have "pc.coherent (cache_clear (payload_cache (inner e))) (payload_map log)"
    using cache_inv_clear by (simp add: pc.coherent_def cache_clear_def)
  then have "engine_inv crc log X (clear_payload_cache e)" "engine_inv crc log X (clear_reader_cache e)"
      "engine_inv crc log X (set_on_task_ready e)"
    using i(1) unfolding engine_inv_def clear_payload_cache_def clear_reader_cache_def set_on_task_ready_def
    by (simp_all add: cache_fresh_def)
  then show "refines crc now (clear_payload_cache e) s" "refines crc now (clear_reader_cache e) s"
    "refines crc now (set_on_task_ready e) s" using i(2,3) by (auto intro: refinesI)
qed

lemma engine_step_sim:
  assumes "engine_step crc te te'" "refines crc (fst te) (snd te) s"
  shows "\<exists>s'. spec_steps s s' \<and> refines crc (fst te') (snd te') s'"
  using assms
proof (induction rule: engine_step.induct)
  case (es_push t now p e io pr res e')
  then have "refines crc now e s" using refines_mono by simp
  from push_step [OF this es_push.hyps(2-6)] show ?case by simp
next
  case (es_pop t now e c ttl res e')
  then have "refines crc now e s" using refines_mono by simp
  from pop_step_sim [OF this es_pop.hyps(2-3)] show ?case by simp
next
  case (es_ack t now e io k c res e')
  then have "refines crc now e s" using refines_mono by simp
  from ack_step [OF this es_ack.hyps(2-4)] show ?case by simp
next
  case (es_nack t now e io k c res e')
  then have "refines crc now e s" using refines_mono by simp
  from nack_step [OF this es_nack.hyps(2-4)] show ?case by simp
next
  case (es_expire t now ts e ios)
  then have "refines crc now e s" using refines_mono by simp
  from expire_step [OF this es_expire.hyps(2,3,5,4)] show ?case by simp
next
  case (es_restart t now e e')
  then obtain s' where "spec_reopened now s s'" "refines crc now e' s'"
    using restart_sim [OF _ es_restart.hyps(1)] by force
  then show ?case using r_into_rtranclp [of spec_step, OF step_reopen] by auto
next
  case (es_crash t now r e n err w fs e')
  then obtain s' where "spec_reopened now s s'" "refines crc now e' s'"
    using crash_sim [OF _ es_crash.hyps(1-4), of s err] by auto
  then show ?case using r_into_rtranclp [of spec_step, OF step_reopen] by auto
qed (auto simp: refines_clear)

lemma engine_init_sim: "engine_init crc te \<Longrightarrow> refines crc (fst te) (snd te) spec_init"
  using engine_open_spec [OF wal_holds_open_empty(1), of crc "fst te"]
  by (auto simp: engine_init_def log_wf_Nil intro!: refinesI)

section \<open>Simulation\<close>

text \<open>
  What a relation between two machines gives once every step of the concrete one is
  simulated by finitely many steps of the abstract one: runs are simulated, and invariants of
  the abstract machine hold of every state that the concrete one reaches.
\<close>

locale forward_sim =
  fixes cinit :: "'c \<Rightarrow> bool" and cstep :: "'c \<Rightarrow> 'c \<Rightarrow> bool"
    and ainit :: "'a \<Rightarrow> bool" and astep :: "'a \<Rightarrow> 'a \<Rightarrow> bool"
    and rel :: "'c \<Rightarrow> 'a \<Rightarrow> bool"
  assumes init_sim: "cinit c \<Longrightarrow> \<exists>a. ainit a \<and> rel c a"
    and step_sim: "rel c a \<Longrightarrow> cstep c c' \<Longrightarrow> \<exists>a'. astep\<^sup>*\<^sup>* a a' \<and> rel c' a'"
begin

lemma run_sim: "cstep\<^sup>*\<^sup>* c c' \<Longrightarrow> rel c a \<Longrightarrow> \<exists>a'. astep\<^sup>*\<^sup>* a a' \<and> rel c' a'"
proof (induction rule: rtranclp_induct)
  case (step c' c'')
  then show ?case using step_sim by (meson rtranclp_trans)
qed blast

lemma reach_sim: "cinit c \<Longrightarrow> cstep\<^sup>*\<^sup>* c c' \<Longrightarrow> \<exists>a a'. ainit a \<and> astep\<^sup>*\<^sup>* a a' \<and> rel c' a'"
  using init_sim run_sim by meson

lemma abstract_invariant:
  assumes "\<And>a. ainit a \<Longrightarrow> I a" "\<And>a a'. I a \<Longrightarrow> astep a a' \<Longrightarrow> I a'" "ainit a" "astep\<^sup>*\<^sup>* a a'"
  shows "I a'"
  using assms(4) by (induction rule: rtranclp_induct) (use assms in blast)+

lemma reach_invariant:
  assumes "\<And>a. ainit a \<Longrightarrow> I a" "\<And>a a'. I a \<Longrightarrow> astep a a' \<Longrightarrow> I a'" "cinit c" "cstep\<^sup>*\<^sup>* c c'"
  shows "\<exists>a. rel c' a \<and> I a"
proof -
  obtain a a' where "ainit a" "astep\<^sup>*\<^sup>* a a'" "rel c' a'" using reach_sim [OF assms(3,4)] by blast
  moreover from this have "I a'" using abstract_invariant [of I] assms(1,2) by blast
  ultimately show ?thesis by blast
qed

end

interpretation es: forward_sim "engine_init crc" "engine_step crc" "\<lambda>s. s = spec_init" spec_step
  "\<lambda>te s. refines crc (fst te) (snd te) s" for crc
  using engine_init_sim engine_step_sim by unfold_locales blast+

section \<open>The invariant of the abstract machine\<close>

definition spec_inv :: "task_spec \<Rightarrow> bool" where
  "spec_inv s \<longleftrightarrow>
     distinct (map task_id (s_ready s)) \<and> sorted (map delivery_key (s_ready s)) \<and>
     task_id ` set (s_ready s) \<inter> dom (s_leased s) = {} \<and>
     task_id ` set (s_ready s) \<union> dom (s_leased s) = dom (s_payload s) \<and>
     (\<forall>t \<in> set (s_ready s). task_retries t < MAX_RETRIES) \<and>
     (\<forall>li \<in> ran (s_leased s). lease_retries li < MAX_RETRIES)"

lemma spec_invD:
  assumes "spec_inv s"
  shows "distinct (map task_id (s_ready s))" "sorted (map delivery_key (s_ready s))"
    "t \<in> set (s_ready s) \<Longrightarrow> s_leased s (task_id t) = None"
    "t \<in> set (s_ready s) \<Longrightarrow> \<exists>p. s_payload s (task_id t) = Some p"
    "s_leased s k = Some li \<Longrightarrow> \<exists>p. s_payload s k = Some p"
    "s_payload s k = Some p \<Longrightarrow> s_leased s k = None \<Longrightarrow> \<exists>t \<in> set (s_ready s). task_id t = k"
    "t \<in> set (s_ready s) \<Longrightarrow> task_retries t < MAX_RETRIES" "s_leased s k = Some li \<Longrightarrow> lease_retries li < MAX_RETRIES"
proof -
  note i = assms [unfolded spec_inv_def]
  show "distinct (map task_id (s_ready s))" "sorted (map delivery_key (s_ready s))"
    "t \<in> set (s_ready s) \<Longrightarrow> s_leased s (task_id t) = None"
    "t \<in> set (s_ready s) \<Longrightarrow> \<exists>p. s_payload s (task_id t) = Some p"
    "s_leased s k = Some li \<Longrightarrow> \<exists>p. s_payload s k = Some p"
    "t \<in> set (s_ready s) \<Longrightarrow> task_retries t < MAX_RETRIES" "s_leased s k = Some li \<Longrightarrow> lease_retries li < MAX_RETRIES"
    using i by (auto simp: ran_def)
  show "\<exists>t \<in> set (s_ready s). task_id t = k" if "s_payload s k = Some p" "s_leased s k = None"
  proof -
    have "k \<in> task_id ` set (s_ready s) \<union> dom (s_leased s)" using i that(1) by auto
    then show ?thesis using that(2) by auto
  qed
qed

lemma spec_inv_init: "spec_inv spec_init"
  by (simp add: spec_inv_def spec_init_def)

lemma distinct_insert_after: "distinct (map f (insert_after g t xs)) \<longleftrightarrow> f t \<notin> f ` set xs \<and> distinct (map f xs)"
  by (induction xs) auto

lemma spec_inv_push: "spec_inv s \<Longrightarrow> s_payload s k = None \<Longrightarrow> spec_inv (spec_push k pr p s)"
proof -
  assume i: "spec_inv s" "s_payload s k = None"
  then have "k \<notin> task_id ` set (s_ready s) \<union> dom (s_leased s)" unfolding spec_inv_def by auto
  then show "spec_inv (spec_push k pr p s)"
    using i(1) unfolding spec_inv_def spec_push_def
    by (auto simp: distinct_insert_after insert_after_sorted MAX_RETRIES_def)
qed

lemma spec_inv_pop:
  assumes "spec_inv s" "s_ready s = t # ts"
  shows "spec_inv (spec_pop c ex s)"
  using assms unfolding spec_inv_def spec_pop_def
  by (auto simp: ran_def lease_info_def)

lemma spec_inv_finish: "spec_inv s \<Longrightarrow> s_leased s k = Some li \<Longrightarrow> spec_inv (spec_finish k s)"
  unfolding spec_inv_def spec_finish_def by (auto simp: ran_def)

lemma spec_inv_retry:
  assumes "spec_inv s" "s_leased s k = Some li" "n < MAX_RETRIES"
  shows "spec_inv (spec_retry k pr n s)"
  using assms unfolding spec_inv_def spec_retry_def
  by (auto simp: distinct_insert_after insert_after_sorted ran_def)

lemma spec_inv_fail: "spec_inv s \<Longrightarrow> s_leased s k = Some li \<Longrightarrow> spec_inv (spec_fail k li s)"
  by (simp add: spec_fail_def spec_inv_finish spec_inv_retry not_le)

text \<open>The ready tasks after reopening are the ready ones and the expired leases.\<close>

lemma spec_reopened_ready:
  assumes "spec_reopened now s s'"
  shows "set (s_ready s') = set (s_ready s) \<union>
    {task_ref k (lease_priority li) (lease_retries li) |k li. s_leased s k = Some li \<and> expire_timestamp li \<le> now}"
proof -
  define over where "over = (\<lambda>k. case s_leased s k of None \<Rightarrow> False | Some li \<Rightarrow> expire_timestamp li \<le> now)"
  have "set (s_ready s') = set (filter (\<lambda>t. \<not> over (task_id t)) (s_ready s')) \<union> {t \<in> set (s_ready s'). over (task_id t)}"
    by auto
  then show ?thesis using assms unfolding spec_reopened_def Let_def over_def by simp
qed

lemma task_id_refs: "task_id ` {task_ref k (f li) (g li) |k li. P k li} = {k. \<exists>li. P k li}"
proof (rule set_eqI, rule iffI)
  fix k assume "k \<in> {k. \<exists>li. P k li}"
  then obtain li where "P k li" by blast
  then show "k \<in> task_id ` {task_ref k (f li) (g li) |k li. P k li}"
    by (intro image_eqI [of _ _ "task_ref k (f li) (g li)"]) auto
qed auto

lemma spec_inv_reopened:
  assumes "spec_inv s" "spec_reopened now s s'"
  shows "spec_inv s'"
proof -
  note r = spec_reopened_ready [OF assms(2)]
  have s': "s_payload s' = s_payload s" "sorted (map delivery_key (s_ready s'))" "distinct (map task_id (s_ready s'))"
      "s_leased s' = (\<lambda>k. if (case s_leased s k of None \<Rightarrow> False | Some li \<Rightarrow> expire_timestamp li \<le> now) then None else s_leased s k)"
    using assms(2) unfolding spec_reopened_def Let_def by simp_all
  define over where "over = {k. \<exists>li. s_leased s k = Some li \<and> expire_timestamp li \<le> now}"
  have ids: "task_id ` set (s_ready s') = task_id ` set (s_ready s) \<union> over"
    unfolding r image_Un over_def by (simp only: task_id_refs)
  have leases: "dom (s_leased s') = dom (s_leased s) - over"
    unfolding s'(4) over_def by (auto split: option.splits if_splits)
  have "over \<subseteq> dom (s_leased s)" by (auto simp: over_def)
  moreover have "task_id ` set (s_ready s) \<inter> dom (s_leased s) = {}" "task_id ` set (s_ready s) \<union> dom (s_leased s) = dom (s_payload s)"
    using assms(1) unfolding spec_inv_def by simp_all
  ultimately have "task_id ` set (s_ready s') \<inter> dom (s_leased s') = {}" "task_id ` set (s_ready s') \<union> dom (s_leased s') = dom (s_payload s')"
    unfolding ids leases s'(1) by blast+
  moreover have "task_retries t < MAX_RETRIES" if "t \<in> set (s_ready s')" for t
    using that spec_invD(7,8) [OF assms(1)] unfolding r by auto
  moreover have "ran (s_leased s') \<subseteq> ran (s_leased s)"
    unfolding s'(4) by (auto simp: ran_def split: if_splits)
  moreover have "\<forall>li \<in> ran (s_leased s). lease_retries li < MAX_RETRIES" using assms(1) by (simp add: spec_inv_def)
  ultimately show ?thesis using s'(2,3) by (auto simp: spec_inv_def)
qed

lemma spec_inv_step: "spec_step s s' \<Longrightarrow> spec_inv s \<Longrightarrow> spec_inv s'"
proof (induction rule: spec_step.induct)
  case (step_pop s c ex)
  then show ?case using spec_inv_pop by (cases "s_ready s") auto
qed (blast intro: spec_inv_push spec_inv_finish spec_inv_fail spec_inv_reopened)+

lemma reach_spec:
  assumes "engine_init crc te" "(engine_step crc)\<^sup>*\<^sup>* te te'"
  shows "\<exists>s. refines crc (fst te') (snd te') s \<and> spec_inv s"
  by (rule es.reach_invariant [OF _ _ assms]) (use spec_inv_init spec_inv_step in blast)+

end
