(* ===== verification/Engine_Correct.thy ===== *)
theory Engine_Correct
  imports Engine_Spec
begin

text \<open>
  What the engine guarantees: the properties of its operations in every state of a run, of
  its restarts and crashes, and of the invariants a run keeps. All rest on the simulation of
  the theory \<open>Engine_Spec\<close>.
\<close>

section \<open>Engines of regular runs\<close>

text \<open>
  The engines that the steps of \<open>engine_step\<close> lead to from an empty directory: no lease record
  failed to be written, no lease ended between the two locked sections of the expiration worker,
  and nothing was compacted.
\<close>

definition regularly_reached :: "(bytes \<Rightarrow> u32) \<Rightarrow> u64 \<Rightarrow> Engine \<Rightarrow> bool" where
  "regularly_reached crc t e \<longleftrightarrow> (\<exists>te. engine_init crc te \<and> (engine_step crc)\<^sup>*\<^sup>* te (t, e))"

lemma reachable_init: "engine_open crc t fs_empty = Inr e \<Longrightarrow> regularly_reached crc t e"
  unfolding regularly_reached_def engine_init_def by force

lemma reachable_step: "regularly_reached crc t e \<Longrightarrow> engine_step crc (t, e) (t', e') \<Longrightarrow> regularly_reached crc t' e'"
  unfolding regularly_reached_def by (meson rtranclp.rtrancl_into_rtrancl)

lemma reachable_refines: "regularly_reached crc t e \<Longrightarrow> \<exists>s. refines crc t e s \<and> spec_inv s"
  unfolding regularly_reached_def using reach_spec by fastforce

section \<open>A first run\<close>

text \<open>
  An engine on an empty directory, with one task pushed, with that task leased: the states
  the witnesses below use.
\<close>

lemma engine_open_empty:
  "\<exists>w fs. engine_open crc now fs_empty =
      Inr \<lparr>inner = new_state w DEFAULT_PAYLOAD_CACHE_CAPACITY, files = fs, reader = [], callbacks = 0\<rparr> \<and>
    active_segment_id w = 1"
proof -
  obtain w fs where o: "wal_open crc fs_empty None = (w, fs)" by fastforce
  have h: "wal_holds crc (w, fs) []" "active_segment_id w = 1"
    using wal_holds_open_empty [of crc None] by (simp_all add: o)
  then obtain segs where "wal_repr crc w fs segs" "[] = log_of segs" by (auto simp: wal_holds_def)
  then have it: "iter_all fs = (fst (iter_all fs), fs)" "iter_collect crc fs (fst (iter_all fs)) = Inr []"
    using iter_all_log by metis+
  have "recover crc now fs [] (new_state w c) = (Inr (new_state w c, []), fs)" for c
    unfolding recover_def by (subst it(1)) (simp add: it(2) new_state_def)
  then show ?thesis using h(2) by (intro exI [of _ w] exI [of _ fs]) (simp add: engine_open_def o)
qed

definition demo_new :: Engine where
  "demo_new = projr (engine_open byte_sum 0 fs_empty)"

definition demo_pushed :: Engine where
  "demo_pushed = snd (push byte_sum AppendOk [1, 2] 5 demo_new)"

definition demo_leased :: Engine where
  "demo_leased = snd (pop_and_lease byte_sum AppendOk 10 7 30 demo_pushed)"

definition demo_spec_pushed :: task_spec where
  "demo_spec_pushed = \<lparr>s_ready = [task_ref 1 5 0], s_leased = Map.empty, s_payload = [1 \<mapsto> [1, 2]]\<rparr>"

definition demo_spec_leased :: task_spec where
  "demo_spec_leased = \<lparr>s_ready = [], s_leased = [1 \<mapsto> lease_info 7 40 0 5], s_payload = [1 \<mapsto> [1, 2]]\<rparr>"

lemma demo_new:
  "engine_open byte_sum 0 fs_empty = Inr demo_new" "active_segment_id (wal (inner demo_new)) = 1"
  "next_id (inner demo_new) = 1" "refines byte_sum 0 demo_new spec_init" "regularly_reached byte_sum 0 demo_new"
proof -
  obtain w fs where o: "engine_open byte_sum 0 fs_empty =
      Inr \<lparr>inner = new_state w DEFAULT_PAYLOAD_CACHE_CAPACITY, files = fs, reader = [], callbacks = 0\<rparr>"
      "active_segment_id w = 1"
    using engine_open_empty by blast
  show e: "engine_open byte_sum 0 fs_empty = Inr demo_new" by (simp add: demo_new_def o(1))
  show "active_segment_id (wal (inner demo_new)) = 1" "next_id (inner demo_new) = 1"
    by (simp_all add: demo_new_def o new_state_def)
  show "refines byte_sum 0 demo_new spec_init"
    using engine_init_sim [of byte_sum "(0, demo_new)"] e by (simp add: engine_init_def)
  show "regularly_reached byte_sum 0 demo_new" by (rule reachable_init [OF e])
qed

lemma log_append_active:
  "log_append crc io r e = (res, e') \<Longrightarrow>
   unat (active_segment_id (wal (inner e'))) \<le> Suc (unat (active_segment_id (wal (inner e))))"
  by (auto simp: log_append_def dest!: append_active split: prod.splits)

lemma push_active:
  "unat (active_segment_id (wal (inner (snd (push crc io p pr e))))) \<le> Suc (unat (active_segment_id (wal (inner e))))"
  by (auto simp: push_def Let_def notify_def split: prod.splits sum.splits dest!: log_append_active)

lemma push_next_id: "push crc io p pr e = (Inr k, e') \<Longrightarrow> next_id (inner e') = next_id (inner e) + 1"
  by (auto simp: push_def log_append_def notify_def Let_def split: prod.splits sum.splits)

lemma ack_active:
  "ack crc io k c e = (res, e') \<Longrightarrow> unat (active_segment_id (wal (inner e'))) \<le> Suc (unat (active_segment_id (wal (inner e))))"
  by (auto simp: ack_def Let_def split: option.splits if_splits prod.splits sum.splits dest!: log_append_active)

lemma demo_pushed:
  "push byte_sum AppendOk [1, 2] 5 demo_new = (Inr 1, demo_pushed)" "has_room demo_pushed"
  "refines byte_sum 0 demo_pushed demo_spec_pushed" "regularly_reached byte_sum 0 demo_pushed"
proof -
  have room: "has_room demo_new" "next_id (inner demo_new) \<noteq> - 1" by (simp_all add: demo_new)
  have small: "length [1, 2 :: u8] \<le> MAX_PAYLOAD_SIZE" by (simp add: MAX_PAYLOAD_SIZE_def)
  obtain e' where e': "push byte_sum AppendOk [1, 2] 5 demo_new = (Inr 1, e')"
      "refines byte_sum 0 e' (spec_push 1 5 [1, 2] spec_init)"
    using push_sim [OF demo_new(4) small room, of 5] by (auto simp: demo_new)
  then show p: "push byte_sum AppendOk [1, 2] 5 demo_new = (Inr 1, demo_pushed)" by (simp add: demo_pushed_def)
  have "spec_push 1 5 [1, 2] spec_init = demo_spec_pushed"
    by (simp add: spec_push_def spec_init_def demo_spec_pushed_def)
  then show "refines byte_sum 0 demo_pushed demo_spec_pushed" using e' p by simp
  show "regularly_reached byte_sum 0 demo_pushed"
    by (rule reachable_step [OF demo_new(5) es_push [OF _ small room _ p]]) (simp_all add: io_clean_def)
  have "unat (active_segment_id (wal (inner demo_pushed))) \<le> 2"
    using push_active [of byte_sum AppendOk "[1, 2]" 5 demo_new] by (simp add: demo_new demo_pushed_def)
  then show "has_room demo_pushed" by (auto simp: unsigned_minus_1_eq_mask mask_eq_exp_minus_1)
qed

lemma pop_step_wal: "pop_step crc t pc e = (pc', e') \<Longrightarrow> inner e' = inner e"
  by (auto simp: pop_step_def Let_def split: pop_pc.splits if_splits prod.splits sum.splits option.splits rs_error.splits error_kind.splits)

lemma pop_run_wal: "inner (snd (pop_run n crc t pc e)) = inner e"
  by (induction n arbitrary: pc e) (auto split: prod.split dest: pop_step_wal)

lemma pop_active:
  "unat (active_segment_id (wal (inner (snd (pop_and_lease crc io now c ttl e))))) \<le>
   Suc (unat (active_segment_id (wal (inner e))))"
proof -
  have "unat (active_segment_id (wal (inner (snd (pop_locked crc io now c ttl e))))) \<le>
      Suc (unat (active_segment_id (wal (inner e))))"
    by (auto simp: pop_locked_def Let_def split: prod.splits sum.splits option.splits dest!: log_append_active)
  moreover obtain res e1 where "pop_locked crc io now c ttl e = (res, e1)" by fastforce
  ultimately show ?thesis
    using pop_run_wal [of 5 crc _ _ e1]
    by (auto simp: pop_and_lease_def split: sum.split option.split prod.split pop_pc.split) (metis snd_conv)+
qed

lemma demo_leased:
  "pop_and_lease byte_sum AppendOk 10 7 30 demo_pushed = (Inr (Some (new_record 1 Created 5 [1, 2], 0)), demo_leased)"
  "has_room demo_leased" "refines byte_sum 10 demo_leased demo_spec_leased" "regularly_reached byte_sum 10 demo_leased"
  "unat (active_segment_id (wal (inner demo_leased))) \<le> 3"
proof -
  have r: "refines byte_sum 10 demo_pushed demo_spec_pushed" by (rule refines_mono [OF demo_pushed(3)]) simp
  obtain e' where e': "pop_and_lease byte_sum AppendOk 10 7 30 demo_pushed = (Inr (Some (new_record 1 Created 5 [1, 2], 0)), e')"
      "refines byte_sum 10 e' (spec_pop 7 40 demo_spec_pushed)"
    using pop_sim [OF r demo_pushed(2), of "task_ref 1 5 0" "[]" 7 30] by (auto simp: demo_spec_pushed_def)
  then show p: "pop_and_lease byte_sum AppendOk 10 7 30 demo_pushed =
      (Inr (Some (new_record 1 Created 5 [1, 2], 0)), demo_leased)" by (simp add: demo_leased_def)
  have "spec_pop 7 40 demo_spec_pushed = demo_spec_leased"
    by (simp add: spec_pop_def demo_spec_pushed_def demo_spec_leased_def)
  then show "refines byte_sum 10 demo_leased demo_spec_leased" using e' p by simp
  show "regularly_reached byte_sum 10 demo_leased"
    by (rule reachable_step [OF demo_pushed(4) es_pop [OF _ demo_pushed(2) p]]) simp
  have "unat (active_segment_id (wal (inner demo_pushed))) \<le> 2"
    using push_active [of byte_sum AppendOk "[1, 2]" 5 demo_new] by (simp add: demo_new demo_pushed_def)
  then show "unat (active_segment_id (wal (inner demo_leased))) \<le> 3"
    using pop_active [of byte_sum AppendOk 10 7 30 demo_pushed] by (simp add: demo_leased_def)
  then show "has_room demo_leased" by (auto simp: unsigned_minus_1_eq_mask mask_eq_exp_minus_1)
qed

section \<open>Rounds of the expiration worker\<close>

definition spec_expire :: "(u64 \<times> u8 \<times> u8) list \<Rightarrow> task_spec \<Rightarrow> task_spec" where
  "spec_expire tasks s =
     foldl (\<lambda>s (k, pr, n). if n + 1 \<ge> MAX_RETRIES then spec_finish k s else spec_retry k pr (n + 1) s) s tasks"

lemma spec_expire_simps [simp]:
  "spec_expire [] s = s"
  "spec_expire ((k, pr, n) # tasks) s =
     spec_expire tasks (if n + 1 \<ge> MAX_RETRIES then spec_finish k s else spec_retry k pr (n + 1) s)"
  by (simp_all add: spec_expire_def)

lemma expire_loop_ok:
  assumes "refines crc now e s" "expired_leases tasks e" "room_for (length tasks) e"
  shows "\<exists>e'. expire_loop crc (\<lambda>_. AppendOk) tasks m e =
      (m + length (filter (\<lambda>(k, pr, n). n + 1 < MAX_RETRIES) tasks), e') \<and>
    refines crc now e' (spec_expire tasks s) \<and> on_task_ready (inner e') = on_task_ready (inner e)"
  using assms
proof (induction tasks arbitrary: e s m)
  case (Cons task tasks)
  obtain k pr n where task: "task = (k, pr, n)" by (metis prod_cases3)
  obtain li where li: "hm_get (leased (inner e)) k = Some li" "lease_priority li = pr" "lease_retries li = n"
    using Cons.prems(2) by (auto simp: expired_leases_def task)
  then have sl: "s_leased s k = Some li" using refines_memory(2) [OF Cons.prems(1)] by simp
  have room: "has_room e" using room_for_has_room [where n = "length tasks"] Cons.prems(3) by simp
  obtain e1 where f: "process_task_failure crc AppendOk k pr n Expired e = (Inr (n + 1 < MAX_RETRIES), e1)"
      "refines crc now e1 (spec_fail k li s)" "on_task_ready (inner e1) = on_task_ready (inner e)"
    using task_failure_sim [OF Cons.prems(1) room sl, of Expired] li(2,3) by auto
  have "hm_get (leased (inner e1)) i = hm_get (leased (inner e)) i" if "i \<noteq> k" for i
    using refines_memory(2) [OF f(2)] refines_memory(2) [OF Cons.prems(1)] that
    by (auto simp: spec_fail_def spec_finish_def spec_retry_def)
  then have "expired_leases tasks e1" using Cons.prems(2) by (fastforce simp: expired_leases_def task)
  moreover have "room_for (length tasks) e1" using task_failure_active [OF f(1)] Cons.prems(3) by simp
  moreover have "spec_expire (task # tasks) s = spec_expire tasks (spec_fail k li s)"
    by (simp add: task spec_fail_def li)
  moreover have "expire_loop crc (\<lambda>_. AppendOk) (task # tasks) m e =
      expire_loop crc (\<lambda>_. AppendOk) tasks (if n + 1 < MAX_RETRIES then m + 1 else m) e1"
    by (simp add: task f(1) split: bool.split)
  ultimately show ?case
    using Cons.IH [OF f(2), of "if n + 1 < MAX_RETRIES then m + 1 else m"] f(3) by (auto simp: task)
qed simp

text \<open>What a round does to leases, payloads and ready tasks.\<close>

lemma spec_expire_leased:
  "s_leased (spec_expire tasks s) k = (if k \<in> fst ` set tasks then None else s_leased s k)"
proof (induction tasks arbitrary: s)
  case (Cons task tasks)
  then show ?case by (cases task) (simp add: spec_finish_def spec_retry_def)
qed simp

lemma spec_expire_payload:
  "s_payload (spec_expire tasks s) k =
     (if k \<in> fst ` set (filter (\<lambda>(k, pr, n). n + 1 \<ge> MAX_RETRIES) tasks) then None else s_payload s k)"
proof (induction tasks arbitrary: s)
  case (Cons task tasks)
  then show ?case by (cases task) (simp add: spec_finish_def spec_retry_def)
qed simp

lemma spec_expire_ready:
  "set (s_ready (spec_expire tasks s)) =
     (\<lambda>(k, pr, n). task_ref k pr (n + 1)) ` set (filter (\<lambda>(k, pr, n). n + 1 < MAX_RETRIES) tasks) \<union> set (s_ready s)"
proof (induction tasks arbitrary: s)
  case (Cons task tasks)
  then show ?case by (cases task) (simp add: spec_finish_def spec_retry_def not_le [symmetric])
qed simp

lemma collect_expired_set:
  assumes "refines crc now e s"
  shows "(k, pr, n) \<in> set (collect_expired now e) \<longleftrightarrow>
    (\<exists>li. s_leased s k = Some li \<and> expire_timestamp li \<le> now \<and> lease_priority li = pr \<and> lease_retries li = n)"
proof -
  have "hm_ok (leased (inner e))" using assms engine_invD(6) unfolding refines_def by blast
  then show ?thesis
    using refines_memory(2) [OF assms, of k]
    by (auto simp: collect_expired_def hm_get_Some_iff [symmetric] image_iff split: prod.splits)
qed

section \<open>A lease that cannot be logged\<close>

lemma pop_append_fails:
  assumes "refines crc now e s" "has_room e" "s_ready s = t # ts" "io_fails io (wal (inner e)) err"
  shows "\<exists>e'. pop_and_lease crc io now c ttl e = (Inl err, e') \<and> delivery (ready_queue (inner e')) = ts \<and>
    leased (inner e') = leased (inner e) \<and>
    (\<forall>later \<ge> now. \<exists>e'' s''. engine_open crc later (files e') = Inr e'' \<and> spec_reopened later s s'' \<and> refines crc later e'' s'')"
proof -
  obtain log X where i: "engine_inv crc log X e" "X \<subseteq> expired_ids now log" "s = spec_of X log"
    using assms(1) unfolding refines_def by blast
  have dl: "delivery (ready_queue (inner e)) = t # ts" using refines_memory(1) [OF assms(1)] assms(3) by simp
  then obtain q where q: "pbq_pop (ready_queue (inner e)) = Inr (Some t, q)" "delivery q = ts"
    using bq.pop_Cons [OF engine_invD(4) [OF i(1)]] by blast
  define r where "r = new_record (task_id t) Leased (task_priority t) (lease_bytes c (now + ttl) (task_retries t))"
  obtain w fs where a: "wal_append crc io r (wal (inner e)) (files e) = (Inl err, w, fs)" "wal_holds crc (w, fs) log"
    using wal_append_fails [OF i(1) assms(2,4)] by blast
  then have "pop_and_lease crc io now c ttl e =
      (Inl err, e\<lparr>inner := (inner e)\<lparr>ready_queue := q, wal := w\<rparr>, files := fs\<rparr>)" (is "_ = (_, ?e')")
    by (simp add: pop_and_lease_def pop_locked_def q(1) Let_def r_def log_append_def)
  moreover have "\<exists>e'' s''. engine_open crc later fs = Inr e'' \<and> spec_reopened later s s'' \<and> refines crc later e'' s''"
    if "now \<le> later" for later
  proof (rule reopen_sim [OF assms(1) that])
    fix log' X' assume "engine_inv crc log' X' e"
    then have "log' = log" using wl.holds_unique engine_invD(1) i(1) by blast
    then show "wal_holds crc (wal_open crc fs None) log'" using wal_holds_reopen [OF a(2)] by simp
  qed
  ultimately show ?thesis using q(2) by (intro exI [of _ ?e']) simp
qed

section \<open>Reading the payload\<close>

text \<open>
  The steps of one \<open>pop_and_lease\<close> after it has released the lock, with anything other
  threads do to the engine before each of them.
\<close>

fun pop_interleaved :: "(bytes \<Rightarrow> u32) \<Rightarrow> TaskRef \<Rightarrow> (Engine \<Rightarrow> Engine) list \<Rightarrow> pop_pc \<Rightarrow> Engine \<Rightarrow> pop_pc \<times> Engine" where
  "pop_interleaved crc t [] pc e = (pc, e)"
| "pop_interleaved crc t (f # fs) pc e =
     (case pop_step crc t pc (f e) of (pc, e) \<Rightarrow> pop_interleaved crc t fs pc e)"

text \<open>The steps that are left.\<close>

fun pop_left :: "pop_pc \<Rightarrow> nat" where
  "pop_left (Reading n l) = 5 - 2 * min n 2"
| "pop_left (Relooking n) = 4 - 2 * min n 1"
| "pop_left (Finished res) = 0"

lemma pop_step_left: "pop_step crc t pc e = (pc', e') \<Longrightarrow> pop_left pc' \<le> pop_left pc - 1"
  by (cases pc) (auto simp: pop_step_def Let_def min_def split: if_splits prod.splits sum.splits option.splits
      rs_error.splits error_kind.splits)

lemma pop_interleaved_left: "pop_left (fst (pop_interleaved crc t fs pc e)) \<le> pop_left pc - length fs"
proof (induction fs arbitrary: pc e)
  case (Cons f fs)
  obtain pc' e' where s: "pop_step crc t pc (f e) = (pc', e')" by fastforce
  then show ?case using Cons.IH [of pc' e'] pop_step_left [OF s] by simp
qed simp

lemma pop_left_0: "pop_left pc = 0 \<longleftrightarrow> (\<exists>res. pc = Finished res)"
  by (cases pc) auto

section \<open>Restarts keep the active segment\<close>

lemma recover_pass1_wal: "wal (foldl recover_pass1 st items) = wal st"
  by (induction items arbitrary: st) (auto simp: recover_pass1_def Let_def split: prod.splits)

lemma recover_pass2_wal: "recover_pass2 crc now fs entries cache st = (Inr st', cache') \<Longrightarrow> wal st' = wal st"
proof (induction entries arbitrary: cache st)
  case (Cons entry entries)
  have w: "wal (recover_entry now tid l r st) = wal st" for tid l r st by (simp add: recover_entry_def Let_def)
  show ?case
    using Cons.prems by (cases entry) (auto split: prod.splits sum.splits option.splits dest!: Cons.IH simp: w)
qed simp

lemma engine_open_wal: "engine_open crc now fs = Inr e \<Longrightarrow> wal (inner e) = fst (wal_open crc fs None)"
  by (auto simp: engine_open_def recover_def Let_def recover_pass1_wal new_state_def
      dest!: recover_pass2_wal split: prod.splits sum.splits)

lemma reopen_active:
  assumes "wal_holds crc (w, fs) log"
  shows "active_segment_id (fst (wal_open crc fs m)) = active_segment_id w"
proof -
  obtain segs where segs: "wal_repr crc w fs segs" using assms by (auto simp: wal_holds_def)
  obtain w' fs' where "wal_open crc fs m = (w', fs')" "wal_repr crc w' fs' segs"
    using wal_open_spec [OF wal_repr_disk_holds [OF segs(1)], of m] by blast
  then show ?thesis using segs by (metis fst_conv wal_reprD(6))
qed

lemma restart_active:
  assumes "refines crc t e s" "engine_open crc now (files e) = Inr e'"
  shows "active_segment_id (wal (inner e')) = active_segment_id (wal (inner e))"
  using assms(1) engine_open_wal [OF assms(2)] reopen_active engine_invD(1) unfolding refines_def by metis

section \<open>Callbacks\<close>

lemma log_append_callbacks: "log_append crc io r e = (res, e') \<Longrightarrow> callbacks e' = callbacks e \<and> on_task_ready (inner e') = on_task_ready (inner e)"
  by (auto simp: log_append_def split: prod.splits)

lemma task_failure_callbacks: "process_task_failure crc io k pr n ft e = (res, e') \<Longrightarrow> callbacks e' = callbacks e"
  by (auto simp: process_task_failure_def Let_def dest!: log_append_callbacks split: prod.splits sum.splits if_splits)

lemma expire_loop_callbacks: "callbacks (snd (expire_loop crc ios tasks n e)) = callbacks e"
proof (induction tasks arbitrary: n e)
  case (Cons task tasks)
  obtain k pr m res e' where s: "task = (k, pr, m)" "process_task_failure crc (ios k) k pr m Expired e = (res, e')"
    by (metis prod_cases3 surj_pair)
  have "callbacks (snd (expire_loop crc ios (task # tasks) n e)) = callbacks e'"
    unfolding s(1) expire_loop.simps s(2) by (simp add: Cons.IH split: sum.split bool.split)
  then show ?case using task_failure_callbacks [OF s(2)] by simp
qed simp

section \<open>The two ways to reject a lease\<close>

lemma nack_sim:
  assumes "refines crc now e s" "has_room e" "s_leased s k = Some li" "consumer_id li = c"
  shows "\<exists>e'. nack crc AppendOk k c e = (Inr (), e') \<and> refines crc now e' (spec_fail k li s) \<and>
    callbacks e' = callbacks e + (if on_task_ready (inner e) \<and> lease_retries li + 1 < MAX_RETRIES then 1 else 0)"
proof -
  have l: "hm_get (leased (inner e)) k = Some li" using refines_memory(2) [OF assms(1), of k] assms(3) by simp
  obtain e' where e': "process_task_failure crc AppendOk k (lease_priority li) (lease_retries li) Nacked e =
      (Inr (lease_retries li + 1 < MAX_RETRIES), e')" "refines crc now e' (spec_fail k li s)"
      "on_task_ready (inner e') = on_task_ready (inner e)"
    using task_failure_sim [OF assms(1-3), of Nacked] by auto
  define e'' where "e'' = (if lease_retries li + 1 < MAX_RETRIES then notify 1 e' else e')"
  have "refines crc now e'' (spec_fail k li s)" using e'(2) by (simp add: e''_def)
  moreover have "callbacks e'' = callbacks e + (if on_task_ready (inner e) \<and> lease_retries li + 1 < MAX_RETRIES then 1 else 0)"
    using e'(3) task_failure_callbacks [OF e'(1)] by (simp add: e''_def notify_def)
  moreover have "nack crc AppendOk k c e = (Inr (), e'')" using assms(4) e'(1) l by (simp add: nack_def e''_def)
  ultimately show ?thesis by blast
qed

lemma nack_fails:
  assumes "refines crc now e s" "has_room e" "s_leased s k = Some li" "consumer_id li = c" "io_fails io (wal (inner e)) err"
  shows "\<exists>e'. nack crc io k c e = (Inl err, e') \<and> refines crc now e' s"
proof -
  have l: "hm_get (leased (inner e)) k = Some li" using refines_memory(2) [OF assms(1), of k] assms(3) by simp
  obtain e' where "process_task_failure crc io k (lease_priority li) (lease_retries li) Nacked e = (Inl err, e')" "refines crc now e' s"
    using task_failure_fails [OF _ assms(2,5), of crc _ _ k "lease_priority li" "lease_retries li" Nacked] assms(1)
    unfolding refines_def by blast
  then show ?thesis using assms(4) l by (simp add: nack_def)
qed

lemma ack_nack_refused:
  assumes "refines crc now e s" "op \<in> {ack, nack}"
  shows "s_leased s k = None \<Longrightarrow> op crc io k c e = (Inl not_leased_error, e)"
    "s_leased s k = Some li \<Longrightarrow> consumer_id li \<noteq> c \<Longrightarrow> op crc io k c e = (Inl other_consumer_error, e)"
  using assms(2) refines_memory(2) [OF assms(1), of k] by (auto simp: ack_def nack_def)

section \<open>Properties\<close>

text \<open>
  C1. Every regular run of the engine from an empty directory is a run of the abstract machine:
  any sequence of pushes, pops, acknowledgements, rejections, rounds of the expiration worker
  with other operations between its two locked sections, restarts, and crashes in the middle of
  a write. The ready queue of the engine, in delivery order, and its leases are those of the
  abstract state. A run is regular as long as every record of a lease can be written, no lease
  that the worker has collected ends before the worker processes it, and nothing is compacted.
\<close>

theorem engine_simulates_spec:
  assumes "regularly_reached crc t e"
  shows "\<exists>s. spec_step\<^sup>*\<^sup>* spec_init s \<and> refines crc t e s \<and> delivery (ready_queue (inner e)) = s_ready s \<and>
    (\<forall>k. hm_get (leased (inner e)) k = s_leased s k)"
proof -
  obtain te where "engine_init crc te" "(engine_step crc)\<^sup>*\<^sup>* te (t, e)" using assms unfolding regularly_reached_def by blast
  then obtain s where s: "spec_step\<^sup>*\<^sup>* spec_init s" "refines crc t e s" using es.reach_sim [of crc te "(t, e)"] by auto
  then show ?thesis using refines_memory [OF s(2)] by blast
qed

theorem engine_simulates_spec_witness:
  "\<exists>s. spec_step\<^sup>*\<^sup>* spec_init s \<and> refines byte_sum 10 demo_leased s \<and> delivery (ready_queue (inner demo_leased)) = s_ready s \<and>
    (\<forall>k. hm_get (leased (inner demo_leased)) k = s_leased s k)"
  by (rule engine_simulates_spec [OF demo_leased(4)])

text \<open>
  C9. In every state of a regular run (every record of a lease could be written, no lease ended
  between being collected and being processed by the expiration worker, nothing was compacted)
  the ready tasks are in delivery order and have distinct ids, no task is both ready and leased,
  the tasks whose payload is indexed are exactly the ready and the leased ones, and no ready or
  leased task has used up its retries.
\<close>

theorem engine_invariant:
  assumes "regularly_reached crc t e"
  shows "sorted (map delivery_key (delivery (ready_queue (inner e)))) \<and>
    distinct (map task_id (delivery (ready_queue (inner e)))) \<and>
    (\<forall>r \<in> set (delivery (ready_queue (inner e))). hm_get (leased (inner e)) (task_id r) = None \<and> task_retries r < MAX_RETRIES) \<and>
    (\<forall>k li. hm_get (leased (inner e)) k = Some li \<longrightarrow> lease_retries li < MAX_RETRIES) \<and>
    (\<forall>k. hm_get (data_index (inner e)) k \<noteq> None \<longleftrightarrow>
       k \<in> task_id ` set (delivery (ready_queue (inner e))) \<or> hm_get (leased (inner e)) k \<noteq> None)"
proof -
  obtain s where s: "refines crc t e s" "spec_inv s" using reachable_refines [OF assms] by blast
  have "hm_get (data_index (inner e)) k \<noteq> None \<longleftrightarrow> s_payload s k \<noteq> None" for k
  proof -
    obtain log X where i: "engine_inv crc log X e" "s = spec_of X log" using s(1) unfolding refines_def by blast
    then show ?thesis using engine_invD(8) [OF i(1), of k] data_map_dom [of log k] by (simp add: spec_of_def)
  qed
  then show ?thesis
    using spec_invD(1-3,7,8) [OF s(2)] spec_invD(4,5,6) [OF s(2)]
    unfolding refines_memory [OF s(1)] by (auto simp: image_iff) blast
qed

theorem engine_invariant_witness:
  "distinct (map task_id (delivery (ready_queue (inner demo_leased)))) \<and>
   hm_get (leased (inner demo_leased)) 1 = Some (lease_info 7 40 0 5) \<and> hm_get (data_index (inner demo_leased)) 1 \<noteq> None"
  using engine_invariant [OF demo_leased(4)] refines_memory(2) [OF demo_leased(3), of 1]
  by (simp add: demo_spec_leased_def)

text \<open>
  C10. \<open>push\<close> returns the next id, which no live task has, makes the task ready behind all
  tasks of the same or a higher priority, and keeps its payload. When the record cannot be
  written the error is returned and no task changes.
\<close>

theorem push_correct:
  assumes "refines crc now e s" "length p \<le> MAX_PAYLOAD_SIZE" "has_room e" "next_id (inner e) \<noteq> - 1"
  shows "(\<exists>e'. push crc AppendOk p pr e = (Inr (next_id (inner e)), e') \<and> s_payload s (next_id (inner e)) = None \<and>
      refines crc now e' (spec_push (next_id (inner e)) pr p s)) \<and>
    (\<forall>io err. io_fails io (wal (inner e)) err \<longrightarrow>
      (\<exists>e'. push crc io p pr e = (Inl err, e') \<and> refines crc now e' s))"
  using push_sim [OF assms] push_fails_sim [OF assms(1,3) _ assms(4)] by blast

theorem push_correct_witness:
  "\<exists>e'. push byte_sum AppendOk [1, 2] 5 demo_new = (Inr 1, e') \<and> refines byte_sum 0 e' (spec_push 1 5 [1, 2] spec_init)"
proof -
  have "length [1, 2 :: u8] \<le> MAX_PAYLOAD_SIZE" "has_room demo_new" "next_id (inner demo_new) \<noteq> - 1"
    by (simp_all add: demo_new MAX_PAYLOAD_SIZE_def)
  from push_correct [OF demo_new(4) this, of 5] show ?thesis by (auto simp: demo_new)
qed

text \<open>
  C11. \<open>pop_and_lease\<close> on an empty queue returns nothing and changes nothing; otherwise it
  returns the first task in delivery order with exactly the payload that was pushed, its
  priority and its retries, and the task is leased to the consumer until \<open>now + ttl\<close>.
\<close>

theorem pop_correct:
  assumes "refines crc now e s" "has_room e"
  shows "case s_ready s of
      [] \<Rightarrow> pop_and_lease crc AppendOk now c ttl e = (Inr None, e)
    | t # ts \<Rightarrow> \<exists>e' p. pop_and_lease crc AppendOk now c ttl e =
          (Inr (Some (new_record (task_id t) Created (task_priority t) p, task_retries t)), e') \<and>
        s_payload s (task_id t) = Some p \<and> refines crc now e' (spec_pop c (now + ttl) s) \<and>
        hm_get (leased (inner e')) (task_id t) = Some (lease_info c (now + ttl) (task_retries t) (task_priority t))"
proof (cases "s_ready s")
  case Nil
  then show ?thesis using pop_empty_sim [OF assms(1)] by simp
next
  case (Cons t ts)
  then obtain e' p where p: "pop_and_lease crc AppendOk now c ttl e =
      (Inr (Some (new_record (task_id t) Created (task_priority t) p, task_retries t)), e')"
      "s_payload s (task_id t) = Some p" "refines crc now e' (spec_pop c (now + ttl) s)"
    using pop_sim [OF assms Cons] by blast
  then have "hm_get (leased (inner e')) (task_id t) = Some (lease_info c (now + ttl) (task_retries t) (task_priority t))"
    using refines_memory(2) [OF p(3), of "task_id t"] by (simp add: spec_pop_def Cons)
  then show ?thesis using p Cons by simp
qed

theorem pop_correct_witness:
  "s_ready demo_spec_pushed = [task_ref 1 5 0] \<and>
   (\<exists>e' p. pop_and_lease byte_sum AppendOk 0 7 30 demo_pushed = (Inr (Some (new_record 1 Created 5 p, 0)), e') \<and>
     s_payload demo_spec_pushed 1 = Some p)"
  using pop_correct [OF demo_pushed(3,2), of 7 30] by (auto simp: demo_spec_pushed_def)

text \<open>
  C12. \<open>ack\<close> of a task that is not leased, or leased to another consumer, is refused and
  changes nothing; the holder's \<open>ack\<close> ends the task, and nothing of it is left. When the
  record cannot be written the error is returned and the lease stays.
\<close>

theorem ack_correct:
  assumes "refines crc now e s" "has_room e"
  shows "case s_leased s k of
      None \<Rightarrow> ack crc io k c e = (Inl not_leased_error, e)
    | Some li \<Rightarrow>
        if consumer_id li \<noteq> c then ack crc io k c e = (Inl other_consumer_error, e)
        else (\<exists>e'. ack crc AppendOk k c e = (Inr (), e') \<and> refines crc now e' (spec_finish k s)) \<and>
          (\<forall>err. io_fails io (wal (inner e)) err \<longrightarrow> (\<exists>e'. ack crc io k c e = (Inl err, e') \<and> refines crc now e' s))"
proof (cases "s_leased s k")
  case None
  then show ?thesis using ack_nack_refused(1) [OF assms(1)] by simp
next
  case (Some li)
  then have l: "hm_get (leased (inner e)) k = Some li" using refines_memory(2) [OF assms(1), of k] by simp
  have "\<exists>e'. ack crc io k c e = (Inl err, e') \<and> refines crc now e' s" if "consumer_id li = c" "io_fails io (wal (inner e)) err" for err
    using ack_fails [OF _ assms(2) that(2) l that(1)] assms(1) unfolding refines_def by blast
  then show ?thesis using Some ack_nack_refused(2) [OF assms(1) _ Some] ack_sim [OF assms Some, of c] by (cases "consumer_id li = c") simp_all
qed

theorem ack_correct_witness:
  "(\<exists>e'. ack byte_sum AppendOk 1 7 demo_leased = (Inr (), e') \<and> refines byte_sum 10 e' (spec_finish 1 demo_spec_leased)) \<and>
   ack byte_sum AppendOk 1 8 demo_leased = (Inl other_consumer_error, demo_leased) \<and>
   ack byte_sum AppendOk 2 7 demo_leased = (Inl not_leased_error, demo_leased)"
  using ack_correct [OF demo_leased(3,2), where k = 1 and io = AppendOk and c = 7] ack_correct [OF demo_leased(3,2), where k = 1 and io = AppendOk and c = 8]
    ack_correct [OF demo_leased(3,2), where k = 2 and io = AppendOk and c = 7]
  by (simp add: demo_spec_leased_def lease_info_def)

text \<open>
  C13. \<open>nack\<close> is refused like \<open>ack\<close>; the holder's \<open>nack\<close> makes the task ready again with
  one more retry, or ends it when that was the last one, and the callback is invoked exactly
  when the task is ready again. When the record cannot be written the lease stays.
\<close>

theorem nack_correct:
  assumes "refines crc now e s" "has_room e"
  shows "case s_leased s k of
      None \<Rightarrow> nack crc io k c e = (Inl not_leased_error, e)
    | Some li \<Rightarrow>
        if consumer_id li \<noteq> c then nack crc io k c e = (Inl other_consumer_error, e)
        else (\<exists>e'. nack crc AppendOk k c e = (Inr (), e') \<and>
            refines crc now e' (if lease_retries li + 1 < MAX_RETRIES
              then spec_retry k (lease_priority li) (lease_retries li + 1) s else spec_finish k s) \<and>
            callbacks e' = callbacks e + (if on_task_ready (inner e) \<and> lease_retries li + 1 < MAX_RETRIES then 1 else 0)) \<and>
          (\<forall>err. io_fails io (wal (inner e)) err \<longrightarrow> (\<exists>e'. nack crc io k c e = (Inl err, e') \<and> refines crc now e' s))"
proof (cases "s_leased s k")
  case None
  then show ?thesis using ack_nack_refused(1) [OF assms(1)] by simp
next
  case (Some li)
  have "spec_fail k li s = (if lease_retries li + 1 < MAX_RETRIES
      then spec_retry k (lease_priority li) (lease_retries li + 1) s else spec_finish k s)"
    by (simp add: spec_fail_def not_le [symmetric])
  then show ?thesis
    using Some ack_nack_refused(2) [OF assms(1) _ Some] nack_sim [OF assms Some, of c] nack_fails [OF assms Some, of c io]
    by (cases "consumer_id li = c") simp_all
qed

theorem nack_correct_witness:
  "(\<exists>e'. nack byte_sum AppendOk 1 7 demo_leased = (Inr (), e') \<and> refines byte_sum 10 e' (spec_retry 1 5 1 demo_spec_leased)) \<and>
   nack byte_sum AppendOk 1 8 demo_leased = (Inl other_consumer_error, demo_leased)"
  using nack_correct [OF demo_leased(3,2), where k = 1 and io = AppendOk and c = 7]
    nack_correct [OF demo_leased(3,2), where k = 1 and io = AppendOk and c = 8]
  by (auto simp: demo_spec_leased_def lease_info_def MAX_RETRIES_def)

text \<open>
  C14. A round of the expiration worker that no other operation disturbs ends exactly the leases
  whose time is over: such a task becomes ready with one more retry, or is gone when that was
  its last one; every other lease, ready task and payload stays, and the callback is invoked
  once per task that became ready.
\<close>

theorem expire_round_correct:
  assumes "refines crc now e s" "room_for (length (collect_expired now e)) e"
  shows "\<exists>s'. refines crc now (process_expired crc (\<lambda>_. AppendOk) (collect_expired now e) e) s' \<and>
    (\<forall>k. s_leased s' k = (case s_leased s k of None \<Rightarrow> None | Some li \<Rightarrow> if expire_timestamp li \<le> now then None else Some li)) \<and>
    (\<forall>k. s_payload s' k = (case s_leased s k of
        None \<Rightarrow> s_payload s k
      | Some li \<Rightarrow> if expire_timestamp li \<le> now \<and> lease_retries li + 1 \<ge> MAX_RETRIES then None else s_payload s k)) \<and>
    set (s_ready s') = set (s_ready s) \<union> {task_ref k (lease_priority li) (lease_retries li + 1) |k li.
        s_leased s k = Some li \<and> expire_timestamp li \<le> now \<and> lease_retries li + 1 < MAX_RETRIES} \<and>
    callbacks (process_expired crc (\<lambda>_. AppendOk) (collect_expired now e) e) = callbacks e +
      (if on_task_ready (inner e) then length (filter (\<lambda>(k, pr, n). n + 1 < MAX_RETRIES) (collect_expired now e)) else 0)"
proof -
  let ?ts = "collect_expired now e"
  note c = collect_expired_set [OF assms(1)]
  have "hm_ok (leased (inner e))" using assms(1) engine_invD(6) unfolding refines_def by blast
  then have ex: "expired_leases ?ts e" by (rule collect_expired_leases)
  obtain e' where e': "expire_loop crc (\<lambda>_. AppendOk) ?ts 0 e = (length (filter (\<lambda>(k, pr, n). n + 1 < MAX_RETRIES) ?ts), e')"
      "refines crc now e' (spec_expire ?ts s)" "on_task_ready (inner e') = on_task_ready (inner e)"
    using expire_loop_ok [OF assms(1) ex assms(2), of 0] by auto
  have cb: "callbacks e' = callbacks e" using expire_loop_callbacks [of crc "\<lambda>_. AppendOk" ?ts 0 e] by (simp add: e'(1))
  have r: "refines crc now (process_expired crc (\<lambda>_. AppendOk) (collect_expired now e) e) (spec_expire ?ts s)"
    using e'(1,2) assms(1) by (auto simp: process_expired_def)
  have "(k \<in> fst ` set ?ts) = (\<exists>li. s_leased s k = Some li \<and> expire_timestamp li \<le> now)" for k
    using c [of k] by force
  then have 1: "s_leased (spec_expire ?ts s) k =
      (case s_leased s k of None \<Rightarrow> None | Some li \<Rightarrow> if expire_timestamp li \<le> now then None else Some li)" for k
    by (auto simp: spec_expire_leased split: option.split)
  have "(k \<in> fst ` set (filter (\<lambda>(k, pr, n). n + 1 \<ge> MAX_RETRIES) ?ts)) =
      (\<exists>li. s_leased s k = Some li \<and> expire_timestamp li \<le> now \<and> lease_retries li + 1 \<ge> MAX_RETRIES)" for k
    using c [of k] by force
  then have 2: "s_payload (spec_expire ?ts s) k = (case s_leased s k of None \<Rightarrow> s_payload s k
      | Some li \<Rightarrow> if expire_timestamp li \<le> now \<and> lease_retries li + 1 \<ge> MAX_RETRIES then None else s_payload s k)" for k
    by (auto simp: spec_expire_payload split: option.split)
  have 3: "(\<lambda>(k, pr, n). task_ref k pr (n + 1)) ` set (filter (\<lambda>(k, pr, n). n + 1 < MAX_RETRIES) ?ts) =
      {task_ref k (lease_priority li) (lease_retries li + 1) |k li.
        s_leased s k = Some li \<and> expire_timestamp li \<le> now \<and> lease_retries li + 1 < MAX_RETRIES}"
    using c by (force simp: image_iff)
  show ?thesis
    using r 1 2 e'(1,3) cb unfolding 3 [symmetric]
    by (intro exI [of _ "spec_expire ?ts s"])
      (auto simp: spec_expire_ready process_expired_def notify_def)
qed

theorem expire_round_correct_witness:
  "\<exists>s'. refines byte_sum 50 (process_expired byte_sum (\<lambda>_. AppendOk) (collect_expired 50 demo_leased) demo_leased) s' \<and>
    s_leased s' 1 = None \<and> s_payload s' 1 = Some [1, 2]"
proof -
  have r: "refines byte_sum 50 demo_leased demo_spec_leased" by (rule refines_mono [OF demo_leased(3)]) simp
  have "fst ` set (collect_expired 50 demo_leased) \<subseteq> {1}"
    using collect_expired_set [OF r] by (auto simp: demo_spec_leased_def split: if_splits)
  moreover have "distinct (map fst (collect_expired 50 demo_leased))"
    using collect_expired_leases [of demo_leased 50] r engine_invD(6) unfolding refines_def expired_leases_def by blast
  ultimately have "length (collect_expired 50 demo_leased) \<le> 1"
    using card_mono [of "{1}" "fst ` set (collect_expired 50 demo_leased)"] distinct_card [of "map fst (collect_expired 50 demo_leased)"]
    by simp
  then have "room_for (length (collect_expired 50 demo_leased)) demo_leased" using demo_leased(5) by simp
  from expire_round_correct [OF r this] obtain s' where
    s': "refines byte_sum 50 (process_expired byte_sum (\<lambda>_. AppendOk) (collect_expired 50 demo_leased) demo_leased) s'"
      "\<forall>k. s_leased s' k = (case s_leased demo_spec_leased k of None \<Rightarrow> None | Some li \<Rightarrow> if expire_timestamp li \<le> 50 then None else Some li)"
      "\<forall>k. s_payload s' k = (case s_leased demo_spec_leased k of None \<Rightarrow> s_payload demo_spec_leased k
        | Some li \<Rightarrow> if expire_timestamp li \<le> 50 \<and> lease_retries li + 1 \<ge> MAX_RETRIES then None else s_payload demo_spec_leased k)"
    by blast
  have "s_leased s' 1 = None" "s_payload s' 1 = Some [1, 2]"
    using s'(2,3) by (simp_all add: demo_spec_leased_def lease_info_def MAX_RETRIES_def word_le_nat_alt)
  then show ?thesis using s'(1) by blast
qed

text \<open>
  C2. Restarting never fails and loses nothing: opening the directory of a running engine
  gives an engine whose ready tasks, in their order, leases and payloads are those before,
  except that the leases whose time is over are ready again with the retries they had.
\<close>

theorem restart_durable:
  assumes "refines crc t e s" "t \<le> now"
  shows "\<exists>e' s'. engine_open crc now (files e) = Inr e' \<and> spec_reopened now s s' \<and> refines crc now e' s'"
  by (rule restart_sim [OF assms])

theorem restart_durable_witness:
  "\<exists>e' s'. engine_open byte_sum 20 (files demo_leased) = Inr e' \<and> spec_reopened 20 demo_spec_leased s' \<and>
    refines byte_sum 20 e' s'"
  by (rule restart_durable [OF demo_leased(3)]) simp

text \<open>
  C3. A crash in the middle of writing any record, after any number of its bytes, costs at
  most that record: the next start succeeds and finds every task as it was before the
  interrupted operation.
\<close>

theorem crash_durable:
  assumes "refines crc t e s" "t \<le> now" "storable r" "has_room e" "n < length (encode crc r)"
  shows "\<exists>w fs e' s'. wal_append crc (WriteFails n err False) r (wal (inner e)) (files e) = (Inl err, w, fs) \<and>
    engine_open crc now fs = Inr e' \<and> spec_reopened now s s' \<and> refines crc now e' s'"
  by (rule crash_sim [OF assms])

theorem crash_durable_witness:
  "\<exists>w fs e' s'. wal_append byte_sum (WriteFails 5 (IoErr OtherKind ''io'') False) (new_record 1 Acked 5 [])
      (wal (inner demo_leased)) (files demo_leased) = (Inl (IoErr OtherKind ''io''), w, fs) \<and>
    engine_open byte_sum 20 fs = Inr e' \<and> spec_reopened 20 demo_spec_leased s' \<and> refines byte_sum 20 e' s'"
proof (rule crash_durable [OF demo_leased(3) _ _ demo_leased(2)])
  show "storable (new_record 1 Acked 5 [])" by (simp add: storable_def)
  show "5 < length (encode byte_sum (new_record 1 Acked 5 []))" by (simp add: frame_len_def HEADER_SIZE_def)
qed simp

text \<open>
  When the lease record cannot be written, \<open>pop_and_lease\<close> returns the error, but the
  task has left the ready queue and is not leased: no operation of this engine can reach it
  any more. It is not lost on disk: the next start finds it ready where it was.
\<close>

theorem pop_append_failure:
  assumes "refines crc now e s" "has_room e" "s_ready s = t # ts" "io_fails io (wal (inner e)) err"
  shows "\<exists>e'. pop_and_lease crc io now c ttl e = (Inl err, e') \<and> delivery (ready_queue (inner e')) = ts \<and>
    leased (inner e') = leased (inner e) \<and>
    (\<forall>later \<ge> now. \<exists>e'' s''. engine_open crc later (files e') = Inr e'' \<and> spec_reopened later s s'' \<and> refines crc later e'' s'')"
  by (rule pop_append_fails [OF assms])

theorem pop_append_failure_witness:
  "\<exists>e'. pop_and_lease byte_sum (WriteFails 0 (IoErr OtherKind ''io'') True) 0 7 30 demo_pushed = (Inl (IoErr OtherKind ''io''), e') \<and>
    delivery (ready_queue (inner e')) = []"
proof -
  have "s_ready demo_spec_pushed = [task_ref 1 5 0]" by (simp add: demo_spec_pushed_def)
  moreover have "io_fails (WriteFails 0 err True) (wal (inner demo_pushed)) err" for err by (simp add: io_fails_def)
  ultimately show ?thesis using pop_append_failure [OF demo_pushed(3,2)] by blast
qed

text \<open>
  C32. Whatever other threads do to the engine in between (compaction included),
  \<open>pop_and_lease\<close> has a result after at most five steps from the release of the lock: three
  reads of the log and two looks at the index.
\<close>

theorem pop_terminates:
  assumes "5 \<le> length interference"
  shows "\<exists>res e'. pop_interleaved crc (popped p) interference (pop_start p) e = (Finished res, e')"
proof -
  have "pop_left (pop_start p) \<le> 5" by (simp add: pop_start_def split: option.split)
  then have "pop_left (fst (pop_interleaved crc (popped p) interference (pop_start p) e)) = 0"
    using pop_interleaved_left [of crc "popped p" interference "pop_start p" e] assms by simp
  then show ?thesis unfolding pop_left_0 by (metis prod.collapse)
qed

theorem pop_terminates_witness:
  "\<exists>res e'. pop_interleaved byte_sum (task_ref 1 5 0) [clear_reader_cache, \<lambda>e. e, clear_payload_cache, \<lambda>e. e, \<lambda>e. e]
     (pop_start \<lparr>popped = task_ref 1 5 0, data_loc = (1, 0), cached_payload = None\<rparr>) demo_pushed = (Finished res, e')"
  using pop_terminates [of "[clear_reader_cache, \<lambda>e. e, clear_payload_cache, \<lambda>e. e, \<lambda>e. e]" byte_sum
      "\<lparr>popped = task_ref 1 5 0, data_loc = (1, 0), cached_payload = None\<rparr>" demo_pushed] by simp

text \<open>
  A task pushed to an idle queue survives a restart: the next consumer gets the pushed
  payload and priority under the id that \<open>push\<close> returned.
\<close>

theorem push_restart_pop:
  assumes "refines crc t e s" "s_ready s = []" "\<forall>k li. s_leased s k = Some li \<longrightarrow> now < expire_timestamp li" "t \<le> now"
    and "length p \<le> MAX_PAYLOAD_SIZE" "room_for 2 e" "next_id (inner e) \<noteq> - 1"
  shows "\<exists>e1 e2 e3. push crc AppendOk p pr e = (Inr (next_id (inner e)), e1) \<and> engine_open crc now (files e1) = Inr e2 \<and>
    pop_and_lease crc AppendOk now c ttl e2 = (Inr (Some (new_record (next_id (inner e)) Created pr p, 0)), e3)"
proof -
  let ?k = "next_id (inner e)"
  have room: "has_room e" using assms(6) room_for_has_room [where n = 1 and e = e] by simp
  obtain e1 where 1: "push crc AppendOk p pr e = (Inr ?k, e1)" "refines crc t e1 (spec_push ?k pr p s)"
    using push_sim [OF assms(1,5) room assms(7), of pr] by blast
  obtain e2 s' where 2: "engine_open crc now (files e1) = Inr e2" "spec_reopened now (spec_push ?k pr p s) s'" "refines crc now e2 s'"
    using restart_sim [OF 1(2) assms(4)] by blast
  have "active_segment_id (wal (inner e2)) = active_segment_id (wal (inner e1))" by (rule restart_active [OF 1(2) 2(1)])
  then have "has_room e2" using push_active [of crc AppendOk p pr e] assms(6) room_for_has_room [where n = 0 and e = e2] by (simp add: 1(1))
  moreover have "\<not> (case s_leased s j of None \<Rightarrow> False | Some li \<Rightarrow> expire_timestamp li \<le> now)" for j
    using assms(3) by (auto simp: not_le split: option.split)
  then have "s_ready s' = [task_ref ?k pr 0]" "s_payload s' ?k = Some p"
    using 2(2) by (simp_all add: spec_reopened_def spec_push_def assms(2))
  ultimately show ?thesis using pop_sim [OF 2(3), of "task_ref ?k pr 0" "[]" c ttl] 1(1) 2(1) by auto
qed

theorem push_restart_pop_witness:
  "\<exists>e1 e2 e3. push byte_sum AppendOk [1, 2] 5 demo_new = (Inr 1, e1) \<and> engine_open byte_sum 3 (files e1) = Inr e2 \<and>
    pop_and_lease byte_sum AppendOk 3 7 30 e2 = (Inr (Some (new_record 1 Created 5 [1, 2], 0)), e3)"
proof -
  have "length [1, 2 :: u8] \<le> MAX_PAYLOAD_SIZE" by (simp add: MAX_PAYLOAD_SIZE_def)
  then show ?thesis
    using push_restart_pop [OF demo_new(4), where now = 3 and p = "[1, 2]" and pr = 5 and c = 7 and ttl = 30]
    by (simp add: demo_new spec_init_def)
qed

text \<open>
  \<open>status\<close> reports the number of ready tasks and the number of leases.
\<close>

theorem status_counts:
  assumes "refines crc now e s"
  shows "status e = (length (s_ready s), card (dom (s_leased s)))"
proof -
  obtain log X where i: "engine_inv crc log X e" using assms unfolding refines_def by blast
  have "s_leased s = map_of (leased (inner e))"
    using refines_memory(2) [OF assms] by (auto simp: hm_get_def)
  then have "card (dom (s_leased s)) = length (leased (inner e))"
    using engine_invD(6) [OF i] by (simp add: dom_map_of_conv_image_fst hm_ok_def distinct_card flip: set_map)
  then show ?thesis
    using bq.size_list [OF engine_invD(4) [OF i]] refines_memory(1) [OF assms] by (simp add: status_def)
qed

theorem status_counts_witness: "status demo_leased = (0, 1) \<and> status demo_pushed = (1, 0)"
  using status_counts [OF demo_leased(3)] status_counts [OF demo_pushed(3)]
  by (simp add: demo_spec_leased_def demo_spec_pushed_def)

end
