(* ===== verification/Group_Commit.thy ===== *)
theory Group_Commit
  imports Nesso_Prelude
begin

text \<open>
  The group commit coordinator, \<open>src/src/storage/group_commit.rs\<close>. A section of \<open>sync\<close>
  that holds the mutex is one function on the coordinator's state; threads are program
  counters between these sections, and a run is any interleaving of their steps with writes
  to the files. Instants and durations are natural numbers, \<open>Condvar\<close> may wake a thread
  spuriously, and \<open>fsync\<close> of the operating system is a parameter: when it reports
  success, everything written to that file before the call is durable.
\<close>

section \<open>Definitions\<close>

datatype SyncMode = Standard | FullHardware

record GroupCommitConfig =
  batch_window :: nat
  max_batch_size :: nat
  idle_commit_threshold :: nat
  sync_mode :: SyncMode

text \<open>Durations in microseconds.\<close>

definition default_config :: GroupCommitConfig where
  "default_config = \<lparr>batch_window = 2000, max_batch_size = 64, idle_commit_threshold = 0, sync_mode = Standard\<rparr>"

text \<open>What the operating system reports for a call to \<open>fsync\<close> and to \<open>sync_data\<close>.\<close>

record os_sync =
  fsync_ret :: int
  last_os_error :: error_kind
  sync_data :: "error_kind + unit"

definition perform_sync :: "os_sync \<Rightarrow> SyncMode \<Rightarrow> error_kind + unit" where
  "perform_sync os mode =
     (case mode of
        Standard \<Rightarrow> if fsync_ret os = 0 then Inr () else Inl (last_os_error os)
      | FullHardware \<Rightarrow> sync_data os)"

record GroupCommitState =
  collecting_batch_id :: u64
  last_synced_batch_id :: u64
  waiters_in_collecting :: nat
  fsync_in_progress :: bool
  batch_start_time :: "nat option"
  last_arrival_time :: "nat option"
  last_error :: "error_kind option"
  force_flush :: bool

definition gc_new :: GroupCommitState where
  "gc_new = \<lparr>collecting_batch_id = 1, last_synced_batch_id = 0, waiters_in_collecting = 0, fsync_in_progress = False,
     batch_start_time = None, last_arrival_time = None, last_error = None, force_flush = False\<rparr>"

text \<open>The entry of \<open>sync\<close>: the caller joins the collecting batch.\<close>

definition gc_join :: "nat \<Rightarrow> GroupCommitState \<Rightarrow> u64 \<times> GroupCommitState" where
  "gc_join now st =
     (collecting_batch_id st,
      st\<lparr>waiters_in_collecting := waiters_in_collecting st + 1,
         batch_start_time := (case batch_start_time st of None \<Rightarrow> Some now | Some t \<Rightarrow> Some t),
         last_arrival_time := Some now\<rparr>)"

text \<open>
  One turn of the loop, up to the point where the mutex is released: return, become the
  committer, or wait with or without a timeout.
\<close>

datatype gc_action = Return "error_kind + unit" | Commit | WaitTimeout nat | Wait

definition elapsed :: "nat \<Rightarrow> nat option \<Rightarrow> nat" where
  "elapsed now t = (case t of None \<Rightarrow> 0 | Some t \<Rightarrow> now - t)"

definition gc_turn :: "GroupCommitConfig \<Rightarrow> nat \<Rightarrow> u64 \<Rightarrow> GroupCommitState \<Rightarrow> gc_action \<times> GroupCommitState" where
  "gc_turn options now my_batch st =
     (if last_synced_batch_id st \<ge> my_batch
      then (case last_error st of Some err_kind \<Rightarrow> (Return (Inl err_kind), st) | None \<Rightarrow> (Return (Inr ()), st))
      else if \<not> fsync_in_progress st \<and> my_batch = last_synced_batch_id st + 1
      then
       (let batch_full = waiters_in_collecting st \<ge> max_batch_size options;
            total_elapsed = elapsed now (batch_start_time st);
            timeout_expired = total_elapsed \<ge> batch_window options;
            idle_elapsed = elapsed now (last_arrival_time st);
            idle_expired = idle_elapsed \<ge> idle_commit_threshold options
        in if batch_full \<or> timeout_expired \<or> idle_expired \<or> force_flush st
           then (Commit, st\<lparr>fsync_in_progress := True, collecting_batch_id := collecting_batch_id st + 1,
                   waiters_in_collecting := 0, batch_start_time := None, last_arrival_time := None\<rparr>)
           else (WaitTimeout (min (idle_commit_threshold options - idle_elapsed) (batch_window options - total_elapsed)), st))
      else (Wait, st))"

text \<open>The section after the \<open>fsync\<close>.\<close>

definition gc_finish :: "u64 \<Rightarrow> error_kind + unit \<Rightarrow> GroupCommitState \<Rightarrow> GroupCommitState" where
  "gc_finish my_batch sync_res st =
     st\<lparr>fsync_in_progress := False, last_synced_batch_id := my_batch,
        last_error := (case sync_res of Inl e \<Rightarrow> Some e | Inr _ \<Rightarrow> None)\<rparr>"

definition gc_force :: "GroupCommitState \<Rightarrow> GroupCommitState" where
  "gc_force st = st\<lparr>force_flush := True\<rparr>"

definition synced_batches :: "GroupCommitState \<Rightarrow> u64" where
  "synced_batches st = last_synced_batch_id st"

section \<open>Threads\<close>

text \<open>
  A caller of \<open>sync\<close>, with its file and the amount of that file that was written when it
  called: outside; about to enter after setting \<open>force_flush\<close>; in \<open>wait_timeout\<close> until
  an instant; in \<open>wait\<close>; notified or timed out, and about to take the mutex; in \<open>fsync\<close>,
  with the amount of the file that was written when it started; after it, with its result;
  returned.
\<close>

datatype gc_pc =
    Outside
  | Forcing
  | AsleepUntil u64 nat nat nat
  | Asleep u64 nat nat
  | Awake u64 nat nat
  | Flushing u64 nat nat nat
  | Flushed u64 nat nat "error_kind + unit"
  | Returned nat nat "error_kind + unit"

record gc_world =
  gc_state :: GroupCommitState
  gc_threads :: "nat \<Rightarrow> gc_pc"
  written :: "nat \<Rightarrow> nat"
  durable :: "nat \<Rightarrow> nat"
  clock :: nat

definition gc_start :: gc_world where
  "gc_start = \<lparr>gc_state = gc_new, gc_threads = (\<lambda>_. Outside), written = (\<lambda>_. 0), durable = (\<lambda>_. 0), clock = 0\<rparr>"

text \<open>\<open>notify_all\<close>: every waiting thread can go on.\<close>

definition notify_all :: "(nat \<Rightarrow> gc_pc) \<Rightarrow> nat \<Rightarrow> gc_pc" where
  "notify_all ts i = (case ts i of AsleepUntil b f n t \<Rightarrow> Awake b f n | Asleep b f n \<Rightarrow> Awake b f n | pc \<Rightarrow> pc)"

text \<open>Where a thread is after a turn of its loop.\<close>

definition after_turn :: "nat \<Rightarrow> (nat \<Rightarrow> nat) \<Rightarrow> u64 \<Rightarrow> nat \<Rightarrow> nat \<Rightarrow> gc_action \<Rightarrow> gc_pc" where
  "after_turn now w b f n turn =
     (case turn of
        Return res \<Rightarrow> Returned f n res
      | Commit \<Rightarrow> Flushing b f n (w f)
      | WaitTimeout d \<Rightarrow> AsleepUntil b f n (now + d)
      | Wait \<Rightarrow> Asleep b f n)"

text \<open>
  The steps, for callers whose files are in \<open>F\<close>. A caller enters \<open>sync\<close> after its writes:
  the amount it wants durable is what the file holds then.
\<close>

definition gc_resume :: "GroupCommitConfig \<Rightarrow> nat \<Rightarrow> nat \<Rightarrow> u64 \<Rightarrow> nat \<Rightarrow> nat \<Rightarrow> gc_world \<Rightarrow> gc_world" where
  "gc_resume options now i b f n w =
     (let (turn, st) = gc_turn options now b (gc_state w)
      in w\<lparr>gc_state := st, gc_threads := (gc_threads w)(i := after_turn now (written w) b f n turn), clock := now\<rparr>)"

definition gc_arrive :: "nat \<Rightarrow> nat \<Rightarrow> nat \<Rightarrow> gc_world \<Rightarrow> gc_world" where
  "gc_arrive now i f w =
     (let (my_batch, st) = gc_join now (gc_state w)
      in w\<lparr>gc_state := st, gc_threads := (notify_all (gc_threads w))(i := Awake my_batch f (written w f)), clock := now\<rparr>)"

text \<open>The caller keeps the mutex from its arrival to the end of its first turn.\<close>

definition gc_enter :: "GroupCommitConfig \<Rightarrow> nat \<Rightarrow> nat \<Rightarrow> nat \<Rightarrow> nat \<Rightarrow> gc_world \<Rightarrow> gc_world" where
  "gc_enter options now later i f w =
     gc_resume options later i (collecting_batch_id (gc_state w)) f (written w f) (gc_arrive now i f w)"

inductive gc_step :: "GroupCommitConfig \<Rightarrow> nat set \<Rightarrow> gc_world \<Rightarrow> gc_world \<Rightarrow> bool" for options F where
  gs_write: "n \<ge> written w f \<Longrightarrow> gc_step options F w (w\<lparr>written := (written w)(f := n)\<rparr>)"
| gs_force: "gc_threads w i = Outside \<Longrightarrow>
    gc_step options F w (w\<lparr>gc_state := gc_force (gc_state w), gc_threads := (notify_all (gc_threads w))(i := Forcing)\<rparr>)"
| gs_enter: "gc_threads w i \<in> {Outside, Forcing} \<Longrightarrow> f \<in> F \<Longrightarrow> clock w \<le> now \<Longrightarrow> now \<le> later \<Longrightarrow>
    gc_step options F w (gc_enter options now later i f w)"
| gs_timeout: "gc_threads w i = AsleepUntil b f n t \<Longrightarrow>
    gc_step options F w (w\<lparr>gc_threads := (gc_threads w)(i := Awake b f n)\<rparr>)"
| gs_spurious: "gc_threads w i = Asleep b f n \<Longrightarrow>
    gc_step options F w (w\<lparr>gc_threads := (gc_threads w)(i := Awake b f n)\<rparr>)"
| gs_resume: "gc_threads w i = Awake b f n \<Longrightarrow> clock w \<le> now \<Longrightarrow>
    gc_step options F w (gc_resume options now i b f n w)"
| gs_fsync: "gc_threads w i = Flushing b f n start \<Longrightarrow> res = perform_sync os (sync_mode options) \<Longrightarrow>
    start \<le> m \<Longrightarrow> m \<le> written w f \<Longrightarrow>
    gc_step options F w (w\<lparr>gc_threads := (gc_threads w)(i := Flushed b f n res),
      durable := (case res of Inl _ \<Rightarrow> durable w | Inr _ \<Rightarrow> (durable w)(f := max (durable w f) m))\<rparr>)"
| gs_finish: "gc_threads w i = Flushed b f n res \<Longrightarrow>
    gc_step options F w (w\<lparr>gc_state := gc_finish b res (gc_state w),
      gc_threads := (notify_all (gc_threads w))(i := Returned f n res)\<rparr>)"
| gs_again: "gc_threads w i = Returned f n res \<Longrightarrow>
    gc_step options F w (w\<lparr>gc_threads := (gc_threads w)(i := Outside)\<rparr>)"

inductive_cases gc_stepE: "gc_step options F w w'"

section \<open>The invariant of the protocol\<close>

text \<open>The batch, file and amount of a thread that waits for its batch, and of the committer.\<close>

definition waits :: "gc_pc \<Rightarrow> (u64 \<times> nat \<times> nat) option" where
  "waits pc = (case pc of AsleepUntil b f n t \<Rightarrow> Some (b, f, n) | Asleep b f n \<Rightarrow> Some (b, f, n) | Awake b f n \<Rightarrow> Some (b, f, n) | _ \<Rightarrow> None)"

definition commits :: "gc_pc \<Rightarrow> u64 option" where
  "commits pc = (case pc of Flushing b f n s \<Rightarrow> Some b | Flushed b f n res \<Rightarrow> Some b | _ \<Rightarrow> None)"

definition gc_inv :: "nat \<Rightarrow> gc_world \<Rightarrow> bool" where
  "gc_inv m w \<longleftrightarrow>
     (let st = gc_state w; ts = gc_threads w in
      unat (collecting_batch_id st) = unat (last_synced_batch_id st) + (if fsync_in_progress st then 2 else 1) \<and>
      unat (collecting_batch_id st) \<le> m + 1 \<and>
      (\<forall>i b f n. waits (ts i) = Some (b, f, n) \<longrightarrow> b \<le> collecting_batch_id st \<and>
         (b = collecting_batch_id st \<longrightarrow> batch_start_time st \<noteq> None)) \<and>
      (\<forall>i b. commits (ts i) = Some b \<longrightarrow> b = last_synced_batch_id st + 1) \<and>
      (fsync_in_progress st \<longleftrightarrow> (\<exists>i. commits (ts i) \<noteq> None)) \<and>
      (\<forall>i j. commits (ts i) \<noteq> None \<longrightarrow> commits (ts j) \<noteq> None \<longrightarrow> i = j) \<and>
      (\<forall>i b f n. ts i = Asleep b f n \<longrightarrow> fsync_in_progress st))"

lemma gc_invD:
  assumes "gc_inv m w"
  shows "unat (collecting_batch_id (gc_state w)) =
      unat (last_synced_batch_id (gc_state w)) + (if fsync_in_progress (gc_state w) then 2 else 1)"
    "unat (collecting_batch_id (gc_state w)) \<le> m + 1"
    "waits (gc_threads w i) = Some (b, f, n) \<Longrightarrow> b \<le> collecting_batch_id (gc_state w)"
    "waits (gc_threads w i) = Some (b, f, n) \<Longrightarrow> b = collecting_batch_id (gc_state w) \<Longrightarrow> batch_start_time (gc_state w) \<noteq> None"
    "commits (gc_threads w i) = Some b \<Longrightarrow> b = last_synced_batch_id (gc_state w) + 1"
    "fsync_in_progress (gc_state w) \<longleftrightarrow> (\<exists>i. commits (gc_threads w i) \<noteq> None)"
    "commits (gc_threads w i) \<noteq> None \<Longrightarrow> commits (gc_threads w j) \<noteq> None \<Longrightarrow> i = j"
    "gc_threads w i = Asleep b f n \<Longrightarrow> fsync_in_progress (gc_state w)"
  using assms unfolding gc_inv_def Let_def by blast+

lemma pc_simps [simp]:
  "waits (notify_all ts i) = waits (ts i)" "commits (notify_all ts i) = commits (ts i)" "notify_all ts i \<noteq> Asleep b f n"
  "waits Outside = None" "waits Forcing = None" "waits (AsleepUntil b f n t) = Some (b, f, n)" "waits (Asleep b f n) = Some (b, f, n)"
  "waits (Awake b f n) = Some (b, f, n)" "waits (Flushing b f n s) = None" "waits (Flushed b f n res) = None" "waits (Returned f n res) = None"
  "commits Outside = None" "commits Forcing = None" "commits (AsleepUntil b f n t) = None" "commits (Asleep b f n) = None"
  "commits (Awake b f n) = None" "commits (Flushing b f n s) = Some b" "commits (Flushed b f n res) = Some b" "commits (Returned f n res) = None"
  by (simp_all add: waits_def commits_def notify_all_def split: gc_pc.split)

text \<open>The four outcomes of a turn.\<close>

lemma gc_turn_cases [consumes 1]:
  assumes "gc_turn options now b st = (turn, st')"
  obtains (return) "b \<le> last_synced_batch_id st" "st' = st"
      "turn = Return (case last_error st of Some k \<Rightarrow> Inl k | None \<Rightarrow> Inr ())"
    | (commit) "last_synced_batch_id st < b" "\<not> fsync_in_progress st" "b = last_synced_batch_id st + 1" "turn = Commit"
      "st' = st\<lparr>fsync_in_progress := True, collecting_batch_id := collecting_batch_id st + 1,
         waiters_in_collecting := 0, batch_start_time := None, last_arrival_time := None\<rparr>"
    | (timed) d where "last_synced_batch_id st < b" "\<not> fsync_in_progress st" "b = last_synced_batch_id st + 1" "turn = WaitTimeout d" "st' = st"
    | (untimed) "last_synced_batch_id st < b" "fsync_in_progress st \<or> b \<noteq> last_synced_batch_id st + 1" "turn = Wait" "st' = st"
proof (cases "last_synced_batch_id st \<ge> b")
  case True
  then show ?thesis using assms return by (simp add: gc_turn_def split: option.splits)
next
  case False
  then have less: "last_synced_batch_id st < b" by simp
  show ?thesis
  proof (cases "\<not> fsync_in_progress st \<and> b = last_synced_batch_id st + 1")
    case True
    then show ?thesis
      using assms commit timed less unfolding gc_turn_def Let_def by (auto split: if_splits)
  next
    case False
    then show ?thesis using assms untimed less unfolding gc_turn_def by (simp split: if_splits)
  qed
qed

text \<open>Changes of threads that keep everything the invariant looks at.\<close>

lemma gc_invI:
  assumes "unat (collecting_batch_id (gc_state w)) =
      unat (last_synced_batch_id (gc_state w)) + (if fsync_in_progress (gc_state w) then 2 else 1)"
    and "unat (collecting_batch_id (gc_state w)) \<le> m + 1"
    and "\<And>i b f n. waits (gc_threads w i) = Some (b, f, n) \<Longrightarrow> b \<le> collecting_batch_id (gc_state w) \<and>
      (b = collecting_batch_id (gc_state w) \<longrightarrow> batch_start_time (gc_state w) \<noteq> None)"
    and "\<And>i b. commits (gc_threads w i) = Some b \<Longrightarrow> b = last_synced_batch_id (gc_state w) + 1"
    and "fsync_in_progress (gc_state w) \<longleftrightarrow> (\<exists>i. commits (gc_threads w i) \<noteq> None)"
    and "\<And>i j. commits (gc_threads w i) \<noteq> None \<Longrightarrow> commits (gc_threads w j) \<noteq> None \<Longrightarrow> i = j"
    and "\<And>i b f n. gc_threads w i = Asleep b f n \<Longrightarrow> fsync_in_progress (gc_state w)"
  shows "gc_inv m w"
  using assms unfolding gc_inv_def Let_def by blast

lemma gc_inv_threads:
  assumes "gc_inv m w"
    and "\<And>j. waits (gc_threads w' j) \<in> {None, waits (gc_threads w j)}" "\<And>j. commits (gc_threads w' j) = commits (gc_threads w j)"
    and "\<And>j b f n. gc_threads w' j = Asleep b f n \<Longrightarrow> fsync_in_progress (gc_state w)"
    and "collecting_batch_id (gc_state w') = collecting_batch_id (gc_state w)" "last_synced_batch_id (gc_state w') = last_synced_batch_id (gc_state w)"
    and "fsync_in_progress (gc_state w') = fsync_in_progress (gc_state w)" "batch_start_time (gc_state w') = batch_start_time (gc_state w)"
  shows "gc_inv m w'"
proof (rule gc_invI; unfold assms(3,5-8))
  note d = gc_invD [OF assms(1)]
  fix i b f n assume "waits (gc_threads w' i) = Some (b, f, n)"
  then have "waits (gc_threads w i) = Some (b, f, n)" using assms(2) [of i] by simp
  then show "b \<le> collecting_batch_id (gc_state w) \<and>
      (b = collecting_batch_id (gc_state w) \<longrightarrow> batch_start_time (gc_state w) \<noteq> None)"
    using d(3,4) by blast
next
  show "fsync_in_progress (gc_state w)" if "gc_threads w' i = Asleep b f n" for i b f n
    using assms(4) [OF that] .
qed (use gc_invD(1,2,5,6,7) [OF assms(1)] in blast)+

lemma gc_inv_mono: "gc_inv m w \<Longrightarrow> m \<le> m' \<Longrightarrow> gc_inv m' w"
  unfolding gc_inv_def Let_def by auto

lemma gc_inv_start: "gc_inv 0 gc_start"
  by (rule gc_invI) (simp_all add: gc_start_def gc_new_def)

lemma gc_inv_arrive:
  assumes "gc_inv m w" "gc_threads w i \<in> {Outside, Forcing}"
  shows "gc_inv m (gc_arrive now i f w)"
proof -
  note d = gc_invD [OF assms(1)]
  have idle: "waits (gc_threads w i) = None" "commits (gc_threads w i) = None" using assms(2) by auto
  let ?w = "gc_arrive now i f w"
  have ts: "commits (gc_threads ?w j) = commits (gc_threads w j)" for j
    using idle(2) by (simp add: gc_arrive_def gc_join_def)
  have st: "collecting_batch_id (gc_state ?w) = collecting_batch_id (gc_state w)"
      "last_synced_batch_id (gc_state ?w) = last_synced_batch_id (gc_state w)"
      "fsync_in_progress (gc_state ?w) = fsync_in_progress (gc_state w)" "batch_start_time (gc_state ?w) \<noteq> None"
    by (simp_all add: gc_arrive_def gc_join_def split: option.split)
  show ?thesis
  proof (rule gc_invI; unfold ts st(1-3))
    fix j b g n assume "waits (gc_threads ?w j) = Some (b, g, n)"
    then show "b \<le> collecting_batch_id (gc_state w) \<and> (b = collecting_batch_id (gc_state w) \<longrightarrow> batch_start_time (gc_state ?w) \<noteq> None)"
      using d(3) [of j] st(4) by (auto simp: gc_arrive_def gc_join_def split: if_splits)
  next
    show "fsync_in_progress (gc_state w)" if "gc_threads ?w j = Asleep b g n" for j b g n
      using that by (simp add: gc_arrive_def gc_join_def split: if_splits)
  qed (use d in blast)+
qed

text \<open>The bound on the number of steps keeps the batch counter from wrapping.\<close>

lemma unat_Suc_bound: "unat (k :: u64) \<le> m \<Longrightarrow> m < 2 ^ 64 - 1 \<Longrightarrow> unat (k + 1) = Suc (unat k)"
  by (subst unat_word_ariths) simp

lemma gc_inv_resume:
  assumes "gc_inv m w" "waits (gc_threads w i) = Some (b, f, n)" "Suc m < 2 ^ 64 - 1"
  shows "gc_inv (Suc m) (gc_resume options now i b f n w)"
proof -
  note d = gc_invD [OF assms(1)]
  obtain turn st where t: "gc_turn options now b (gc_state w) = (turn, st)" by fastforce
  let ?w = "gc_resume options now i b f n w"
  have w: "gc_state ?w = st" "gc_threads ?w = (gc_threads w)(i := after_turn now (written w) b f n turn)"
    by (simp_all add: gc_resume_def t)
  have idle: "commits (gc_threads w i) = None" using assms(2) by (auto simp: waits_def split: gc_pc.splits)
  from t show ?thesis
  proof (cases rule: gc_turn_cases)
    case commit
    have no: "commits (gc_threads w j) = None" for j using commit(2) d(6) by blast
    have ts: "commits (gc_threads ?w j) = (if j = i then Some b else None)" for j
      using no by (simp add: w(2) commit(4) after_turn_def)
    have up: "unat (collecting_batch_id (gc_state w) + 1) = Suc (unat (collecting_batch_id (gc_state w)))"
      using d(2) assms(3) by (intro unat_Suc_bound [of _ "m + 1"]) simp_all
    have st: "collecting_batch_id st = collecting_batch_id (gc_state w) + 1" "fsync_in_progress st"
        "last_synced_batch_id st = last_synced_batch_id (gc_state w)"
      by (simp_all add: commit(5))
    show ?thesis
    proof (rule gc_invI; unfold ts w(1) st(1,3))
      fix j b' g n' assume "waits (gc_threads ?w j) = Some (b', g, n')"
      then have "b' \<le> collecting_batch_id (gc_state w)"
        using d(3) [of j] by (auto simp: w(2) commit(4) after_turn_def split: if_splits)
      then have "b' < collecting_batch_id (gc_state w) + 1" using up by (simp add: word_less_nat_alt word_le_nat_alt)
      then show "b' \<le> collecting_batch_id (gc_state w) + 1 \<and>
          (b' = collecting_batch_id (gc_state w) + 1 \<longrightarrow> batch_start_time st \<noteq> None)" by auto
    qed (use d(1,2) commit(2,3) up st(2) in \<open>auto split: if_splits\<close>)
  next
    case untimed
    have "fsync_in_progress (gc_state w)"
    proof (rule ccontr)
      assume no: "\<not> fsync_in_progress (gc_state w)"
      have "unat b \<le> unat (last_synced_batch_id (gc_state w)) + 1" "unat (last_synced_batch_id (gc_state w)) < unat b"
        using d(1) d(3) [OF assms(2)] no untimed(1) by (simp_all add: word_le_nat_alt word_less_nat_alt)
      then have "unat b = unat (last_synced_batch_id (gc_state w) + 1)"
        using unat_Suc_bound [of "last_synced_batch_id (gc_state w)" "m + 1"] d(1,2) assms(3) no by simp
      then show False using no untimed(2) by (simp add: word_unat_eq_iff)
    qed
    then have "gc_inv m ?w"
      by (intro gc_inv_threads [OF assms(1)]) (use assms(2) idle in \<open>simp_all add: w untimed after_turn_def\<close>)
    then show ?thesis by (rule gc_inv_mono) simp
  next
    case return
    have "gc_inv m ?w"
      by (intro gc_inv_threads [OF assms(1)])
        (use assms(2) idle d(8) in \<open>auto simp: w return(2,3) after_turn_def split: if_splits\<close>)
    then show ?thesis by (rule gc_inv_mono) simp
  next
    case timed
    have "gc_inv m ?w"
      by (intro gc_inv_threads [OF assms(1)])
        (use assms(2) idle d(8) in \<open>auto simp: w timed(4,5) after_turn_def split: if_splits\<close>)
    then show ?thesis by (rule gc_inv_mono) simp
  qed
qed

lemma gc_inv_step:
  assumes "gc_step options F w w'" "gc_inv m w" "Suc m < 2 ^ 64 - 1"
  shows "gc_inv (Suc m) w'"
  using assms(1,2)
proof (induction rule: gc_step.induct)
  case (gs_enter w i f now later)
  have "waits (gc_threads (gc_arrive now i f w) i) = Some (collecting_batch_id (gc_state w), f, written w f)"
    by (simp add: gc_arrive_def gc_join_def)
  then show ?case
    using gc_inv_resume [OF gc_inv_arrive [OF gs_enter.prems gs_enter.hyps(1)] _ assms(3)] by (simp add: gc_enter_def)
next
  case (gs_resume w i b f n now)
  then show ?case using gc_inv_resume [OF _ _ assms(3)] by simp
next
  case (gs_finish w i b f n res)
  note d = gc_invD [OF gs_finish.prems]
  let ?w = "w\<lparr>gc_state := gc_finish b res (gc_state w), gc_threads := (notify_all (gc_threads w))(i := Returned f n res)\<rparr>"
  have c: "commits (gc_threads w i) = Some b" using gs_finish.hyps by simp
  then have b: "b = last_synced_batch_id (gc_state w) + 1" "fsync_in_progress (gc_state w)" using d(5,6) by blast+
  have other: "commits (gc_threads w j) = None" if "j \<noteq> i" for j
    using d(7) [of i j] c that by (cases "commits (gc_threads w j)") auto
  then have ts: "commits (gc_threads ?w j) = None" for j by simp
  have up: "unat (last_synced_batch_id (gc_state w) + 1) = Suc (unat (last_synced_batch_id (gc_state w)))"
    using d(1,2) b(2) assms(3) by (intro unat_Suc_bound [of _ "m + 1"]) simp_all
  show ?case
  proof (rule gc_invI)
    fix j b' g n' assume "waits (gc_threads ?w j) = Some (b', g, n')"
    then have "waits (gc_threads w j) = Some (b', g, n')" by (simp split: if_splits)
    then show "b' \<le> collecting_batch_id (gc_state ?w) \<and>
        (b' = collecting_batch_id (gc_state ?w) \<longrightarrow> batch_start_time (gc_state ?w) \<noteq> None)"
      using d(3,4) by (auto simp: gc_finish_def)
  qed (use ts d(1,2) b up in \<open>auto simp: gc_finish_def split: if_splits\<close>)
next
  case (gs_write n w f)
  show ?case
    by (rule gc_inv_mono [OF gc_inv_threads [OF gs_write.prems]])
      (use gs_write.hyps gc_invD(8) [OF gs_write.prems] in \<open>auto simp: gc_force_def split: if_splits\<close>)
next
  case (gs_force w i)
  show ?case
    by (rule gc_inv_mono [OF gc_inv_threads [OF gs_force.prems]])
      (use gs_force.hyps gc_invD(8) [OF gs_force.prems] in \<open>auto simp: gc_force_def split: if_splits\<close>)
next
  case (gs_timeout w i b f n t)
  show ?case
    by (rule gc_inv_mono [OF gc_inv_threads [OF gs_timeout.prems]])
      (use gs_timeout.hyps gc_invD(8) [OF gs_timeout.prems] in \<open>auto simp: gc_force_def split: if_splits\<close>)
next
  case (gs_spurious w i b f n)
  show ?case
    by (rule gc_inv_mono [OF gc_inv_threads [OF gs_spurious.prems]])
      (use gs_spurious.hyps gc_invD(8) [OF gs_spurious.prems] in \<open>auto simp: gc_force_def split: if_splits\<close>)
next
  case (gs_fsync w i b f n start res os k)
  show ?case
    by (rule gc_inv_mono [OF gc_inv_threads [OF gs_fsync.prems]])
      (use gs_fsync.hyps gc_invD(8) [OF gs_fsync.prems] in \<open>auto simp: gc_force_def split: if_splits\<close>)
next
  case (gs_again w i f n res)
  show ?case
    by (rule gc_inv_mono [OF gc_inv_threads [OF gs_again.prems]])
      (use gs_again.hyps gc_invD(8) [OF gs_again.prems] in \<open>auto simp: gc_force_def split: if_splits\<close>)
qed

lemma gc_inv_run:
  assumes "(gc_step options F ^^ m) gc_start w" "m < 2 ^ 64 - 1"
  shows "gc_inv m w"
  using assms
proof (induction m arbitrary: w)
  case 0
  then show ?case using gc_inv_start by simp
next
  case (Suc m)
  then show ?case using gc_inv_step by (auto elim!: relpowp_Suc_E)
qed

section \<open>Durability\<close>

text \<open>
  The callers of a batch that is being committed are covered by its \<open>fsync\<close> or have a file
  that is durable already, and so are those of the batches that are done unless the last
  \<open>fsync\<close> failed.
\<close>

definition gc_data :: "gc_world \<Rightarrow> bool" where
  "gc_data w \<longleftrightarrow>
     (\<forall>i b g n. waits (gc_threads w i) = Some (b, g, n) \<longrightarrow> n \<le> written w g \<and>
        (b \<le> last_synced_batch_id (gc_state w) \<longrightarrow> last_error (gc_state w) = None \<longrightarrow> n \<le> durable w g)) \<and>
     (\<forall>i b f n s. gc_threads w i = Flushing b f n s \<longrightarrow> n \<le> s \<and>
        (\<forall>j b' g n'. waits (gc_threads w j) = Some (b', g, n') \<longrightarrow> b' \<le> b \<longrightarrow> (g = f \<and> n' \<le> s) \<or> n' \<le> durable w g)) \<and>
     (\<forall>i b f n. gc_threads w i = Flushed b f n (Inr ()) \<longrightarrow> n \<le> durable w f \<and>
        (\<forall>j b' g n'. waits (gc_threads w j) = Some (b', g, n') \<longrightarrow> b' \<le> b \<longrightarrow> n' \<le> durable w g)) \<and>
     (\<forall>i g n. gc_threads w i = Returned g n (Inr ()) \<longrightarrow> n \<le> durable w g)"

lemma gc_dataI:
  assumes "\<And>i b g n. waits (gc_threads w i) = Some (b, g, n) \<Longrightarrow> n \<le> written w g \<and>
        (b \<le> last_synced_batch_id (gc_state w) \<longrightarrow> last_error (gc_state w) = None \<longrightarrow> n \<le> durable w g)"
    and "\<And>i b f n s. gc_threads w i = Flushing b f n s \<Longrightarrow> n \<le> s \<and>
        (\<forall>j b' g n'. waits (gc_threads w j) = Some (b', g, n') \<longrightarrow> b' \<le> b \<longrightarrow> (g = f \<and> n' \<le> s) \<or> n' \<le> durable w g)"
    and "\<And>i b f n. gc_threads w i = Flushed b f n (Inr ()) \<Longrightarrow> n \<le> durable w f \<and>
        (\<forall>j b' g n'. waits (gc_threads w j) = Some (b', g, n') \<longrightarrow> b' \<le> b \<longrightarrow> n' \<le> durable w g)"
    and "\<And>i g n. gc_threads w i = Returned g n (Inr ()) \<Longrightarrow> n \<le> durable w g"
  shows "gc_data w"
  using assms unfolding gc_data_def by blast

lemma gc_dataD:
  assumes "gc_data w"
  shows "waits (gc_threads w i) = Some (b, g, n) \<Longrightarrow> n \<le> written w g"
    "waits (gc_threads w i) = Some (b, g, n) \<Longrightarrow> b \<le> last_synced_batch_id (gc_state w) \<Longrightarrow> last_error (gc_state w) = None \<Longrightarrow> n \<le> durable w g"
    "gc_threads w i = Flushing b f n s \<Longrightarrow> n \<le> s"
    "gc_threads w i = Flushing b f n s \<Longrightarrow> waits (gc_threads w j) = Some (b', g, n') \<Longrightarrow> b' \<le> b \<Longrightarrow> (g = f \<and> n' \<le> s) \<or> n' \<le> durable w g"
    "gc_threads w i = Flushed b f n (Inr ()) \<Longrightarrow> n \<le> durable w f"
    "gc_threads w i = Flushed b f n (Inr ()) \<Longrightarrow> waits (gc_threads w j) = Some (b', g, n') \<Longrightarrow> b' \<le> b \<Longrightarrow> n' \<le> durable w g"
    "gc_threads w i = Returned g n (Inr ()) \<Longrightarrow> n \<le> durable w g"
  using assms unfolding gc_data_def by blast+

text \<open>Steps that add no waiting thread and no committer, and lose no durable byte.\<close>

lemma gc_data_threads:
  assumes "gc_data w"
    and "\<And>j x. waits (gc_threads w' j) = Some x \<Longrightarrow> waits (gc_threads w j) = Some x"
    and "\<And>j b g n s. gc_threads w' j = Flushing b g n s \<Longrightarrow> gc_threads w j = Flushing b g n s"
    and "\<And>j b g n res. gc_threads w' j = Flushed b g n res \<Longrightarrow> gc_threads w j = Flushed b g n res"
    and "\<And>j g n. gc_threads w' j = Returned g n (Inr ()) \<Longrightarrow> gc_threads w j = Returned g n (Inr ()) \<or> n \<le> durable w' g"
    and "\<And>g. written w g \<le> written w' g" "\<And>g. durable w g \<le> durable w' g"
    and "last_synced_batch_id (gc_state w') = last_synced_batch_id (gc_state w)" "last_error (gc_state w') = last_error (gc_state w)"
  shows "gc_data w'"
proof (rule gc_dataI; (unfold assms(8,9))?)
  note d = gc_dataD [OF assms(1)]
  fix i b g n assume "waits (gc_threads w' i) = Some (b, g, n)"
  then show "n \<le> written w' g \<and>
      (b \<le> last_synced_batch_id (gc_state w) \<longrightarrow> last_error (gc_state w) = None \<longrightarrow> n \<le> durable w' g)"
    using d(1,2) [OF assms(2)] assms(6,7) by (meson order_trans)
next
  fix i b f n s assume "gc_threads w' i = Flushing b f n s"
  then have fl: "gc_threads w i = Flushing b f n s" by (rule assms(3))
  show "n \<le> s \<and> (\<forall>j b' g n'. waits (gc_threads w' j) = Some (b', g, n') \<longrightarrow> b' \<le> b \<longrightarrow> (g = f \<and> n' \<le> s) \<or> n' \<le> durable w' g)"
    using gc_dataD(3) [OF assms(1) fl] gc_dataD(4) [OF assms(1) fl assms(2)] assms(7) by (meson order_trans)
next
  fix i b f n assume "gc_threads w' i = Flushed b f n (Inr ())"
  from assms(4) [OF this] show "n \<le> durable w' f \<and>
      (\<forall>j b' g n'. waits (gc_threads w' j) = Some (b', g, n') \<longrightarrow> b' \<le> b \<longrightarrow> n' \<le> durable w' g)"
    using gc_dataD(5,6) [OF assms(1)] assms(2,7) by (meson order_trans)
next
  fix i g n assume "gc_threads w' i = Returned g n (Inr ())"
  from assms(5) [OF this] show "n \<le> durable w' g" using gc_dataD(7) [OF assms(1)] assms(7) by (meson order_trans)
qed

lemma gc_data_arrive:
  assumes "gc_data w" "gc_inv m w" "m < 2 ^ 64 - 1" "gc_threads w i \<in> {Outside, Forcing}"
  shows "gc_data (gc_arrive now i f w)"
proof -
  note d = gc_dataD [OF assms(1)] and c = gc_invD [OF assms(2)]
  let ?w = "gc_arrive now i f w"
  let ?b = "collecting_batch_id (gc_state w)"
  have same: "written ?w = written w" "durable ?w = durable w" "last_synced_batch_id (gc_state ?w) = last_synced_batch_id (gc_state w)"
      "last_error (gc_state ?w) = last_error (gc_state w)"
    by (simp_all add: gc_arrive_def gc_join_def)
  have wt: "waits (gc_threads ?w j) = (if j = i then Some (?b, f, written w f) else waits (gc_threads w j))" for j
    by (simp add: gc_arrive_def gc_join_def)
  have pcs: "gc_threads w j = pc" if "gc_threads ?w j = pc" "\<exists>b g n s res. pc \<in> {Flushing b g n s, Flushed b g n res, Returned g n res}" for j pc
    using that by (auto simp: gc_arrive_def gc_join_def notify_all_def split: if_splits gc_pc.splits)
  have above: "last_synced_batch_id (gc_state w) < ?b" using c(1) by (simp add: word_less_nat_alt)
  have above2: "b < ?b" if "commits (gc_threads w j) = Some b" for j b
  proof -
    have "b = last_synced_batch_id (gc_state w) + 1" "fsync_in_progress (gc_state w)" using c(5,6) that by blast+
    then show ?thesis
      using c(1,2) unat_Suc_bound [of "last_synced_batch_id (gc_state w)" "m"] assms(3) by (simp add: word_less_nat_alt)
  qed
  show ?thesis
  proof (rule gc_dataI; (unfold same)?)
    fix j b g n assume "waits (gc_threads ?w j) = Some (b, g, n)"
    then show "n \<le> written w g \<and>
        (b \<le> last_synced_batch_id (gc_state w) \<longrightarrow> last_error (gc_state w) = None \<longrightarrow> n \<le> durable w g)"
      using d(1,2) [of j] above by (auto simp: wt split: if_splits)
  next
    fix j b g n s assume "gc_threads ?w j = Flushing b g n s"
    then have "gc_threads w j = Flushing b g n s" using pcs by blast
    then show "n \<le> s \<and> (\<forall>j b' g' n'. waits (gc_threads ?w j) = Some (b', g', n') \<longrightarrow> b' \<le> b \<longrightarrow> (g' = g \<and> n' \<le> s) \<or> n' \<le> durable w g')"
      unfolding wt using d(3,4) above2 [of j b] by (auto split: if_splits)
  next
    fix j b g n assume "gc_threads ?w j = Flushed b g n (Inr ())"
    then have "gc_threads w j = Flushed b g n (Inr ())" using pcs by blast
    then show "n \<le> durable w g \<and>
        (\<forall>j b' g' n'. waits (gc_threads ?w j) = Some (b', g', n') \<longrightarrow> b' \<le> b \<longrightarrow> n' \<le> durable w g')"
      unfolding wt using d(5,6) above2 [of j b] by (auto split: if_splits)
  next
    fix j g n assume "gc_threads ?w j = Returned g n (Inr ())"
    then show "n \<le> durable w g" using pcs d(7) by blast
  qed
qed

text \<open>
  What a new committer has to guarantee: every waiting caller has its file, or nothing left
  to make durable.
\<close>

definition commit_covers :: "gc_world \<Rightarrow> gc_world \<Rightarrow> bool" where
  "commit_covers w w' \<longleftrightarrow>
     (\<forall>i b f n s. gc_threads w' i = Flushing b f n s \<longrightarrow> gc_threads w i \<noteq> Flushing b f n s \<longrightarrow>
       (\<forall>j b' g n'. waits (gc_threads w' j) = Some (b', g, n') \<longrightarrow> g = f \<or> n' \<le> durable w' g))"

lemma gc_data_resume:
  assumes "gc_data w" "gc_inv m w" "gc_threads w i = Awake b f n"
    and "commit_covers w0 (gc_resume options now i b f n w)" "waits (gc_threads w0 i) = None \<or> w0 = w" "commits (gc_threads w0 i) = None"
  shows "gc_data (gc_resume options now i b f n w)"
proof -
  note d = gc_dataD [OF assms(1)] and c = gc_invD [OF assms(2)]
  obtain turn st where t: "gc_turn options now b (gc_state w) = (turn, st)" by fastforce
  let ?w = "gc_resume options now i b f n w"
  have w: "gc_state ?w = st" "gc_threads ?w = (gc_threads w)(i := after_turn now (written w) b f n turn)"
      "written ?w = written w" "durable ?w = durable w"
    by (simp_all add: gc_resume_def t)
  have me: "waits (gc_threads w i) = Some (b, f, n)" by (simp add: assms(3))
  from t show ?thesis
  proof (cases rule: gc_turn_cases)
    case return
    show ?thesis
      by (rule gc_data_threads [OF assms(1)])
        (use d(2) [OF me return(1)] in \<open>auto simp: w return(2,3) after_turn_def split: if_splits option.splits\<close>)
  next
    case commit
    have no: "commits (gc_threads w j) = None" for j using commit(2) c(6) by blast
    have nf: "gc_threads w j \<noteq> Flushing b' g n' s" "gc_threads w j \<noteq> Flushed b' g n' res" for j b' g n' s res
      using no [of j] by auto
    have ts: "gc_threads ?w = (gc_threads w)(i := Flushing b f n (written w f))" by (simp add: w(2) commit(4) after_turn_def)
    have "gc_threads w0 i \<noteq> Flushing b f n (written w f)" using assms(6) by auto
    then have cover: "g = f \<or> n' \<le> durable w g" if "waits (gc_threads ?w j) = Some (b', g, n')" for j b' g n'
      using assms(4) that w(4) unfolding commit_covers_def ts by (metis fun_upd_same)
    have wt: "waits (gc_threads w j) = Some x" if "waits (gc_threads ?w j) = Some x" for j x
      using that by (simp add: ts split: if_splits)
    have st: "last_synced_batch_id st = last_synced_batch_id (gc_state w)" "last_error st = last_error (gc_state w)"
      by (simp_all add: commit(5))
    show ?thesis
    proof (rule gc_dataI; (unfold w(1,3,4) st)?)
      fix j b' g k assume "waits (gc_threads ?w j) = Some (b', g, k)"
      from wt [OF this] show "k \<le> written w g \<and>
          (b' \<le> last_synced_batch_id (gc_state w) \<longrightarrow> last_error (gc_state w) = None \<longrightarrow> k \<le> durable w g)"
        using d(1,2) by blast
    next
      fix j b' g k s assume "gc_threads ?w j = Flushing b' g k s"
      then have "g = f" "k = n" "s = written w f" using nf by (auto simp: ts split: if_splits)
      then show "k \<le> s \<and> (\<forall>j b'' g' n'. waits (gc_threads ?w j) = Some (b'', g', n') \<longrightarrow> b'' \<le> b' \<longrightarrow> (g' = g \<and> n' \<le> s) \<or> n' \<le> durable w g')"
        using d(1) [OF me] d(1) [OF wt] cover by blast
    next
      fix j b' g k assume "gc_threads ?w j = Flushed b' g k (Inr ())"
      then show "k \<le> durable w g \<and>
          (\<forall>j b'' g' n'. waits (gc_threads ?w j) = Some (b'', g', n') \<longrightarrow> b'' \<le> b' \<longrightarrow> n' \<le> durable w g')"
        using nf by (simp add: ts split: if_splits)
    next
      fix j g k assume "gc_threads ?w j = Returned g k (Inr ())"
      then show "k \<le> durable w g" using d(7) by (simp add: ts split: if_splits)
    qed
  next
    case timed
    show ?thesis
      by (rule gc_data_threads [OF assms(1)])
        (use me in \<open>auto simp: w timed(4,5) after_turn_def split: if_splits\<close>)
  next
    case untimed
    show ?thesis
      by (rule gc_data_threads [OF assms(1)])
        (use me in \<open>auto simp: w untimed(3,4) after_turn_def split: if_splits\<close>)
  qed
qed

lemma gc_data_fsync:
  assumes "gc_data w" "gc_inv m w" "gc_threads w i = Flushing b f n start" "start \<le> k"
  shows "gc_data (w\<lparr>gc_threads := (gc_threads w)(i := Flushed b f n res),
      durable := (case res of Inl _ \<Rightarrow> durable w | Inr _ \<Rightarrow> (durable w)(f := max (durable w f) k))\<rparr>)"
proof -
  note d = gc_dataD [OF assms(1)] and c = gc_invD [OF assms(2)]
  have only: "gc_threads w j \<noteq> Flushing b' g' n' s" "gc_threads w j \<noteq> Flushed b' g' n' r" if "j \<noteq> i" for j b' g' n' s r
    using c(7) [of j i] that assms(3) by auto
  let ?w = "w\<lparr>gc_threads := (gc_threads w)(i := Flushed b f n res),
      durable := (case res of Inl _ \<Rightarrow> durable w | Inr _ \<Rightarrow> (durable w)(f := max (durable w f) k))\<rparr>"
  have mono: "durable w h \<le> durable ?w h" for h by (simp split: sum.split)
  have cover: "start \<le> durable ?w f" if "res = Inr ()" using that assms(4) by simp
  have wt: "waits (gc_threads w j) = Some x" if "waits (gc_threads ?w j) = Some x" for j x
    using that by (simp split: if_splits)
  show ?thesis
  proof (rule gc_dataI)
    fix j b' g n' assume "waits (gc_threads ?w j) = Some (b', g, n')"
    note x = wt [OF this]
    have "n' \<le> durable ?w g" if "b' \<le> last_synced_batch_id (gc_state ?w)" "last_error (gc_state ?w) = None"
      using d(2) [OF x] that mono [of g] order_trans by simp
    then show "n' \<le> written ?w g \<and>
        (b' \<le> last_synced_batch_id (gc_state ?w) \<longrightarrow> last_error (gc_state ?w) = None \<longrightarrow> n' \<le> durable ?w g)"
      using d(1) [OF x] by simp
  next
    fix j b' g n' s assume "gc_threads ?w j = Flushing b' g n' s"
    then show "n' \<le> s \<and> (\<forall>j b'' g' n'. waits (gc_threads ?w j) = Some (b'', g', n') \<longrightarrow> b'' \<le> b' \<longrightarrow> (g' = g \<and> n' \<le> s) \<or> n' \<le> durable ?w g')"
      using only(1) by (simp split: if_splits)
  next
    fix j b' g n' assume a: "gc_threads ?w j = Flushed b' g n' (Inr ())"
    then have j: "j = i" using only(2) by (simp split: if_splits)
    then have e: "res = Inr ()" "g = f" "n' = n" "b' = b" using a by simp_all
    have "n'' \<le> durable ?w g''" if "waits (gc_threads ?w l) = Some (b'', g'', n'')" "b'' \<le> b" for l b'' g'' n''
      using d(4) [OF assms(3) wt [OF that(1)] that(2)] cover [OF e(1)] mono [of g''] by auto
    then show "n' \<le> durable ?w g \<and>
        (\<forall>j b'' g' n'. waits (gc_threads ?w j) = Some (b'', g', n') \<longrightarrow> b'' \<le> b' \<longrightarrow> n' \<le> durable ?w g')"
      using d(3) [OF assms(3)] cover [OF e(1)] e by (meson order_trans)
  next
    fix j g' n' assume "gc_threads ?w j = Returned g' n' (Inr ())"
    then have "n' \<le> durable w g'" using d(7) by (simp split: if_splits)
    then show "n' \<le> durable ?w g'" using mono order_trans by blast
  qed
qed

lemma gc_data_finish:
  assumes "gc_data w" "gc_inv m w" "gc_threads w i = Flushed b f n res"
  shows "gc_data (w\<lparr>gc_state := gc_finish b res (gc_state w), gc_threads := (notify_all (gc_threads w))(i := Returned f n res)\<rparr>)"
proof -
  note d = gc_dataD [OF assms(1)] and c = gc_invD [OF assms(2)]
  have only: "gc_threads w j \<noteq> Flushing b' g' n' s" "gc_threads w j \<noteq> Flushed b' g' n' r" if "j \<noteq> i" for j b' g' n' s r
    using c(7) [of j i] that assms(3) by auto
  let ?w = "w\<lparr>gc_state := gc_finish b res (gc_state w), gc_threads := (notify_all (gc_threads w))(i := Returned f n res)\<rparr>"
  have pcs: "notify_all ts j = Flushing b' g' n' s \<longleftrightarrow> ts j = Flushing b' g' n' s" "notify_all ts j = Flushed b' g' n' r \<longleftrightarrow> ts j = Flushed b' g' n' r"
      "notify_all ts j = Returned g' n' r \<longleftrightarrow> ts j = Returned g' n' r" for ts j b' g' n' s r
    by (simp_all add: notify_all_def split: gc_pc.split)
  show ?thesis
  proof (rule gc_dataI)
    fix j b' g n' assume "waits (gc_threads ?w j) = Some (b', g, n')"
    then have "waits (gc_threads w j) = Some (b', g, n')" by (simp split: if_splits)
    then show "n' \<le> written ?w g \<and>
        (b' \<le> last_synced_batch_id (gc_state ?w) \<longrightarrow> last_error (gc_state ?w) = None \<longrightarrow> n' \<le> durable ?w g)"
      using d(1) d(6) [of i b f n] assms(3) by (cases res) (auto simp: gc_finish_def)
  next
    fix j g' n' assume "gc_threads ?w j = Returned g' n' (Inr ())"
    then show "n' \<le> durable ?w g'" using d(5) [of i b f n] d(7) assms(3) by (auto simp: pcs split: if_splits)
  qed (use only in \<open>simp_all add: pcs split: if_splits\<close>)
qed

lemma gc_data_step:
  assumes "gc_step options F w w'" "gc_data w" "gc_inv m w" "m < 2 ^ 64 - 1" "commit_covers w w'"
  shows "gc_data w'"
  using assms(1-3,5)
proof (induction rule: gc_step.induct)
  case (gs_enter w i g now later)
  have "gc_threads (gc_arrive now i g w) i = Awake (collecting_batch_id (gc_state w)) g (written w g)"
    by (simp add: gc_arrive_def gc_join_def)
  moreover have "waits (gc_threads w i) = None" "commits (gc_threads w i) = None" using gs_enter.hyps(1) by auto
  ultimately show ?case
    using gc_data_resume [OF gc_data_arrive [OF gs_enter.prems(1,2) assms(4) gs_enter.hyps(1)] gc_inv_arrive [OF gs_enter.prems(2) gs_enter.hyps(1)]]
      gs_enter.prems(3) by (simp add: gc_enter_def)
next
  case (gs_resume w i b g n now)
  then show ?case using gc_data_resume [of w m i b g n w] by simp
next
  case (gs_fsync w i b g n start res os k)
  then show ?case using gc_data_fsync by blast
next
  case (gs_finish w i b g n res)
  then show ?case using gc_data_finish by blast
next
  case (gs_write n w g)
  show ?case by (rule gc_data_threads [OF gs_write.prems(1)]) (use gs_write.hyps in auto)
next
  case (gs_force w i)
  show ?case
    by (rule gc_data_threads [OF gs_force.prems(1)])
      (auto simp: gc_force_def notify_all_def split: if_splits gc_pc.splits)
next
  case (gs_timeout w i b g n t)
  show ?case by (rule gc_data_threads [OF gs_timeout.prems(1)]) (use gs_timeout.hyps in \<open>auto split: if_splits\<close>)
next
  case (gs_spurious w i b g n)
  show ?case by (rule gc_data_threads [OF gs_spurious.prems(1)]) (use gs_spurious.hyps in \<open>auto split: if_splits\<close>)
next
  case (gs_again w i g n res)
  show ?case by (rule gc_data_threads [OF gs_again.prems(1)]) (use gs_again.hyps in \<open>auto split: if_splits\<close>)
qed

lemma gc_data_start: "gc_data gc_start"
  by (rule gc_dataI) (simp_all add: gc_start_def)

text \<open>Callers only ever wait with, and commit, files they may sync.\<close>

definition pc_files :: "gc_pc \<Rightarrow> nat set" where
  "pc_files pc = (case pc of AsleepUntil b f n t \<Rightarrow> {f} | Asleep b f n \<Rightarrow> {f} | Awake b f n \<Rightarrow> {f} | Flushing b f n s \<Rightarrow> {f} | _ \<Rightarrow> {})"

lemma pc_files_simps [simp]:
  "pc_files (notify_all ts i) = pc_files (ts i)" "pc_files (Awake b f n) = {f}" "pc_files (Flushing b f n s) = {f}"
  "pc_files (AsleepUntil b f n t) = {f}" "pc_files (Asleep b f n) = {f}" "pc_files Outside = {}" "pc_files Forcing = {}"
  "pc_files (Flushed b f n res) = {}" "pc_files (Returned f n res) = {}"
  by (simp_all add: pc_files_def notify_all_def split: gc_pc.split)

lemma waits_pc_files: "waits pc = Some (b, f, n) \<Longrightarrow> f \<in> pc_files pc"
  by (simp add: waits_def pc_files_def split: gc_pc.splits)

definition gc_files :: "nat set \<Rightarrow> gc_world \<Rightarrow> bool" where
  "gc_files F w \<longleftrightarrow> (\<forall>i. pc_files (gc_threads w i) \<subseteq> F)"

lemma gc_files_step:
  assumes "gc_step options F w w'" "gc_files F w"
  shows "gc_files F w'"
proof -
  have turn: "gc_files F (gc_resume options now i b g n w)" if "gc_files F w" "g \<in> F" for now i b g n w
    using that by (auto simp: gc_files_def gc_resume_def after_turn_def split: prod.splits if_splits gc_action.splits)
  have arrive: "gc_files F (gc_arrive now i g w)" if "gc_files F w" "g \<in> F" for now i g w
    using that by (auto simp: gc_files_def gc_arrive_def gc_join_def split: if_splits)
  show ?thesis using assms
  proof (induction rule: gc_step.induct)
    case (gs_enter w i f now later)
    then show ?case unfolding gc_enter_def by (intro turn arrive) auto
  next
    case (gs_resume w i b f n now)
    then have "pc_files (Awake b f n) \<subseteq> F" unfolding gc_files_def by metis
    then show ?case using turn gs_resume by simp
  next
    case (gs_timeout w i b f n t)
    then have "pc_files (AsleepUntil b f n t) \<subseteq> F" unfolding gc_files_def by metis
    then show ?case using gs_timeout by (simp add: gc_files_def)
  next
    case (gs_spurious w i b f n)
    then have "pc_files (Asleep b f n) \<subseteq> F" unfolding gc_files_def by metis
    then show ?case using gs_spurious by (simp add: gc_files_def)
  qed (simp_all add: gc_files_def)
qed

lemma gc_data_run:
  assumes "(gc_step options {f} ^^ m) gc_start w" "m < 2 ^ 64 - 1"
  shows "gc_data w \<and> gc_files {f} w"
  using assms
proof (induction m arbitrary: w)
  case 0
  then show ?case using gc_data_start by (auto simp: gc_files_def gc_start_def)
next
  case (Suc m)
  then obtain w' where w': "(gc_step options {f} ^^ m) gc_start w'" "gc_step options {f} w' w" by (auto elim!: relpowp_Suc_E)
  have IH: "gc_data w'" "gc_files {f} w'" using Suc.IH [OF w'(1)] Suc.prems(2) by simp_all
  have files: "gc_files {f} w" by (rule gc_files_step [OF w'(2) IH(2)])
  have one: "g = f" if "g \<in> pc_files (gc_threads w i)" for g i using files that unfolding gc_files_def by blast
  have "commit_covers w' w" unfolding commit_covers_def using one waits_pc_files by (metis pc_files_simps(3) singletonI)
  moreover have "gc_inv m w'" using gc_inv_run [OF w'(1)] Suc.prems(2) by simp
  ultimately show ?case using gc_data_step [OF w'(2) IH(1)] files Suc.prems(2) by simp
qed

section \<open>A run with two files\<close>

text \<open>
  Caller 0 commits batch 1. Meanwhile caller 1 joins batch 2 with file 1, the log rotates,
  and caller 2 joins batch 2 with file 2. Caller 1 becomes the committer of batch 2.
\<close>

definition os_ok :: os_sync where
  "os_ok = \<lparr>fsync_ret = 0, last_os_error = OtherKind, sync_data = Inr ()\<rparr>"

definition rot1 :: gc_world where
  "rot1 = gc_enter default_config 0 0 0 1 (gc_start\<lparr>written := (written gc_start)(1 := 1)\<rparr>)"

definition rot2 :: gc_world where
  "rot2 = gc_enter default_config 0 0 1 1 rot1"

definition rot3 :: gc_world where
  "rot3 = gc_enter default_config 0 0 2 2 (rot2\<lparr>written := (written rot2)(2 := 1)\<rparr>)"

definition rot4 :: gc_world where
  "rot4 = rot3\<lparr>durable := (durable rot3)(1 := 1), gc_state := gc_finish 1 (Inr ()) (gc_state rot3),
     gc_threads := (notify_all ((gc_threads rot3)(0 := Flushed 1 1 1 (Inr ()))))(0 := Returned 1 1 (Inr ()))\<rparr>"

definition rot5 :: gc_world where
  "rot5 = gc_resume default_config 0 1 2 1 1 rot4"

definition rot6 :: gc_world where
  "rot6 = rot5\<lparr>durable := (durable rot5)(1 := 1), gc_state := gc_finish 2 (Inr ()) (gc_state rot5),
     gc_threads := (notify_all ((gc_threads rot5)(1 := Flushed 2 1 1 (Inr ()))))(1 := Returned 1 1 (Inr ()))\<rparr>"

definition rot7 :: gc_world where
  "rot7 = gc_resume default_config 0 2 2 2 1 rot6"

lemmas gc_eval = gc_enter_def gc_resume_def gc_arrive_def gc_join_def gc_turn_def after_turn_def notify_all_def
  gc_finish_def elapsed_def default_config_def gc_start_def gc_new_def

lemma rot1_eval:
  "gc_threads rot1 = (\<lambda>_. Outside)(0 := Flushing 1 1 1 1)" "written rot1 = (\<lambda>_. 0)(1 := 1)" "durable rot1 = (\<lambda>_. 0)" "clock rot1 = 0"
  "gc_state rot1 = gc_new\<lparr>collecting_batch_id := 2, fsync_in_progress := True\<rparr>"
  by (simp_all add: rot1_def gc_eval fun_eq_iff Let_def)

lemma rot2_eval:
  "gc_threads rot2 = (\<lambda>_. Outside)(0 := Flushing 1 1 1 1, 1 := Asleep 2 1 1)" "written rot2 = (\<lambda>_. 0)(1 := 1)"
  "durable rot2 = (\<lambda>_. 0)" "clock rot2 = 0"
  "gc_state rot2 = gc_new\<lparr>collecting_batch_id := 2, fsync_in_progress := True, waiters_in_collecting := 1,
     batch_start_time := Some 0, last_arrival_time := Some 0\<rparr>"
  by (simp_all add: rot2_def rot1_eval gc_eval fun_eq_iff Let_def)

lemma rot3_eval:
  "gc_threads rot3 = (\<lambda>_. Outside)(0 := Flushing 1 1 1 1, 1 := Awake 2 1 1, 2 := Asleep 2 2 1)"
  "written rot3 = (\<lambda>_. 0)(1 := 1, 2 := 1)" "durable rot3 = (\<lambda>_. 0)" "clock rot3 = 0"
  "gc_state rot3 = gc_new\<lparr>collecting_batch_id := 2, fsync_in_progress := True, waiters_in_collecting := 2,
     batch_start_time := Some 0, last_arrival_time := Some 0\<rparr>"
  by (simp_all add: rot3_def rot2_eval gc_eval fun_eq_iff Let_def)

lemma rot4_eval:
  "gc_threads rot4 = (\<lambda>_. Outside)(0 := Returned 1 1 (Inr ()), 1 := Awake 2 1 1, 2 := Awake 2 2 1)"
  "written rot4 = (\<lambda>_. 0)(1 := 1, 2 := 1)" "durable rot4 = (\<lambda>_. 0)(1 := 1)" "clock rot4 = 0"
  "gc_state rot4 = gc_new\<lparr>collecting_batch_id := 2, last_synced_batch_id := 1, waiters_in_collecting := 2,
     batch_start_time := Some 0, last_arrival_time := Some 0\<rparr>"
  by (simp_all add: rot4_def rot3_eval gc_eval fun_eq_iff Let_def)

lemma rot5_eval:
  "gc_threads rot5 = (\<lambda>_. Outside)(0 := Returned 1 1 (Inr ()), 1 := Flushing 2 1 1 1, 2 := Awake 2 2 1)"
  "written rot5 = (\<lambda>_. 0)(1 := 1, 2 := 1)" "durable rot5 = (\<lambda>_. 0)(1 := 1)" "clock rot5 = 0"
  "gc_state rot5 = gc_new\<lparr>collecting_batch_id := 3, last_synced_batch_id := 1, fsync_in_progress := True\<rparr>"
  by (simp_all add: rot5_def rot4_eval gc_eval fun_eq_iff Let_def word_le_nat_alt)

lemma rot6_eval:
  "gc_threads rot6 = (\<lambda>_. Outside)(0 := Returned 1 1 (Inr ()), 1 := Returned 1 1 (Inr ()), 2 := Awake 2 2 1)"
  "written rot6 = (\<lambda>_. 0)(1 := 1, 2 := 1)" "durable rot6 = (\<lambda>_. 0)(1 := 1)" "clock rot6 = 0"
  "gc_state rot6 = gc_new\<lparr>collecting_batch_id := 3, last_synced_batch_id := 2\<rparr>"
  by (simp_all add: rot6_def rot5_eval gc_eval fun_eq_iff Let_def)

lemma rot7_eval:
  "gc_threads rot7 2 = Returned 2 1 (Inr ())" "written rot7 2 = 1" "durable rot7 2 = 0"
  by (simp_all add: rot7_def rot6_eval gc_eval Let_def)

lemma fsync_and_finish:
  assumes "gc_threads w i = Flushing b f n s" "s \<le> m" "m \<le> written w f" "sync_mode options = Standard"
  shows "(gc_step options F)\<^sup>*\<^sup>* w (w\<lparr>durable := (durable w)(f := max (durable w f) m), gc_state := gc_finish b (Inr ()) (gc_state w),
    gc_threads := (notify_all ((gc_threads w)(i := Flushed b f n (Inr ()))))(i := Returned f n (Inr ()))\<rparr>)"
proof -
  let ?w = "w\<lparr>gc_threads := (gc_threads w)(i := Flushed b f n (Inr ())), durable := (durable w)(f := max (durable w f) m)\<rparr>"
  have "gc_step options F w ?w"
    using gs_fsync [OF assms(1) refl assms(2,3), of options F os_ok] assms(4) by (simp add: perform_sync_def os_ok_def)
  moreover have "gc_step options F ?w (?w\<lparr>gc_state := gc_finish b (Inr ()) (gc_state ?w),
      gc_threads := (notify_all (gc_threads ?w))(i := Returned f n (Inr ()))\<rparr>)"
    by (rule gs_finish) simp
  ultimately show ?thesis by (simp add: rtranclp.rtrancl_into_rtrancl [OF r_into_rtranclp])
qed

text \<open>Caller 0 alone: it writes, commits its batch and is confirmed.\<close>

definition solo :: gc_world where
  "solo = rot1\<lparr>durable := (durable rot1)(1 := 1), gc_state := gc_finish 1 (Inr ()) (gc_state rot1),
     gc_threads := (notify_all ((gc_threads rot1)(0 := Flushed 1 1 1 (Inr ()))))(0 := Returned 1 1 (Inr ()))\<rparr>"

lemma solo_eval: "gc_threads solo 0 = Returned 1 1 (Inr ())" "durable solo 1 = 1" "gc_state solo = gc_new\<lparr>collecting_batch_id := 2, last_synced_batch_id := 1\<rparr>"
  by (simp_all add: solo_def rot1_eval gc_eval)

lemma solo_run: "(gc_step default_config {1} ^^ 4) gc_start solo"
proof -
  let ?S = "gc_step default_config {1}"
  let ?w = "rot1\<lparr>gc_threads := (gc_threads rot1)(0 := Flushed 1 1 1 (Inr ())), durable := (durable rot1)(1 := 1)\<rparr>"
  have "?S gc_start (gc_start\<lparr>written := (written gc_start)(1 := 1)\<rparr>)" by (rule gs_write) (simp add: gc_start_def)
  moreover have "?S (gc_start\<lparr>written := (written gc_start)(1 := 1)\<rparr>) rot1"
    unfolding rot1_def by (rule gs_enter) (simp_all add: gc_start_def)
  moreover have "?S rot1 ?w"
    using gs_fsync [of rot1 0 1 1 1 1 "Inr ()" os_ok default_config 1 "{1}"]
    by (simp add: rot1_eval perform_sync_def os_ok_def default_config_def)
  moreover have "?S ?w solo"
    using gs_finish [of ?w 0 1 1 1 "Inr ()" default_config "{1}"] by (simp add: solo_def)
  ultimately have "(?S ^^ Suc (Suc (Suc (Suc 0)))) gc_start solo" by (meson relpowp_0_I relpowp_Suc_I)
  then show ?thesis by (simp add: numeral_eq_Suc)
qed

text \<open>Caller 1 arrives while caller 0 is in \<open>fsync\<close>.\<close>

lemma pair_run: "(gc_step default_config {1} ^^ 3) gc_start rot2"
proof -
  let ?S = "gc_step default_config {1}"
  have "?S gc_start (gc_start\<lparr>written := (written gc_start)(1 := 1)\<rparr>)" by (rule gs_write) (simp add: gc_start_def)
  moreover have "?S (gc_start\<lparr>written := (written gc_start)(1 := 1)\<rparr>) rot1"
    unfolding rot1_def by (rule gs_enter) (simp_all add: gc_start_def)
  moreover have "?S rot1 rot2" unfolding rot2_def by (rule gs_enter) (simp_all add: rot1_eval)
  ultimately have "(?S ^^ Suc (Suc (Suc 0))) gc_start rot2" by (meson relpowp_0_I relpowp_Suc_I)
  then show ?thesis by (simp add: numeral_eq_Suc)
qed

lemma rotation_run: "(gc_step default_config {1, 2})\<^sup>*\<^sup>* gc_start rot7"
proof -
  let ?S = "gc_step default_config {1, 2}"
  have mode: "sync_mode default_config = Standard" by (simp add: default_config_def)
  have "?S gc_start (gc_start\<lparr>written := (written gc_start)(1 := 1)\<rparr>)" by (rule gs_write) (simp add: gc_start_def)
  moreover have "?S (gc_start\<lparr>written := (written gc_start)(1 := 1)\<rparr>) rot1"
    unfolding rot1_def by (rule gs_enter) (simp_all add: gc_start_def)
  moreover have "?S rot1 rot2" unfolding rot2_def by (rule gs_enter) (simp_all add: rot1_eval)
  moreover have "?S rot2 (rot2\<lparr>written := (written rot2)(2 := 1)\<rparr>)" by (rule gs_write) (simp add: rot2_eval)
  moreover have "?S (rot2\<lparr>written := (written rot2)(2 := 1)\<rparr>) rot3"
    unfolding rot3_def by (rule gs_enter) (simp_all add: rot2_eval)
  moreover have "?S\<^sup>*\<^sup>* rot3 rot4"
    using fsync_and_finish [where w = rot3 and i = 0 and m = 1, OF _ _ _ mode] by (simp add: rot3_eval rot4_def)
  moreover have "?S rot4 rot5" unfolding rot5_def by (rule gs_resume) (simp_all add: rot4_eval)
  moreover have "?S\<^sup>*\<^sup>* rot5 rot6"
    using fsync_and_finish [where w = rot5 and i = 1 and m = 1, OF _ _ _ mode] by (simp add: rot5_eval rot6_def)
  moreover have "?S rot6 rot7" unfolding rot7_def by (rule gs_resume) (simp_all add: rot6_eval)
  ultimately show ?thesis by (meson rtranclp.rtrancl_into_rtrancl rtranclp_trans rtranclp.rtrancl_refl)
qed

section \<open>Properties\<close>

text \<open>
  C15. As long as all callers sync the same file, no confirmed write can be lost: whatever the
  interleaving, the failures of \<open>fsync\<close> and the spurious wake-ups, when \<open>sync\<close> returns
  \<open>Ok\<close> everything the caller's file held at the call is durable.
\<close>

theorem confirmed_sync_is_durable:
  assumes "(gc_step options {f} ^^ m) gc_start w" "m < 2 ^ 64 - 1" "gc_threads w i = Returned g n (Inr ())"
  shows "n \<le> durable w g"
  using gc_data_run [OF assms(1,2)] gc_dataD(7) assms(3) by blast

theorem confirmed_sync_is_durable_witness:
  "gc_threads solo 0 = Returned 1 1 (Inr ()) \<and> 1 \<le> durable solo 1"
  using confirmed_sync_is_durable [OF solo_run _ solo_eval(1)] solo_eval(1) by simp

text \<open>
  C16. Batches are committed strictly one after the other: at most one thread is in \<open>fsync\<close>,
  the coordinator knows when there is one, it commits the batch after the last synced one,
  and exactly that batch and the collecting one are open.
\<close>

theorem one_fsync_at_a_time:
  assumes "(gc_step options F ^^ m) gc_start w" "m < 2 ^ 64 - 1"
  shows "(\<forall>i j. commits (gc_threads w i) \<noteq> None \<longrightarrow> commits (gc_threads w j) \<noteq> None \<longrightarrow> i = j) \<and>
    (fsync_in_progress (gc_state w) \<longleftrightarrow> (\<exists>i. commits (gc_threads w i) = Some (synced_batches (gc_state w) + 1))) \<and>
    unat (collecting_batch_id (gc_state w)) =
      unat (synced_batches (gc_state w)) + (if fsync_in_progress (gc_state w) then 2 else 1)"
proof -
  note d = gc_invD [OF gc_inv_run [OF assms]]
  show ?thesis unfolding synced_batches_def using d(1,5,6,7) by fastforce
qed

theorem one_fsync_at_a_time_witness:
  "\<not> fsync_in_progress (gc_state solo) \<and> unat (collecting_batch_id (gc_state solo)) = unat (synced_batches (gc_state solo)) + 1"
  using one_fsync_at_a_time [OF solo_run] by (simp add: solo_eval gc_new_def)

text \<open>
  C17. No caller is left behind: a thread in the wait without a timeout is waiting for an
  \<open>fsync\<close> that is in progress, whose end wakes it; and a waiting thread that runs when no
  \<open>fsync\<close> is in progress and the batch window has passed does not wait again: it returns,
  or it commits its batch.
\<close>

theorem no_waiter_left_behind:
  assumes "(gc_step options F ^^ m) gc_start w" "m < 2 ^ 64 - 1"
  shows "(gc_threads w i = Asleep b f n \<longrightarrow> (\<exists>j. commits (gc_threads w j) \<noteq> None)) \<and>
    (waits (gc_threads w i) = Some (b, f, n) \<longrightarrow> \<not> fsync_in_progress (gc_state w) \<longrightarrow>
     elapsed now (batch_start_time (gc_state w)) \<ge> batch_window options \<longrightarrow>
     (\<exists>res. fst (gc_turn options now b (gc_state w)) = Return res) \<or> fst (gc_turn options now b (gc_state w)) = Commit)"
proof (intro conjI impI)
  note d = gc_invD [OF gc_inv_run [OF assms]]
  show "\<exists>j. commits (gc_threads w j) \<noteq> None" if "gc_threads w i = Asleep b f n" using d(6,8) that by blast
  assume w: "waits (gc_threads w i) = Some (b, f, n)" "\<not> fsync_in_progress (gc_state w)"
    "elapsed now (batch_start_time (gc_state w)) \<ge> batch_window options"
  let ?l = "last_synced_batch_id (gc_state w)"
  have "b = ?l + 1" if "?l < b"
  proof -
    have "unat b = unat ?l + 1"
      using that d(1) d(3) [OF w(1)] w(2) by (simp add: word_less_nat_alt word_le_nat_alt)
    then show ?thesis
      using unat_Suc_bound [of ?l "unat ?l"] d(1,2) w(2) assms(2) by (simp add: word_unat_eq_iff)
  qed
  then show "(\<exists>res. fst (gc_turn options now b (gc_state w)) = Return res) \<or> fst (gc_turn options now b (gc_state w)) = Commit"
    using w(2,3) by (auto simp: gc_turn_def Let_def not_le split: option.split)
qed

theorem no_waiter_left_behind_witness:
  "gc_threads rot2 1 = Asleep 2 1 1 \<and> (\<exists>j. commits (gc_threads rot2 j) \<noteq> None)"
  using no_waiter_left_behind [OF pair_run, of 1 2 1 1] by (simp add: rot2_eval)

text \<open>
  C36. With two files the guarantee fails. When the log rotates while a batch is collecting,
  its callers hold different files; the committer syncs only its own, and a caller of the
  same batch is confirmed although nothing it wrote to the new file is durable.
\<close>

theorem rotation_breaks_group_commit:
  "\<exists>w. (gc_step default_config {1, 2})\<^sup>*\<^sup>* gc_start w \<and> gc_threads w 2 = Returned 2 1 (Inr ()) \<and>
    written w 2 = 1 \<and> durable w 2 = 0"
  using rotation_run rot7_eval by blast

end
