(* ===== verification/Server.thy ===== *)
theory Server
  imports Engine_Correct Group_Commit "HOL-Library.List_Lexorder"
begin

text \<open>
  The HTTP server, \<open>src/src/server.rs\<close>: the table of open queues, the mapping of errors to
  responses and the request handlers. A handler is one function from the server's state to
  its answer and the state after it; the long poll of \<open>pop_handler\<close> is a recursion over what
  happens while it waits. Base64, JSON and routing belong to libraries: the codec is a
  parameter, requests and responses are their decoded values. What the operating system
  reports to one request (the clock, the outcome of its write to the log, of its
  \<open>sync\<close> and of creating a directory) is the argument \<open>env\<close>.
\<close>

section \<open>State\<close>

text \<open>
  A queue: its engine, and whether a call of \<open>notify_one\<close> is pending
  (\<open>tokio::sync::Notify\<close> keeps at most one permit).
\<close>

record QueueContext =
  ctx_engine :: Engine
  ctx_notify :: bool

text \<open>
  \<open>disk\<close> holds the queue directories; the contents of a directory whose queue is open are
  the \<open>files\<close> of its engine.
\<close>

record AppState =
  data_dir :: string
  queues :: "(string, QueueContext) hmap"
  cancelled :: bool
  group_commit_config :: GroupCommitConfig
  disk :: "(string, fsys) hmap"

definition app_new :: "string \<Rightarrow> GroupCommitConfig \<Rightarrow> (string, fsys) hmap \<Rightarrow> AppState" where
  "app_new dir config d =
     \<lparr>data_dir = dir, queues = [], cancelled = False, group_commit_config = config, disk = d\<rparr>"

text \<open>The libraries: the checksum, Base64, and the text of a \<open>JoinError\<close>.\<close>

record externals =
  x_crc :: "bytes \<Rightarrow> u32"
  b64_decode :: "string \<Rightarrow> string + bytes"
  b64_encode :: "bytes \<Rightarrow> string"
  join_text :: "string \<Rightarrow> string"

record request_env =
  r_now :: u64
  r_io :: append_io
  r_sync :: "unit result"
  r_mkdir :: "unit result"

section \<open>Responses\<close>

datatype ResponseBody =
    NoBody
  | TextBody string
  | ErrorBody string string
  | ShuttingDown
  | PushBody u64
  | PopBody u64 string u8 u8
  | StatusBody nat nat
  | QueueList "string list"
  | CompactBody bool

record Response =
  status_code :: nat
  resp_body :: ResponseBody

definition response :: "nat \<Rightarrow> ResponseBody \<Rightarrow> Response" where
  "response s b = \<lparr>status_code = s, resp_body = b\<rparr>"

datatype ApiError = Api_NotFound string | Api_Conflict string | Api_BadRequest string | Api_Internal string

definition into_response :: "ApiError \<Rightarrow> Response" where
  "into_response e =
     (let (status, err, message) =
        (case e of
           Api_NotFound msg \<Rightarrow> (404, ''not_found'', msg)
         | Api_Conflict msg \<Rightarrow> (409, ''conflict'', msg)
         | Api_BadRequest msg \<Rightarrow> (400, ''bad_request'', msg)
         | Api_Internal msg \<Rightarrow> (500, ''internal_error'', msg))
      in response status (ErrorBody err message))"

text \<open>
  \<open>From<io::Error>\<close>; a panic in \<open>spawn_blocking\<close> arrives as a \<open>JoinError\<close>.
\<close>

definition api_error :: "externals \<Rightarrow> rs_error \<Rightarrow> ApiError" where
  "api_error ext e =
     (case e of
        IoErr NotFound msg \<Rightarrow> Api_NotFound msg
      | IoErr PermissionDenied msg \<Rightarrow> Api_Conflict msg
      | IoErr _ msg \<Rightarrow> Api_Internal msg
      | Panicked msg \<Rightarrow> Api_Internal (join_text ext msg))"

type_synonym 'a api = "(ApiError + 'a) \<times> AppState"

section \<open>Queues\<close>

definition get_or_create_queue :: "externals \<Rightarrow> request_env \<Rightarrow> string \<Rightarrow> AppState \<Rightarrow> unit result \<times> AppState" where
  "get_or_create_queue ext env name st =
     (case hm_get (queues st) name of
        Some ctx \<Rightarrow> (Inr (), st)
      | None \<Rightarrow>
         (let queue_dir = path_join (data_dir st) name;
              (made, st) =
                (if hm_contains (disk st) queue_dir then (Inr (), st)
                 else case r_mkdir env of
                        Inl err \<Rightarrow> (Inl err, st)
                      | Inr _ \<Rightarrow> (Inr (), st\<lparr>disk := hm_insert queue_dir fs_empty (disk st)\<rparr>))
          in case made of
               Inl err \<Rightarrow> (Inl err, st)
             | Inr _ \<Rightarrow>
                (case hm_get (disk st) queue_dir of
                   None \<Rightarrow> (Inr (), st)
                 | Some fs \<Rightarrow>
                    (case engine_open (x_crc ext) (r_now env) fs of
                       Inl err \<Rightarrow> (Inl err, st)
                     | Inr engine \<Rightarrow>
                        (Inr (), st\<lparr>queues := hm_insert name
                           \<lparr>ctx_engine = set_on_task_ready engine, ctx_notify = False\<rparr> (queues st)\<rparr>)))))"

definition get_existing_queue :: "externals \<Rightarrow> request_env \<Rightarrow> string \<Rightarrow> AppState \<Rightarrow> unit api" where
  "get_existing_queue ext env name st =
     (case hm_get (queues st) name of
        Some ctx \<Rightarrow> (Inr (), st)
      | None \<Rightarrow>
          if \<not> hm_contains (disk st) (path_join (data_dir st) name)
          then (Inl (Api_NotFound (''Queue '' @ [CHR 0x27] @ name @ [CHR 0x27] @ '' not found'')), st)
          else case get_or_create_queue ext env name st of
                 (Inl err, st) \<Rightarrow> (Inl (api_error ext err), st)
               | (Inr _, st) \<Rightarrow> (Inr (), st))"

text \<open>
  An operation on the engine of an open queue, in \<open>spawn_blocking\<close>. The engine's callback
  is \<open>notify_one\<close>.
\<close>

definition on_engine :: "externals \<Rightarrow> string \<Rightarrow> (Engine \<Rightarrow> 'a result \<times> Engine) \<Rightarrow> AppState \<Rightarrow> 'a api" where
  "on_engine ext name f st =
     (case hm_get (queues st) name of
        None \<Rightarrow> (Inl (Api_Internal []), st)
      | Some ctx \<Rightarrow>
         (let (res, engine) = f (ctx_engine ctx);
              woken = ctx_notify ctx \<or> callbacks (ctx_engine ctx) < callbacks engine;
              st = st\<lparr>queues := hm_insert name \<lparr>ctx_engine = engine, ctx_notify = woken\<rparr> (queues st)\<rparr>
          in (case res of Inl err \<Rightarrow> Inl (api_error ext err) | Inr v \<Rightarrow> Inr v, st)))"

text \<open>\<open>if sync { engine.sync()?; }\<close> after an operation.\<close>

definition with_sync :: "request_env \<Rightarrow> bool \<Rightarrow> 'a result \<times> Engine \<Rightarrow> 'a result \<times> Engine" where
  "with_sync env sync r =
     (case r of
        (Inl err, e) \<Rightarrow> (Inl err, e)
      | (Inr v, e) \<Rightarrow> if sync then (case r_sync env of Inl err \<Rightarrow> (Inl err, e) | Inr _ \<Rightarrow> (Inr v, e)) else (Inr v, e))"

definition notify_one :: "string \<Rightarrow> AppState \<Rightarrow> AppState" where
  "notify_one name st =
     (case hm_get (queues st) name of
        None \<Rightarrow> st
      | Some ctx \<Rightarrow> st\<lparr>queues := hm_insert name (ctx\<lparr>ctx_notify := True\<rparr>) (queues st)\<rparr>)"

section \<open>Handlers\<close>

definition health_handler :: Response where
  "health_handler = response 200 (TextBody ''OK'')"

text \<open>
  \<open>found\<close> is how the closure in \<open>spawn_blocking\<close> ends: with the names of the directories in the
  data directory (none, if the directory cannot be read), or not at all, which arrives as a
  \<open>JoinError\<close>.
\<close>

definition list_queues_handler :: "externals \<Rightarrow> string + string list \<Rightarrow> ApiError + Response" where
  "list_queues_handler ext found =
     (case found of
        Inl panic \<Rightarrow> Inl (Api_Internal (join_text ext panic))
      | Inr names \<Rightarrow> Inr (response 200 (QueueList (sort_key (map (of_char :: char \<Rightarrow> nat)) names))))"

definition status_handler :: "externals \<Rightarrow> request_env \<Rightarrow> string \<Rightarrow> AppState \<Rightarrow> Response api" where
  "status_handler ext env name st =
     (case get_existing_queue ext env name st of
        (Inl err, st) \<Rightarrow> (Inl err, st)
      | (Inr _, st) \<Rightarrow>
         (case on_engine ext name (\<lambda>e. (Inr (status e), e)) st of
            (Inl err, st) \<Rightarrow> (Inl err, st)
          | (Inr (ready, active), st) \<Rightarrow> (Inr (response 200 (StatusBody ready active)), st)))"

definition compact_handler :: "externals \<Rightarrow> request_env \<Rightarrow> string \<Rightarrow> AppState \<Rightarrow> Response api" where
  "compact_handler ext env name st =
     (case get_existing_queue ext env name st of
        (Inl err, st) \<Rightarrow> (Inl err, st)
      | (Inr _, st) \<Rightarrow>
         (case on_engine ext name (compact (x_crc ext)) st of
            (Inl err, st) \<Rightarrow> (Inl err, st)
          | (Inr changed, st) \<Rightarrow> (Inr (response 200 (CompactBody changed)), st)))"

definition push_handler ::
  "externals \<Rightarrow> request_env \<Rightarrow> string \<Rightarrow> bool \<Rightarrow> string \<Rightarrow> u8 \<Rightarrow> AppState \<Rightarrow> Response api" where
  "push_handler ext env name sync payload priority st =
     (case get_or_create_queue ext env name st of
        (Inl err, st) \<Rightarrow> (Inl (api_error ext err), st)
      | (Inr _, st) \<Rightarrow>
         (case b64_decode ext payload of
            Inl msg \<Rightarrow> (Inl (Api_BadRequest (''Invalid base64 payload: '' @ msg)), st)
          | Inr payload_bytes \<Rightarrow>
             (case on_engine ext name (\<lambda>e. with_sync env sync (push (x_crc ext) (r_io env) payload_bytes priority e)) st of
                (Inl err, st) \<Rightarrow> (Inl err, st)
              | (Inr tid, st) \<Rightarrow> (Inr (response 201 (PushBody tid)), notify_one name st))))"

definition ack_handler :: "externals \<Rightarrow> request_env \<Rightarrow> string \<Rightarrow> bool \<Rightarrow> u64 \<Rightarrow> u32 \<Rightarrow> AppState \<Rightarrow> Response api" where
  "ack_handler ext env name sync tid consumer st =
     (case get_existing_queue ext env name st of
        (Inl err, st) \<Rightarrow> (Inl err, st)
      | (Inr _, st) \<Rightarrow>
         (case on_engine ext name (\<lambda>e. with_sync env sync (ack (x_crc ext) (r_io env) tid consumer e)) st of
            (Inl err, st) \<Rightarrow> (Inl err, st)
          | (Inr _, st) \<Rightarrow> (Inr (response 200 NoBody), st)))"

definition nack_handler :: "externals \<Rightarrow> request_env \<Rightarrow> string \<Rightarrow> bool \<Rightarrow> u64 \<Rightarrow> u32 \<Rightarrow> AppState \<Rightarrow> Response api" where
  "nack_handler ext env name sync tid consumer st =
     (case get_existing_queue ext env name st of
        (Inl err, st) \<Rightarrow> (Inl err, st)
      | (Inr _, st) \<Rightarrow>
         (case on_engine ext name (\<lambda>e. with_sync env sync (nack (x_crc ext) (r_io env) tid consumer e)) st of
            (Inl err, st) \<Rightarrow> (Inl err, st)
          | (Inr _, st) \<Rightarrow> (Inr (response 200 NoBody), notify_one name st)))"

subsection \<open>The long poll\<close>

definition shutting_down :: Response where
  "shutting_down = response 503 ShuttingDown"

text \<open>The attempt inside the loop.\<close>

definition pop_attempt ::
  "externals \<Rightarrow> request_env \<Rightarrow> string \<Rightarrow> bool \<Rightarrow> u32 \<Rightarrow> u64 \<Rightarrow> AppState \<Rightarrow> Response option api" where
  "pop_attempt ext env name sync consumer lease_secs st =
     (case on_engine ext name
         (\<lambda>e. case pop_and_lease (x_crc ext) (r_io env) (r_now env) consumer lease_secs e of
                (Inr (Some t), e) \<Rightarrow> with_sync env sync (Inr (Some t), e)
              | r \<Rightarrow> r) st of
        (Inl err, st) \<Rightarrow> (Inl err, st)
      | (Inr None, st) \<Rightarrow> (Inr None, st)
      | (Inr (Some (record, retries)), st) \<Rightarrow>
          (Inr (Some (response 200 (PopBody (rec_id record) (b64_encode ext (rec_payload record)) (rec_priority record) retries))), st))"

text \<open>
  What a waiting poll sees: other requests have changed the state, and one branch of the
  \<open>select!\<close> is looked at. \<open>w_instant\<close> is the clock of the deadline.
\<close>

datatype wake_branch = ByShutdown | ByNotify | BySleep

record wake =
  w_others :: "AppState \<Rightarrow> AppState"
  w_instant :: nat
  w_branch :: wake_branch
  w_env :: request_env

definition take_permit :: "string \<Rightarrow> AppState \<Rightarrow> bool \<times> AppState" where
  "take_permit name st =
     (case hm_get (queues st) name of
        None \<Rightarrow> (False, st)
      | Some ctx \<Rightarrow> (ctx_notify ctx, st\<lparr>queues := hm_insert name (ctx\<lparr>ctx_notify := False\<rparr>) (queues st)\<rparr>))"

text \<open>
  The loop from the head (\<open>waiting = False\<close>) and from the \<open>select!\<close>; it has an answer or
  is still waiting when there is no more to see (\<open>None\<close>).
\<close>

fun pop_loop ::
  "externals \<Rightarrow> string \<Rightarrow> bool \<Rightarrow> u32 \<Rightarrow> u64 \<Rightarrow> nat option \<Rightarrow> bool \<Rightarrow> nat \<Rightarrow> request_env \<Rightarrow> wake list \<Rightarrow> AppState \<Rightarrow>
   (ApiError + Response) option \<times> AppState" where
  "pop_loop ext name sync consumer lease_secs deadline waiting instant env ws st =
     (let (res, st) =
        (if waiting then (None, st)
         else if cancelled st then (Some (Inr shutting_down), st)
         else case pop_attempt ext env name sync consumer lease_secs st of
                (Inl err, st) \<Rightarrow> (Some (Inl err), st)
              | (Inr (Some resp), st) \<Rightarrow> (Some (Inr resp), st)
              | (Inr None, st) \<Rightarrow>
                 (case deadline of
                    None \<Rightarrow> (Some (Inr (response 204 NoBody)), st)
                  | Some dl \<Rightarrow> (if instant \<ge> dl then Some (Inr (response 204 NoBody)) else None, st)))
      in case res of
           Some answer \<Rightarrow> (Some answer, st)
         | None \<Rightarrow>
            (case ws of
               [] \<Rightarrow> (None, st)
             | w # ws \<Rightarrow>
                (let st = w_others w st
                 in case w_branch w of
                      ByShutdown \<Rightarrow>
                        if cancelled st then (Some (Inr shutting_down), st)
                        else pop_loop ext name sync consumer lease_secs deadline True (w_instant w) (w_env w) ws st
                    | ByNotify \<Rightarrow>
                       (case take_permit name st of
                          (True, st) \<Rightarrow> pop_loop ext name sync consumer lease_secs deadline False (w_instant w) (w_env w) ws st
                        | (False, _) \<Rightarrow> pop_loop ext name sync consumer lease_secs deadline True (w_instant w) (w_env w) ws st)
                    | BySleep \<Rightarrow>
                        if deadline \<noteq> None \<and> the deadline \<le> w_instant w then (Some (Inr (response 204 NoBody)), st)
                        else pop_loop ext name sync consumer lease_secs deadline True (w_instant w) (w_env w) ws st)))"

declare pop_loop.simps [simp del]

text \<open>
  The deadline \<open>Instant::now() + Duration::from_secs(wait_secs)\<close>, in microseconds. An
  \<open>Instant\<close> counts its seconds in a signed 64-bit integer; the addition panics when the sum
  does not fit (the outer \<open>None\<close>).
\<close>

definition INSTANT_LIMIT :: nat where
  "INSTANT_LIMIT = 2 ^ 63 * 1000000"

definition poll_deadline :: "nat \<Rightarrow> u64 \<Rightarrow> nat option option" where
  "poll_deadline instant wait_secs =
     (if wait_secs > 0
      then (let dl = instant + unat wait_secs * 1000000 in if dl < INSTANT_LIMIT then Some (Some dl) else None)
      else Some None)"

text \<open>
  The handler. \<open>None\<close>: the client has no answer, because the poll is still waiting or because
  its task panicked.
\<close>

definition pop_handler ::
  "externals \<Rightarrow> request_env \<Rightarrow> string \<Rightarrow> bool \<Rightarrow> u32 \<Rightarrow> u64 \<Rightarrow> u64 \<Rightarrow> nat \<Rightarrow> wake list \<Rightarrow> AppState \<Rightarrow>
   (ApiError + Response) option \<times> AppState" where
  "pop_handler ext env name sync consumer lease_secs wait_secs instant ws st =
     (if cancelled st then (Some (Inr shutting_down), st)
      else
       (let wait = (\<lambda>st. case poll_deadline instant wait_secs of
                      None \<Rightarrow> (None, st)
                    | Some deadline \<Rightarrow> pop_loop ext name sync consumer lease_secs deadline False instant env ws st)
        in case get_existing_queue ext env name st of
             (Inr _, st) \<Rightarrow> wait st
           | (Inl (Api_NotFound msg), st) \<Rightarrow>
               if wait_secs = 0 then (Some (Inr (response 204 NoBody)), st)
               else (case get_or_create_queue ext env name st of
                       (Inl err, st) \<Rightarrow> (Some (Inl (api_error ext err)), st)
                     | (Inr _, st) \<Rightarrow> wait st)
           | (Inl err, st) \<Rightarrow> (Some (Inl err), st)))"

text \<open>What the client receives.\<close>

definition answer :: "ApiError + Response \<Rightarrow> Response" where
  "answer r = (case r of Inl e \<Rightarrow> into_response e | Inr resp \<Rightarrow> resp)"

section \<open>Lemmas\<close>

lemma poll_deadline_simps [simp]:
  "poll_deadline instant 0 = Some None"
  "0 < wait \<Longrightarrow> instant + unat wait * 1000000 < INSTANT_LIMIT \<Longrightarrow>
     poll_deadline instant wait = Some (Some (instant + unat wait * 1000000))"
  by (simp_all add: poll_deadline_def)

lemma poll_deadline_fits:
  "instant + unat wait * 1000000 < INSTANT_LIMIT \<Longrightarrow> \<exists>dl. poll_deadline instant wait = Some dl"
  by (simp add: poll_deadline_def Let_def)

lemma hm_insert_same: "hm_get m k = Some v \<Longrightarrow> hm_insert k v m = m"
  by (induction m) (auto simp: hm_insert_def hm_get_def split: if_splits)

lemma open_queue [simp]:
  assumes "hm_get (queues st) name = Some ctx"
  shows "get_or_create_queue ext env name st = (Inr (), st)" "get_existing_queue ext env name st = (Inr (), st)"
  using assms by (simp_all add: get_or_create_queue_def get_existing_queue_def)

lemma on_engine_open:
  assumes "hm_get (queues st) name = Some ctx" "f (ctx_engine ctx) = (res, e)"
  shows "on_engine ext name f st =
    (case res of Inl err \<Rightarrow> Inl (api_error ext err) | Inr v \<Rightarrow> Inr v,
     st\<lparr>queues := hm_insert name \<lparr>ctx_engine = e, ctx_notify = ctx_notify ctx \<or> callbacks (ctx_engine ctx) < callbacks e\<rparr> (queues st)\<rparr>)"
  using assms by (simp add: on_engine_def)

lemma notify_one_open:
  "hm_get (queues st) name = Some ctx \<Longrightarrow> notify_one name st = st\<lparr>queues := hm_insert name (ctx\<lparr>ctx_notify := True\<rparr>) (queues st)\<rparr>"
  by (simp add: notify_one_def)

lemma with_sync_cases:
  "with_sync env sync (Inr v, e) = (if sync then (case r_sync env of Inl err \<Rightarrow> Inl err | Inr _ \<Rightarrow> Inr v) else Inr v, e)"
  "with_sync env sync (Inl err, e) = (Inl err, e)"
  by (simp_all add: with_sync_def split: sum.split)

lemma with_sync_ok: "r_sync env = Inr () \<Longrightarrow> with_sync env sync r = r"
  by (cases r; cases "fst r") (auto simp: with_sync_def)

text \<open>A push on an open queue.\<close>

lemma push_handler_open:
  assumes "hm_get (queues st) name = Some ctx" "b64_decode ext text = Inr p"
    and "push (x_crc ext) (r_io env) p pr (ctx_engine ctx) = (Inr k, e)"
    and "\<not> sync \<or> r_sync env = Inr ()"
  shows "push_handler ext env name sync text pr st =
    (Inr (response 201 (PushBody k)), st\<lparr>queues := hm_insert name \<lparr>ctx_engine = e, ctx_notify = True\<rparr> (queues st)\<rparr>)"
proof -
  have "with_sync env sync (Inr k, e) = (Inr k, e)" using assms(4) by (auto simp: with_sync_cases)
  then have "on_engine ext name (\<lambda>e. with_sync env sync (push (x_crc ext) (r_io env) p pr e)) st =
      (Inr k, st\<lparr>queues := hm_insert name \<lparr>ctx_engine = e, ctx_notify = ctx_notify ctx \<or> callbacks (ctx_engine ctx) < callbacks e\<rparr> (queues st)\<rparr>)"
    using on_engine_open [OF assms(1), of "\<lambda>e. with_sync env sync (push (x_crc ext) (r_io env) p pr e)" "Inr k" e] assms(3) by simp
  then show ?thesis by (simp add: push_handler_def open_queue [OF assms(1)] assms(2) notify_one_open)
qed

lemma push_handler_sync_fails:
  assumes "hm_get (queues st) name = Some ctx" "b64_decode ext text = Inr p"
    and "push (x_crc ext) (r_io env) p pr (ctx_engine ctx) = (Inr k, e)" "r_sync env = Inl err"
  shows "push_handler ext env name True text pr st =
    (Inl (api_error ext err), st\<lparr>queues := hm_insert name
       \<lparr>ctx_engine = e, ctx_notify = ctx_notify ctx \<or> callbacks (ctx_engine ctx) < callbacks e\<rparr> (queues st)\<rparr>)"
  using on_engine_open [OF assms(1), of "\<lambda>e. with_sync env True (push (x_crc ext) (r_io env) p pr e)" "Inl err" e] assms(3,4)
  by (simp add: push_handler_def open_queue [OF assms(1)] assms(2) with_sync_cases)

text \<open>An attempt to pop on an open queue.\<close>

lemma pop_attempt_open:
  assumes "hm_get (queues st) name = Some ctx" "refines (x_crc ext) (r_now env) (ctx_engine ctx) s"
    and "has_room (ctx_engine ctx)" "r_io env = AppendOk" "\<not> sync \<or> r_sync env = Inr ()"
  shows "s_ready s = [] \<Longrightarrow> pop_attempt ext env name sync c ttl st = (Inr None, st)"
    "s_ready s = t # ts \<Longrightarrow> s_payload s (task_id t) = Some p \<Longrightarrow>
     \<exists>st'. pop_attempt ext env name sync c ttl st =
       (Inr (Some (response 200 (PopBody (task_id t) (b64_encode ext p) (task_priority t) (task_retries t)))), st')"
proof -
  let ?f = "\<lambda>e. case pop_and_lease (x_crc ext) (r_io env) (r_now env) c ttl e of
      (Inr (Some t), e) \<Rightarrow> with_sync env sync (Inr (Some t), e) | r \<Rightarrow> r"
  {
    assume "s_ready s = []"
    then have "?f (ctx_engine ctx) = (Inr None, ctx_engine ctx)" using pop_empty_sim [OF assms(2)] by simp
    moreover have "st\<lparr>queues := hm_insert name \<lparr>ctx_engine = ctx_engine ctx, ctx_notify = ctx_notify ctx\<rparr> (queues st)\<rparr> = st"
    proof -
      have ctx: "\<lparr>ctx_engine = ctx_engine ctx, ctx_notify = ctx_notify ctx\<rparr> = ctx" by (rule QueueContext.equality) simp_all
      show ?thesis unfolding ctx hm_insert_same [OF assms(1)] by simp
    qed
    ultimately show "pop_attempt ext env name sync c ttl st = (Inr None, st)"
      unfolding pop_attempt_def using on_engine_open [OF assms(1), of ?f "Inr None"] by simp
  }
  assume r: "s_ready s = t # ts" "s_payload s (task_id t) = Some p"
  obtain e' where "pop_and_lease (x_crc ext) AppendOk (r_now env) c ttl (ctx_engine ctx) =
      (Inr (Some (new_record (task_id t) Created (task_priority t) p, task_retries t)), e')"
    using pop_sim [OF assms(2,3) r(1), of c ttl] r(2) by auto
  then have "?f (ctx_engine ctx) = (Inr (Some (new_record (task_id t) Created (task_priority t) p, task_retries t)), e')"
    using assms(4,5) by (auto simp: with_sync_cases)
  from on_engine_open [where f = ?f, OF assms(1) this]
  show "\<exists>st'. pop_attempt ext env name sync c ttl st =
       (Inr (Some (response 200 (PopBody (task_id t) (b64_encode ext p) (task_priority t) (task_retries t)))), st')"
    unfolding pop_attempt_def by simp
qed

subsection \<open>The loop\<close>

lemma pop_loop_answers:
  assumes "deadline = Some dl" "\<exists>w \<in> set ws. w_branch w = BySleep \<and> dl \<le> w_instant w"
  shows "\<exists>r. fst (pop_loop ext name sync c ttl deadline waiting instant env ws st) = Some r"
  using assms(2)
proof (induction ws arbitrary: waiting instant env st)
  case (Cons w ws)
  let ?loop = "\<lambda>b i en s. pop_loop ext name sync c ttl deadline b i en ws s"
  have IH: "\<exists>r. fst (?loop b i en s) = Some r" if "\<not> (w_branch w = BySleep \<and> dl \<le> w_instant w)" for b i en s
    using Cons.IH Cons.prems that by auto
  show ?case
  proof (cases "w_branch w")
    case ByNotify
    then have "\<exists>r. fst (?loop b i en s) = Some r" for b i en s using IH by simp
    then show ?thesis
      by (subst pop_loop.simps) (auto simp: Let_def ByNotify split: prod.split sum.split option.split bool.split)
  next
    case ByShutdown
    then have "\<exists>r. fst (?loop b i en s) = Some r" for b i en s using IH by simp
    then show ?thesis
      by (subst pop_loop.simps) (auto simp: Let_def ByShutdown split: prod.split sum.split option.split)
  next
    case BySleep
    then have "\<not> dl \<le> w_instant w \<Longrightarrow> \<exists>r. fst (?loop b i en s) = Some r" for b i en s using IH by simp
    then show ?thesis
      by (subst pop_loop.simps) (auto simp: Let_def BySleep assms(1) split: prod.split sum.split option.split)
  qed
qed simp

lemma pop_loop_no_wait:
  "\<exists>r. fst (pop_loop ext name sync c ttl None False instant env ws st) = Some r"
  by (subst pop_loop.simps) (auto simp: Let_def split: prod.split sum.split option.split)

lemma pop_loop_head:
  assumes "\<not> cancelled st" "pop_attempt ext env name sync c ttl st = (Inr (Some resp), st')"
  shows "pop_loop ext name sync c ttl deadline False instant env ws st = (Some (Inr resp), st')"
  using assms by (subst pop_loop.simps) simp

lemma pop_loop_idle:
  assumes "\<not> cancelled st" "pop_attempt ext env name sync c ttl st = (Inr None, st)" "instant < dl"
  shows "pop_loop ext name sync c ttl (Some dl) False instant env ws st =
    pop_loop ext name sync c ttl (Some dl) True instant env ws st"
  using assms by (subst (1 2) pop_loop.simps) simp

lemma pop_loop_notified:
  assumes "w_branch w = ByNotify" "take_permit name (w_others w st) = (True, st')"
  shows "pop_loop ext name sync c ttl dl True instant env (w # ws) st =
    pop_loop ext name sync c ttl dl False (w_instant w) (w_env w) ws st'"
  using assms by (subst pop_loop.simps) simp

subsection \<open>Acknowledging\<close>

lemma api_error_simps:
  "answer (Inl (api_error ext not_leased_error)) = response 404 (ErrorBody ''not_found'' ''Task not found or not leased'')"
  "answer (Inl (api_error ext other_consumer_error)) = response 409 (ErrorBody ''conflict'' ''Task leased to another consumer'')"
  "status_code (response s b) = s"
  by (simp_all add: answer_def api_error_def not_leased_error_def other_consumer_error_def into_response_def response_def)

lemma spec_lease_gone: "s_leased (spec_finish k s) k = None" "s_leased (spec_fail k li s) k = None"
  by (simp_all add: spec_fail_def spec_finish_def spec_retry_def)

text \<open>Both handlers run one operation of the engine.\<close>

lemma handler_op:
  assumes "hm_get (queues st) name = Some ctx" "r_io env = AppendOk" "r_sync env = Inr ()"
    and "handler \<in> {ack_handler, nack_handler}" "handler ext env name sync k c st = (res, st')"
  shows "\<exists>op \<in> {ack, nack}.
    res = (case fst (op (x_crc ext) AppendOk k c (ctx_engine ctx)) of Inl err \<Rightarrow> Inl (api_error ext err) | Inr _ \<Rightarrow> Inr (response 200 NoBody)) \<and>
    (\<exists>ctx'. hm_get (queues st') name = Some ctx' \<and> ctx_engine ctx' = snd (op (x_crc ext) AppendOk k c (ctx_engine ctx)))"
proof -
  have on: "on_engine ext name (\<lambda>e. with_sync env sync (op (x_crc ext) (r_io env) k c e)) st =
      (case fst r of Inl err \<Rightarrow> Inl (api_error ext err) | Inr v \<Rightarrow> Inr v,
       st\<lparr>queues := hm_insert name \<lparr>ctx_engine = snd r, ctx_notify = ctx_notify ctx \<or> callbacks (ctx_engine ctx) < callbacks (snd r)\<rparr> (queues st)\<rparr>)"
    if "r = op (x_crc ext) AppendOk k c (ctx_engine ctx)" for op r
  proof (rule on_engine_open [OF assms(1)])
    show "with_sync env sync (op (x_crc ext) (r_io env) k c (ctx_engine ctx)) = (fst r, snd r)"
      using that assms(2) with_sync_ok [OF assms(3)] by simp
  qed
  from assms(4) show ?thesis
  proof (elim insertE emptyE)
    assume "handler = ack_handler"
    then show ?thesis
      using assms(5) on [OF refl, of ack] by (intro bexI [of _ ack])
        (auto simp: ack_handler_def open_queue [OF assms(1)] split: sum.splits)
  next
    assume "handler = nack_handler"
    then show ?thesis
      using assms(5) on [OF refl, of nack] by (intro bexI [of _ nack])
        (auto simp: nack_handler_def open_queue [OF assms(1)] notify_one_open split: sum.splits)
  qed
qed

subsection \<open>Other queues\<close>

lemma get_queue_others:
  assumes "other \<noteq> name"
  shows "get_or_create_queue ext env name st = (r, st') \<Longrightarrow> hm_get (queues st') other = hm_get (queues st) other"
    "get_existing_queue ext env name st = (r', st') \<Longrightarrow> hm_get (queues st') other = hm_get (queues st) other"
proof -
  show g: "get_or_create_queue ext env name st = (r, st') \<Longrightarrow> hm_get (queues st') other = hm_get (queues st) other" for r
    using assms by (auto simp: get_or_create_queue_def Let_def split: option.splits if_splits sum.splits)
  show "get_existing_queue ext env name st = (r', st') \<Longrightarrow> hm_get (queues st') other = hm_get (queues st) other"
    using g by (auto simp: get_existing_queue_def split: option.splits if_splits prod.splits sum.splits)
qed

lemma on_engine_others:
  "other \<noteq> name \<Longrightarrow> on_engine ext name f st = (r, st') \<Longrightarrow> hm_get (queues st') other = hm_get (queues st) other"
  by (auto simp: on_engine_def Let_def split: option.splits prod.splits)

lemma notify_one_others: "other \<noteq> name \<Longrightarrow> hm_get (queues (notify_one name st)) other = hm_get (queues st) other"
  by (simp add: notify_one_def split: option.split)

section \<open>A first server\<close>

text \<open>
  A codec that writes every byte as one character, and a server with one open queue: the
  states of the witnesses below.
\<close>

definition demo_ext :: externals where
  "demo_ext = \<lparr>x_crc = byte_sum, b64_decode = (\<lambda>s. Inr (map (\<lambda>c. of_nat (of_char c)) s)),
     b64_encode = map (\<lambda>b. char_of (unat b)), join_text = (\<lambda>s. s)\<rparr>"

definition demo_env :: "u64 \<Rightarrow> request_env" where
  "demo_env now = \<lparr>r_now = now, r_io = AppendOk, r_sync = Inr (), r_mkdir = Inr ()\<rparr>"

definition demo_app :: "Engine \<Rightarrow> AppState" where
  "demo_app e = (app_new ''d'' default_config [])\<lparr>queues := [(''q'', \<lparr>ctx_engine = e, ctx_notify = False\<rparr>)]\<rparr>"

lemma demo_codec: "b64_decode demo_ext (b64_encode demo_ext b) = Inr b"
proof -
  have "of_nat (of_char (char_of (unat x) :: char)) = x" for x :: u8
  proof -
    have "unat x < 2 ^ 8" using unsigned_less [of x] by simp
    then show ?thesis by (simp add: take_bit_nat_eq_self)
  qed
  then show ?thesis by (simp add: demo_ext_def comp_def)
qed

lemma demo_app:
  "hm_get (queues (demo_app e)) ''q'' = Some \<lparr>ctx_engine = e, ctx_notify = False\<rparr>" "\<not> cancelled (demo_app e)"
  by (simp_all add: demo_app_def app_new_def hm_get_def)

lemma demo_env: "r_io (demo_env t) = AppendOk" "r_sync (demo_env t) = Inr ()" "r_now (demo_env t) = t" "x_crc demo_ext = byte_sum"
  by (simp_all add: demo_env_def demo_ext_def)

section \<open>Properties\<close>

text \<open>
  \<open>POST /push\<close> on an open queue answers 201 with the id of the new task, which is then
  ready behind the tasks of its priority, and leaves a wake-up for a waiting consumer. When
  the requested \<open>sync\<close> fails the client gets the error although the task is in the queue.
\<close>

theorem push_handler_correct:
  assumes "hm_get (queues st) name = Some ctx" "refines (x_crc ext) (r_now env) (ctx_engine ctx) s"
    and "b64_decode ext text = Inr p" "length p \<le> MAX_PAYLOAD_SIZE" "has_room (ctx_engine ctx)"
    and "next_id (inner (ctx_engine ctx)) \<noteq> - 1" "r_io env = AppendOk"
  shows "\<exists>ctx' st'. push_handler ext env name sync text pr st =
      (if sync \<and> isl (r_sync env) then Inl (api_error ext (projl (r_sync env)))
       else Inr (response 201 (PushBody (next_id (inner (ctx_engine ctx))))), st') \<and>
    hm_get (queues st') name = Some ctx' \<and>
    refines (x_crc ext) (r_now env) (ctx_engine ctx') (spec_push (next_id (inner (ctx_engine ctx))) pr p s) \<and>
    (\<not> (sync \<and> isl (r_sync env)) \<longrightarrow> ctx_notify ctx')"
proof -
  let ?k = "next_id (inner (ctx_engine ctx))"
  obtain e where e: "push (x_crc ext) (r_io env) p pr (ctx_engine ctx) = (Inr ?k, e)"
      "refines (x_crc ext) (r_now env) e (spec_push ?k pr p s)"
    using push_sim [OF assms(2,4-6), of pr] assms(7) by auto
  show ?thesis
  proof (cases "sync \<and> isl (r_sync env)")
    case True
    then obtain err where "r_sync env = Inl err" "sync" by (auto simp: isl_def)
    then show ?thesis using push_handler_sync_fails [OF assms(1,3) e(1)] e(2) by simp
  next
    case False
    then have "\<not> sync \<or> r_sync env = Inr ()" by (cases "r_sync env") auto
    then show ?thesis using push_handler_open [OF assms(1,3) e(1)] e(2) False by auto
  qed
qed

theorem push_handler_correct_witness:
  "\<exists>ctx' st'. push_handler demo_ext (demo_env 0) ''q'' True (b64_encode demo_ext [1, 2]) 5 (demo_app demo_new) =
      (Inr (response 201 (PushBody 1)), st') \<and> hm_get (queues st') ''q'' = Some ctx' \<and>
    refines byte_sum 0 (ctx_engine ctx') (spec_push 1 5 [1, 2] spec_init) \<and> ctx_notify ctx'"
  using push_handler_correct [where st = "demo_app demo_new" and name = "''q''" and env = "demo_env 0" and s = spec_init and sync = True
      and pr = 5, OF demo_app(1) _ demo_codec, of "[1, 2]"]
  by (simp add: demo_new demo_env MAX_PAYLOAD_SIZE_def)

text \<open>
  C27. What a producer posts is what the next consumer of an idle queue gets: the same Base64
  text, the same priority and the id of the push, as long as the deadline of its poll is an
  instant that can be represented.
\<close>

theorem push_pop_over_http:
  assumes "\<And>b. b64_decode ext (b64_encode ext b) = Inr b"
    and "hm_get (queues st) name = Some ctx" "refines (x_crc ext) (r_now env) (ctx_engine ctx) s" "s_ready s = []"
    and "length p \<le> MAX_PAYLOAD_SIZE" "room_for 2 (ctx_engine ctx)" "next_id (inner (ctx_engine ctx)) \<noteq> - 1"
    and "r_io env = AppendOk" "\<not> sync \<or> r_sync env = Inr ()" "\<not> cancelled st"
    and "instant + unat wait * 1000000 < INSTANT_LIMIT"
  shows "\<exists>st1 st2. push_handler ext env name sync (b64_encode ext p) pr st =
      (Inr (response 201 (PushBody (next_id (inner (ctx_engine ctx))))), st1) \<and>
    pop_handler ext env name sync c ttl wait instant ws st1 =
      (Some (Inr (response 200 (PopBody (next_id (inner (ctx_engine ctx))) (b64_encode ext p) pr 0))), st2)"
proof -
  let ?k = "next_id (inner (ctx_engine ctx))"
  have room: "has_room (ctx_engine ctx)" using assms(6) room_for_has_room [where n = 1 and e = "ctx_engine ctx"] by simp
  obtain e where e: "push (x_crc ext) (r_io env) p pr (ctx_engine ctx) = (Inr ?k, e)"
      "refines (x_crc ext) (r_now env) e (spec_push ?k pr p s)"
    using push_sim [OF assms(3,5) room assms(7), of pr] assms(8) by auto
  define st1 where "st1 = st\<lparr>queues := hm_insert name \<lparr>ctx_engine = e, ctx_notify = True\<rparr> (queues st)\<rparr>"
  have 1: "push_handler ext env name sync (b64_encode ext p) pr st = (Inr (response 201 (PushBody ?k)), st1)"
    unfolding st1_def by (rule push_handler_open [OF assms(2,1) e(1) assms(9)])
  have q: "hm_get (queues st1) name = Some \<lparr>ctx_engine = e, ctx_notify = True\<rparr>" by (simp add: st1_def)
  have "has_room e"
    using push_active [of "x_crc ext" "r_io env" p pr "ctx_engine ctx"] assms(6) room_for_has_room [where n = 0 and e = e]
    by (simp add: e(1))
  then obtain st2 where 2: "pop_attempt ext env name sync c ttl st1 =
      (Inr (Some (response 200 (PopBody ?k (b64_encode ext p) pr 0))), st2)"
    using pop_attempt_open(2) [OF q, of ext env "spec_push ?k pr p s" sync "task_ref ?k pr 0" "[]" p c ttl] e(2) assms(4,8,9)
    by (auto simp: spec_push_def)
  have "\<not> cancelled st1" using assms(10) by (simp add: st1_def)
  then have "pop_handler ext env name sync c ttl wait instant ws st1 =
      (Some (Inr (response 200 (PopBody ?k (b64_encode ext p) pr 0))), st2)"
    using pop_loop_head [OF _ 2] poll_deadline_fits [OF assms(11)] by (auto simp: pop_handler_def open_queue [OF q])
  then show ?thesis using 1 by blast
qed

theorem push_pop_over_http_witness:
  "\<exists>st1 st2. push_handler demo_ext (demo_env 0) ''q'' True (b64_encode demo_ext [1, 2]) 5 (demo_app demo_new) =
      (Inr (response 201 (PushBody 1)), st1) \<and>
    pop_handler demo_ext (demo_env 0) ''q'' True 7 30 0 0 [] st1 =
      (Some (Inr (response 200 (PopBody 1 (b64_encode demo_ext [1, 2]) 5 0))), st2)"
proof -
  have "s_ready spec_init = []" "length [1, 2 :: u8] \<le> MAX_PAYLOAD_SIZE" by (simp_all add: spec_init_def MAX_PAYLOAD_SIZE_def)
  then show ?thesis
    using push_pop_over_http [where st = "demo_app demo_new" and name = "''q''" and env = "demo_env 0" and s = spec_init and sync = True
      and pr = 5 and p = "[1, 2]" and c = 7 and ttl = 30 and wait = 0 and instant = 0 and ws = "[]", OF demo_codec demo_app(1)]
    by (simp add: demo_new demo_env demo_app(2) INSTANT_LIMIT_def)
qed

text \<open>
  C28. A consumer that is already waiting on an empty queue does not miss a push: when the only
  other request is a push and the \<open>select!\<close> takes the notified branch before the deadline, the
  wake-up that the push left behind makes the poll try again, and it answers with the new task.
  (That another consumer may take the task first, and that the branch is looked at, are not part
  of the claim; the deadline has to be an instant that can be represented.)
\<close>

theorem waiting_poll_gets_pushed_task:
  assumes "hm_get (queues st) name = Some ctx" "refines (x_crc ext) (r_now env) (ctx_engine ctx) s" "s_ready s = []"
    and "b64_decode ext text = Inr p" "length p \<le> MAX_PAYLOAD_SIZE" "room_for 2 (ctx_engine ctx)"
    and "next_id (inner (ctx_engine ctx)) \<noteq> - 1" "r_io env = AppendOk" "r_sync env = Inr ()" "\<not> cancelled st" "0 < wait"
    and "instant + unat wait * 1000000 < INSTANT_LIMIT"
    and "w_branch w = ByNotify" "w_env w = env" "w_others w = (\<lambda>st. snd (push_handler ext env name sync' text pr st))"
  shows "\<exists>st'. pop_handler ext env name sync c ttl wait instant (w # ws) st =
    (Some (Inr (response 200 (PopBody (next_id (inner (ctx_engine ctx))) (b64_encode ext p) pr 0))), st')"
proof -
  let ?k = "next_id (inner (ctx_engine ctx))"
  have room: "has_room (ctx_engine ctx)" using assms(6) room_for_has_room [where n = 1 and e = "ctx_engine ctx"] by simp
  obtain e where e: "push (x_crc ext) (r_io env) p pr (ctx_engine ctx) = (Inr ?k, e)"
      "refines (x_crc ext) (r_now env) e (spec_push ?k pr p s)"
    using push_sim [OF assms(2,5) room assms(7), of pr] assms(8) by auto
  define st1 where "st1 = st\<lparr>queues := hm_insert name \<lparr>ctx_engine = e, ctx_notify = False\<rparr> (queues st)\<rparr>"
  have q: "hm_get (queues st1) name = Some \<lparr>ctx_engine = e, ctx_notify = False\<rparr>" "\<not> cancelled st1"
    using assms(10) by (simp_all add: st1_def)
  have "push_handler ext env name sync' text pr st =
      (Inr (response 201 (PushBody ?k)), st\<lparr>queues := hm_insert name \<lparr>ctx_engine = e, ctx_notify = True\<rparr> (queues st)\<rparr>)"
    using push_handler_open [OF assms(1,4) e(1)] assms(9) by simp
  then have permit: "take_permit name (w_others w st) = (True, st1)"
    by (simp add: assms(15) take_permit_def st1_def)
  have "has_room e"
    using push_active [of "x_crc ext" "r_io env" p pr "ctx_engine ctx"] assms(6) room_for_has_room [where n = 0 and e = e]
    by (simp add: e(1))
  then obtain st2 where pop: "pop_attempt ext env name sync c ttl st1 =
      (Inr (Some (response 200 (PopBody ?k (b64_encode ext p) pr 0))), st2)"
    using pop_attempt_open(2) [OF q(1), of ext env "spec_push ?k pr p s" sync "task_ref ?k pr 0" "[]" p c ttl] e(2) assms(3,8,9)
    by (auto simp: spec_push_def)
  let ?dl = "instant + unat wait * 1000000"
  have idle: "pop_attempt ext env name sync c ttl st = (Inr None, st)"
    using pop_attempt_open(1) [OF assms(1,2) room assms(8)] assms(3,9) by simp
  have dl: "instant < ?dl" using assms(11) by (simp add: word_less_nat_alt)
  have "pop_loop ext name sync c ttl (Some ?dl) False instant env (w # ws) st =
      (Some (Inr (response 200 (PopBody ?k (b64_encode ext p) pr 0))), st2)"
    unfolding pop_loop_idle [OF assms(10) idle dl] pop_loop_notified [OF assms(13) permit]
    using pop_loop_head [OF q(2) pop] assms(14) by simp
  then show ?thesis using assms(10-12) by (simp add: pop_handler_def open_queue [OF assms(1)])
qed

theorem waiting_poll_gets_pushed_task_witness:
  "\<exists>st'. pop_handler demo_ext (demo_env 0) ''q'' False 7 30 1 0
      [\<lparr>w_others = (\<lambda>st. snd (push_handler demo_ext (demo_env 0) ''q'' False (b64_encode demo_ext [1, 2]) 5 st)),
        w_instant = 5, w_branch = ByNotify, w_env = demo_env 0\<rparr>] (demo_app demo_new) =
    (Some (Inr (response 200 (PopBody 1 (b64_encode demo_ext [1, 2]) 5 0))), st')"
proof -
  have "s_ready spec_init = []" "length [1, 2 :: u8] \<le> MAX_PAYLOAD_SIZE" by (simp_all add: spec_init_def MAX_PAYLOAD_SIZE_def)
  then show ?thesis
    using waiting_poll_gets_pushed_task [where st = "demo_app demo_new" and name = "''q''" and ext = demo_ext and env = "demo_env 0"
      and s = spec_init and p = "[1, 2]" and pr = 5 and c = 7 and ttl = 30 and instant = 0 and ws = "[]" and sync = False and sync' = False
      and wait = 1 and w = "\<lparr>w_others = (\<lambda>st. snd (push_handler demo_ext (demo_env 0) ''q'' False (b64_encode demo_ext [1, 2]) 5 st)),
        w_instant = 5, w_branch = ByNotify, w_env = demo_env 0\<rparr>", OF demo_app(1) _ _ demo_codec]
    by (simp add: demo_new demo_env demo_app(2) INSTANT_LIMIT_def)
qed

text \<open>
  Every poll is answered: at once when the client does not want to wait, and otherwise, if its
  deadline can be represented, at the latest when that has passed, whatever other requests do
  in the meantime. A poll of an open queue whose deadline cannot be represented gets no answer.
\<close>

theorem poll_is_answered:
  "(wait = 0 \<or> instant + unat wait * 1000000 < INSTANT_LIMIT \<and>
      (\<exists>w \<in> set ws. w_branch w = BySleep \<and> instant + unat wait * 1000000 \<le> w_instant w) \<longrightarrow>
    (\<exists>r. fst (pop_handler ext env name sync c ttl wait instant ws st) = Some r)) \<and>
   (\<not> cancelled st \<and> hm_get (queues st) name = Some ctx \<and> wait \<noteq> 0 \<and> INSTANT_LIMIT \<le> instant + unat wait * 1000000 \<longrightarrow>
    fst (pop_handler ext env name sync c ttl wait instant ws st) = None)"
proof (intro conjI impI)
  assume a: "wait = 0 \<or> instant + unat wait * 1000000 < INSTANT_LIMIT \<and>
      (\<exists>w \<in> set ws. w_branch w = BySleep \<and> instant + unat wait * 1000000 \<le> w_instant w)"
  then obtain dl where dl: "poll_deadline instant wait = Some dl"
      "dl = None \<or> (\<exists>t. dl = Some t \<and> (\<exists>w \<in> set ws. w_branch w = BySleep \<and> t \<le> w_instant w))"
    by (cases "wait = 0") (auto simp: word_neq_0_conv)
  have "\<exists>r. fst (pop_loop ext name sync c ttl dl False instant env ws st) = Some r" for st
    using dl(2) pop_loop_answers [of dl] pop_loop_no_wait by metis
  then show "\<exists>r. fst (pop_handler ext env name sync c ttl wait instant ws st) = Some r"
    by (auto simp: pop_handler_def Let_def dl(1) split: prod.split sum.split ApiError.split)
next
  assume "\<not> cancelled st \<and> hm_get (queues st) name = Some ctx \<and> wait \<noteq> 0 \<and> INSTANT_LIMIT \<le> instant + unat wait * 1000000"
  then show "fst (pop_handler ext env name sync c ttl wait instant ws st) = None"
    by (simp add: pop_handler_def poll_deadline_def word_neq_0_conv)
qed

theorem poll_is_answered_witness:
  "\<exists>r. fst (pop_handler demo_ext (demo_env 0) ''q'' False 7 30 2 0
     [\<lparr>w_others = (\<lambda>st. st), w_instant = 3000000, w_branch = BySleep, w_env = demo_env 0\<rparr>] (demo_app demo_new)) = Some r"
  using poll_is_answered [where wait = 2 and instant = 0 and st = "demo_app demo_new" and name = "''q''"
      and ws = "[\<lparr>w_others = (\<lambda>st. st), w_instant = 3000000, w_branch = BySleep, w_env = demo_env 0\<rparr>]"]
  by (simp add: INSTANT_LIMIT_def)

text \<open>
  C29. \<open>POST /ack\<close> and \<open>POST /nack\<close> on an open queue answer 404 for a task that is not
  leased, 409 for one that another consumer holds, and 200 for the holder, after which the
  lease is gone. For a queue that does not exist the answer is 404.
\<close>

theorem ack_nack_statuses:
  assumes "hm_get (queues st) name = Some ctx" "refines (x_crc ext) (r_now env) (ctx_engine ctx) s" "has_room (ctx_engine ctx)"
    and "r_io env = AppendOk" "r_sync env = Inr ()" "handler \<in> {ack_handler, nack_handler}"
    and "handler ext env name sync k c st = (res, st')"
  shows "status_code (answer res) = (case s_leased s k of None \<Rightarrow> 404 | Some li \<Rightarrow> if consumer_id li \<noteq> c then 409 else 200) \<and>
    (status_code (answer res) = 200 \<longrightarrow>
      (\<exists>ctx'. hm_get (queues st') name = Some ctx' \<and> hm_get (leased (inner (ctx_engine ctx'))) k = None)) \<and>
    (hm_get (queues st) other = None \<and> \<not> hm_contains (disk st) (path_join (data_dir st) other) \<longrightarrow>
      status_code (answer (fst (handler ext env other sync k c st))) = 404)"
proof -
  obtain op where op: "op \<in> {ack, nack}"
      "res = (case fst (op (x_crc ext) AppendOk k c (ctx_engine ctx)) of Inl err \<Rightarrow> Inl (api_error ext err) | Inr _ \<Rightarrow> Inr (response 200 NoBody))"
      "\<exists>ctx'. hm_get (queues st') name = Some ctx' \<and> ctx_engine ctx' = snd (op (x_crc ext) AppendOk k c (ctx_engine ctx))"
    using handler_op [OF assms(1,4-7)] by blast
  let ?r = "op (x_crc ext) AppendOk k c (ctx_engine ctx)"
  have "status_code (answer res) = (case s_leased s k of None \<Rightarrow> 404 | Some li \<Rightarrow> if consumer_id li \<noteq> c then 409 else 200) \<and>
    (status_code (answer res) = 200 \<longrightarrow> hm_get (leased (inner (snd ?r))) k = None)"
  proof (cases "s_leased s k")
    case None
    then have "?r = (Inl not_leased_error, ctx_engine ctx)" using ack_nack_refused(1) [OF assms(2) op(1)] by simp
    then show ?thesis using None op(2) by (simp add: api_error_simps)
  next
    case (Some li)
    show ?thesis
    proof (cases "consumer_id li = c")
      case False
      then have "?r = (Inl other_consumer_error, ctx_engine ctx)" using ack_nack_refused(2) [OF assms(2) op(1) Some] by simp
      then show ?thesis using Some False op(2) by (simp add: api_error_simps)
    next
      case True
      obtain e' s' where e': "?r = (Inr (), e')" "refines (x_crc ext) (r_now env) e' s'" "s_leased s' k = None"
        using op(1) ack_sim [OF assms(2,3) Some True] nack_sim [OF assms(2,3) Some True] by (auto simp: spec_lease_gone)
      then show ?thesis using Some True op(2) refines_memory(2) [OF e'(2), of k] by (simp add: answer_def response_def)
    qed
  qed
  moreover have "status_code (answer (fst (handler ext env other sync k c st))) = 404"
    if "hm_get (queues st) other = None \<and> \<not> hm_contains (disk st) (path_join (data_dir st) other)"
    using assms(6) that by (auto simp: ack_handler_def nack_handler_def get_existing_queue_def answer_def into_response_def response_def)
  ultimately show ?thesis using op(3) by auto
qed

theorem ack_nack_statuses_witness:
  "status_code (answer (fst (ack_handler demo_ext (demo_env 10) ''q'' False 1 7 (demo_app demo_leased)))) = 200 \<and>
   status_code (answer (fst (nack_handler demo_ext (demo_env 10) ''q'' False 1 8 (demo_app demo_leased)))) = 409"
proof -
  have "refines (x_crc demo_ext) (r_now (demo_env 10)) (ctx_engine \<lparr>ctx_engine = demo_leased, ctx_notify = False\<rparr>) demo_spec_leased"
    by (simp add: demo_env demo_leased(3))
  note w = ack_nack_statuses [OF demo_app(1) this _ demo_env(1,2) _ prod.collapse [symmetric]]
  show ?thesis
    using w [where handler = ack_handler and sync = False and k = 1 and c = 7] w [where handler = nack_handler and sync = False and k = 1 and c = 8]
    by (simp add: demo_leased(2) demo_spec_leased_def lease_info_def)
qed

text \<open>
  Queues are isolated: a request on one queue leaves the engine and the pending wake-up
  of every other queue as they were.
\<close>

theorem queues_are_isolated:
  assumes "other \<noteq> name"
  shows "hm_get (queues (snd (push_handler ext env name sync text pr st))) other = hm_get (queues st) other \<and>
    hm_get (queues (snd (pop_attempt ext env name sync c ttl st))) other = hm_get (queues st) other \<and>
    hm_get (queues (snd (ack_handler ext env name sync k c st))) other = hm_get (queues st) other \<and>
    hm_get (queues (snd (nack_handler ext env name sync k c st))) other = hm_get (queues st) other \<and>
    hm_get (queues (snd (compact_handler ext env name st))) other = hm_get (queues st) other \<and>
    hm_get (queues (snd (status_handler ext env name st))) other = hm_get (queues st) other"
proof (intro conjI)
  note split = prod.split sum.split option.split and d = get_queue_others [OF assms] on_engine_others [OF assms]
  show "hm_get (queues (snd (push_handler ext env name sync text pr st))) other = hm_get (queues st) other"
    by (auto simp: push_handler_def notify_one_others [OF assms] split: split dest!: d)
  show "hm_get (queues (snd (pop_attempt ext env name sync c ttl st))) other = hm_get (queues st) other"
    by (auto simp: pop_attempt_def split: split dest!: d)
  show "hm_get (queues (snd (ack_handler ext env name sync k c st))) other = hm_get (queues st) other"
    by (auto simp: ack_handler_def split: split dest!: d)
  show "hm_get (queues (snd (nack_handler ext env name sync k c st))) other = hm_get (queues st) other"
    by (auto simp: nack_handler_def notify_one_others [OF assms] split: split dest!: d)
  show "hm_get (queues (snd (compact_handler ext env name st))) other = hm_get (queues st) other"
    by (auto simp: compact_handler_def split: split dest!: d)
  show "hm_get (queues (snd (status_handler ext env name st))) other = hm_get (queues st) other"
    by (auto simp: status_handler_def split: split dest!: d)
qed

theorem queues_are_isolated_witness:
  "hm_get (queues (snd (push_handler demo_ext (demo_env 0) ''p'' True [] 5 (demo_app demo_new)))) ''q'' =
   Some \<lparr>ctx_engine = demo_new, ctx_notify = False\<rparr>"
  using queues_are_isolated [of "''q''" "''p''" demo_ext "demo_env 0" True "[]" 5 "demo_app demo_new"] by (simp add: demo_app(1))

end
