(* ===== verification/Expiration_Worker.thy ===== *)
theory Expiration_Worker
  imports Engine_Correct
begin

text \<open>
  The life of the expiration worker, \<open>ExpirationWorker\<close> and
  \<open>Engine::start_expiration_thread\<close> in \<open>src/src/storage/engine.rs\<close>. The worker and
  the callers of \<open>stop\<close> (any number; \<open>Drop\<close> is one of them) are program counters
  between the sections that hold a mutex; clients may change the engine between any two
  steps. What the worker does to the engine in one round is \<open>collect_expired\<close> and
  \<open>process_expired\<close>.
\<close>

section \<open>State\<close>

text \<open>
  The worker: at the test of \<open>while\<close>; about to take \<open>shutdown_cond\<close>; in
  \<open>wait_timeout\<close>; notified or timed out and about to take the mutex again; about to
  collect; about to process what it collected; returned.
\<close>

datatype worker_pc = LoopHead | Locking | Waiting | Waking | Collecting | Processing "(u64 \<times> u8 \<times> u8) list" | Exited

text \<open>
  A caller of \<open>stop\<close>: not yet; the flag is stored; the waiters are notified; joining with
  the handle it took; returned after the join, or without a handle.
\<close>

datatype stop_pc = NotStopping | FlagStored | Notified | Joining | Joined | NoHandle

record ExpirationWorker =
  shutdown_flag :: bool
  shutdown_guard :: bool
  handle :: bool
  worker :: worker_pc
  stoppers :: "nat \<Rightarrow> stop_pc"
  worked_on :: Engine

text \<open>\<open>ExpirationWorker::new\<close> and \<open>start_expiration_thread\<close>.\<close>

definition worker_started :: "Engine \<Rightarrow> ExpirationWorker" where
  "worker_started e =
     \<lparr>shutdown_flag = False, shutdown_guard = False, handle = True, worker = LoopHead,
      stoppers = (\<lambda>_. NotStopping), worked_on = e\<rparr>"

section \<open>Steps\<close>

text \<open>
  One step of the worker, with the outcome of its writes, the clock, and whether its relaxed load of
  \<open>shutdown_flag\<close> sees a store that was made; \<open>None\<close> while it waits.
\<close>

definition worker_turn :: "(bytes \<Rightarrow> u32) \<Rightarrow> (u64 \<Rightarrow> append_io) \<Rightarrow> bool \<Rightarrow> u64 \<Rightarrow> ExpirationWorker \<Rightarrow> ExpirationWorker option" where
  "worker_turn crc ios seen now s =
     (case worker s of
        LoopHead \<Rightarrow> Some (s\<lparr>worker := if seen \<and> shutdown_flag s then Exited else Locking\<rparr>)
      | Locking \<Rightarrow> Some (s\<lparr>worker := if shutdown_guard s \<or> (seen \<and> shutdown_flag s) then Exited else Waiting\<rparr>)
      | Waiting \<Rightarrow> None
      | Waking \<Rightarrow> Some (s\<lparr>worker := if shutdown_guard s \<or> (seen \<and> shutdown_flag s) then Exited else Collecting\<rparr>)
      | Collecting \<Rightarrow> Some (s\<lparr>worker := Processing (collect_expired now (worked_on s))\<rparr>)
      | Processing tasks \<Rightarrow> Some (s\<lparr>worker := LoopHead, worked_on := process_expired crc ios tasks (worked_on s)\<rparr>)
      | Exited \<Rightarrow> None)"

text \<open>One step of \<open>stop\<close>; \<open>None\<close> while it is blocked in \<open>join\<close>.\<close>

definition stop_turn :: "nat \<Rightarrow> ExpirationWorker \<Rightarrow> ExpirationWorker option" where
  "stop_turn i s =
     (case stoppers s i of
        NotStopping \<Rightarrow> Some (s\<lparr>shutdown_flag := True, stoppers := (stoppers s)(i := FlagStored)\<rparr>)
      | FlagStored \<Rightarrow>
          Some (s\<lparr>shutdown_guard := True, worker := if worker s = Waiting then Waking else worker s,
                  stoppers := (stoppers s)(i := Notified)\<rparr>)
      | Notified \<Rightarrow> Some (s\<lparr>handle := False, stoppers := (stoppers s)(i := if handle s then Joining else NoHandle)\<rparr>)
      | Joining \<Rightarrow> if worker s = Exited then Some (s\<lparr>stoppers := (stoppers s)(i := Joined)\<rparr>) else None
      | Joined \<Rightarrow> None
      | NoHandle \<Rightarrow> None)"

inductive worker_step :: "(bytes \<Rightarrow> u32) \<Rightarrow> ExpirationWorker \<Rightarrow> ExpirationWorker \<Rightarrow> bool" for crc where
  ws_worker: "worker_turn crc ios seen now s = Some s' \<Longrightarrow> worker_step crc s s'"
| ws_timeout: "worker s = Waiting \<Longrightarrow> worker_step crc s (s\<lparr>worker := Waking\<rparr>)"
| ws_stop: "stop_turn i s = Some s' \<Longrightarrow> worker_step crc s s'"
| ws_client: "worker_step crc s (s\<lparr>worked_on := e\<rparr>)"

section \<open>The invariant\<close>

definition worker_inv :: "ExpirationWorker \<Rightarrow> bool" where
  "worker_inv s \<longleftrightarrow>
     (shutdown_guard s \<longrightarrow> shutdown_flag s \<and> worker s \<noteq> Waiting) \<and>
     (\<forall>i. stoppers s i \<noteq> NotStopping \<longrightarrow> shutdown_flag s) \<and>
     (\<forall>i. stoppers s i \<in> {Notified, Joining, Joined, NoHandle} \<longrightarrow> shutdown_guard s) \<and>
     (\<forall>i. stoppers s i = Joined \<longrightarrow> worker s = Exited) \<and>
     (\<forall>i. handle s \<longrightarrow> stoppers s i \<notin> {Joining, Joined, NoHandle}) \<and>
     (handle s \<or> (\<exists>i. stoppers s i \<in> {Joining, Joined}))"

lemma worker_inv_started: "worker_inv (worker_started e)"
  by (simp add: worker_inv_def worker_started_def)

lemma worker_invD:
  assumes "worker_inv s"
  shows "shutdown_guard s \<Longrightarrow> shutdown_flag s" "shutdown_guard s \<Longrightarrow> worker s \<noteq> Waiting"
    "stoppers s i \<noteq> NotStopping \<Longrightarrow> shutdown_flag s"
    "stoppers s i \<in> {Notified, Joining, Joined, NoHandle} \<Longrightarrow> shutdown_guard s"
    "stoppers s i = Joined \<Longrightarrow> worker s = Exited"
    "handle s \<Longrightarrow> stoppers s i \<notin> {Joining, Joined, NoHandle}"
    "\<not> handle s \<Longrightarrow> \<exists>i. stoppers s i \<in> {Joining, Joined}"
  using assms unfolding worker_inv_def by blast+

lemma worker_invI:
  assumes "shutdown_guard s \<Longrightarrow> shutdown_flag s" "shutdown_guard s \<Longrightarrow> worker s \<noteq> Waiting"
    and "\<And>i. stoppers s i \<noteq> NotStopping \<Longrightarrow> shutdown_flag s"
    and "\<And>i. stoppers s i \<in> {Notified, Joining, Joined, NoHandle} \<Longrightarrow> shutdown_guard s"
    and "\<And>i. stoppers s i = Joined \<Longrightarrow> worker s = Exited"
    and "\<And>i. handle s \<Longrightarrow> stoppers s i \<notin> {Joining, Joined, NoHandle}"
    and "\<not> handle s \<Longrightarrow> \<exists>i. stoppers s i \<in> {Joining, Joined}"
  shows "worker_inv s"
  using assms unfolding worker_inv_def by blast

text \<open>Steps that leave the callers of \<open>stop\<close> and the flags as they are.\<close>

lemma worker_inv_same:
  assumes "worker_inv s" "shutdown_flag s' = shutdown_flag s" "shutdown_guard s' = shutdown_guard s" "handle s' = handle s"
    and "stoppers s' = stoppers s" "shutdown_guard s \<Longrightarrow> worker s' \<noteq> Waiting" "worker s = Exited \<Longrightarrow> worker s' = Exited"
  shows "worker_inv s'"
  by (rule worker_invI; unfold assms(2-5)) (use worker_invD [OF assms(1)] assms(6,7) in blast)+

lemma worker_turn_cases:
  assumes "worker_turn crc ios seen now s = Some s'"
  obtains (stay) p where "s' = s\<lparr>worker := p\<rparr>" "worker s \<noteq> Exited" "p = Waiting \<longrightarrow> \<not> shutdown_guard s"
  | (processed) p e where "s' = s\<lparr>worker := LoopHead, worked_on := e\<rparr>" "worker s = Processing p"
proof (cases "worker s")
  case LoopHead
  then show thesis using assms that(1) [of "if seen \<and> shutdown_flag s then Exited else Locking"] by (simp add: worker_turn_def)
next
  case Locking
  then show thesis
    using assms that(1) [of "if shutdown_guard s \<or> (seen \<and> shutdown_flag s) then Exited else Waiting"] by (simp add: worker_turn_def)
next
  case Waking
  then show thesis
    using assms that(1) [of "if shutdown_guard s \<or> (seen \<and> shutdown_flag s) then Exited else Collecting"] by (simp add: worker_turn_def)
next
  case Collecting
  then show thesis using assms that(1) [of "Processing (collect_expired now (worked_on s))"] by (simp add: worker_turn_def)
next
  case (Processing p)
  then show thesis using assms that(2) [of "process_expired crc ios p (worked_on s)"] by (simp add: worker_turn_def)
qed (use assms in \<open>simp_all add: worker_turn_def\<close>)

lemma worker_turn_inv:
  assumes "worker_turn crc ios seen now s = Some s'" "worker_inv s"
  shows "worker_inv s'"
  using assms(1)
proof (cases rule: worker_turn_cases)
  case (stay p)
  show ?thesis by (rule worker_inv_same [OF assms(2)]) (use stay in simp_all)
next
  case (processed p e)
  show ?thesis by (rule worker_inv_same [OF assms(2)]) (use processed in simp_all)
qed

text \<open>A caller of \<open>stop\<close> that is not joining may move without hiding the one that joins.\<close>

lemma joiner_kept:
  assumes "\<exists>j. p j \<in> {Joining, Joined}" "p i \<notin> {Joining, Joined}"
  shows "\<exists>j. (p(i := q)) j \<in> {Joining, Joined}"
proof -
  obtain j where "p j \<in> {Joining, Joined}" using assms(1) by blast
  then show ?thesis using assms(2) by (intro exI [of _ j]) auto
qed

lemma stop_turn_inv:
  assumes "stop_turn i s = Some s'" "worker_inv s"
  shows "worker_inv s'"
proof (cases "stoppers s i")
  note d = worker_invD [OF assms(2)]
  case NotStopping
  then have s': "s' = s\<lparr>shutdown_flag := True, stoppers := (stoppers s)(i := FlagStored)\<rparr>" using assms(1) by (simp add: stop_turn_def)
  show ?thesis
  proof (rule worker_invI)
    show "\<exists>j. stoppers s' j \<in> {Joining, Joined}" if "\<not> handle s'"
      using joiner_kept [of "stoppers s" i FlagStored] d(7) that NotStopping by (simp add: s')
  qed (use d(2,4-6) in \<open>auto simp: s' split: if_splits\<close>)
next
  note d = worker_invD [OF assms(2)]
  case FlagStored
  then have s': "s' = s\<lparr>shutdown_guard := True, worker := if worker s = Waiting then Waking else worker s,
      stoppers := (stoppers s)(i := Notified)\<rparr>" using assms(1) by (simp add: stop_turn_def)
  show ?thesis
  proof (rule worker_invI)
    show "\<exists>j. stoppers s' j \<in> {Joining, Joined}" if "\<not> handle s'"
      using joiner_kept [of "stoppers s" i Notified] d(7) that FlagStored by (simp add: s')
    show "worker s' = Exited" if "stoppers s' j = Joined" for j
      using d(5) [of j] that by (auto simp: s' split: if_splits)
  qed (use d(3) [of i] d(6) FlagStored in \<open>auto simp: s' split: if_splits\<close>)
next
  note d = worker_invD [OF assms(2)]
  case Notified
  then have s': "s' = s\<lparr>handle := False, stoppers := (stoppers s)(i := if handle s then Joining else NoHandle)\<rparr>"
    using assms(1) by (simp add: stop_turn_def)
  have g: "shutdown_guard s" "shutdown_flag s" using d(3,4) [of i] Notified by simp_all
  show ?thesis
  proof (rule worker_invI)
    show "\<exists>j. stoppers s' j \<in> {Joining, Joined}"
    proof (cases "handle s")
      case True
      then show ?thesis by (intro exI [of _ i]) (simp add: s')
    next
      case False
      then show ?thesis using joiner_kept [of "stoppers s" i NoHandle] d(7) Notified by (simp add: s')
    qed
    show "worker s' = Exited" if "stoppers s' j = Joined" for j
      using d(5) [of j] that by (auto simp: s' split: if_splits)
  qed (use d(2) g in \<open>simp_all add: s'\<close>)
next
  note d = worker_invD [OF assms(2)]
  case Joining
  then have s': "s' = s\<lparr>stoppers := (stoppers s)(i := Joined)\<rparr>" "worker s = Exited"
    using assms(1) by (simp_all add: stop_turn_def split: if_splits)
  have g: "shutdown_guard s" "shutdown_flag s" "\<not> handle s" using d(3,4,6) [of i] Joining by auto
  show ?thesis
  proof (rule worker_invI)
    show "\<exists>j. stoppers s' j \<in> {Joining, Joined}" by (intro exI [of _ i]) (simp add: s'(1))
  qed (use d(2) g s'(2) in \<open>simp_all add: s'(1)\<close>)
qed (use assms in \<open>simp_all add: stop_turn_def\<close>)

lemma worker_inv_step: "worker_step crc s s' \<Longrightarrow> worker_inv s \<Longrightarrow> worker_inv s'"
proof (induction rule: worker_step.induct)
  case (ws_timeout s)
  then show ?case by (intro worker_inv_same [OF ws_timeout.prems]) simp_all
next
  case (ws_client s e)
  then show ?case by (intro worker_inv_same [OF ws_client.prems]) (simp_all add: worker_invD(2))
qed (use worker_turn_inv stop_turn_inv in blast)+

lemma worker_inv_reachable: "(worker_step crc)\<^sup>*\<^sup>* s s' \<Longrightarrow> worker_inv s \<Longrightarrow> worker_inv s'"
  by (induction rule: rtranclp_induct) (use worker_inv_step in blast)+

lemma exited_stays:
  assumes "worker_step crc s s'" "worker s = Exited"
  shows "worker s' = Exited"
  using assms by cases (auto simp: worker_turn_def stop_turn_def split: stop_pc.splits if_splits)

lemma exited_forever: "(worker_step crc)\<^sup>*\<^sup>* s s' \<Longrightarrow> worker s = Exited \<Longrightarrow> worker s' = Exited"
  by (induction rule: rtranclp_induct) (use exited_stays in blast)+

section \<open>Progress\<close>

text \<open>Steps of its own that the worker has left once it is told to stop; steps a caller of \<open>stop\<close> has left.\<close>

fun worker_left :: "worker_pc \<Rightarrow> nat" where
  "worker_left Collecting = 4"
| "worker_left (Processing _) = 3"
| "worker_left LoopHead = 2"
| "worker_left Exited = 0"
| "worker_left _ = 1"

fun stop_left :: "stop_pc \<Rightarrow> nat" where
  "stop_left NotStopping = 4"
| "stop_left FlagStored = 3"
| "stop_left Notified = 2"
| "stop_left Joining = 1"
| "stop_left _ = 0"

lemma stop_left_0 [simp]: "stop_left p = 0 \<longleftrightarrow> p \<in> {Joined, NoHandle}"
  by (cases p) simp_all

lemma worker_left_0 [simp]: "worker_left p = 0 \<longleftrightarrow> p = Exited"
  by (cases p) simp_all

lemma worker_turn_left:
  assumes "worker_turn crc ios seen now s = Some s'" "shutdown_guard s" "worker_inv s"
  shows "worker_left (worker s') < worker_left (worker s)"
  using assms(1,2) worker_invD(1) [OF assms(3,2)] by (cases "worker s") (auto simp: worker_turn_def)

lemma worker_turn_enabled: "worker s \<notin> {Waiting, Exited} \<Longrightarrow> \<exists>s'. worker_turn crc ios seen now s = Some s'"
  by (cases "worker s") (simp_all add: worker_turn_def)

lemma stop_turn_left: "stop_turn i s = Some s' \<Longrightarrow> stop_left (stoppers s' i) < stop_left (stoppers s i)"
  by (cases "stoppers s i") (auto simp: stop_turn_def split: if_splits)

lemma stop_turn_enabled:
  "stoppers s i \<notin> {Joining, Joined, NoHandle} \<or> (stoppers s i = Joining \<and> worker s = Exited) \<Longrightarrow> stop_turn i s \<noteq> None"
  by (cases "stoppers s i") (auto simp: stop_turn_def)

lemma stop_turn_others:
  assumes "stop_turn j s = Some s'"
  shows "stop_left (stoppers s' i) \<le> stop_left (stoppers s i)" "worker_left (worker s') \<le> worker_left (worker s)"
    "shutdown_guard s \<Longrightarrow> shutdown_guard s'"
proof -
  show "stop_left (stoppers s' i) \<le> stop_left (stoppers s i)"
  proof (cases "i = j")
    case True
    then show ?thesis using stop_turn_left [OF assms] by simp
  next
    case False
    then have "stoppers s' i = stoppers s i" using assms by (cases "stoppers s j") (auto simp: stop_turn_def split: if_splits)
    then show ?thesis by simp
  qed
  show "worker_left (worker s') \<le> worker_left (worker s)" "shutdown_guard s \<Longrightarrow> shutdown_guard s'"
    using assms by (cases "stoppers s j"; auto simp: stop_turn_def split: if_splits)+
qed

lemma worker_turn_others:
  assumes "worker_turn crc ios seen now s = Some s'"
  shows "stoppers s' = stoppers s" "shutdown_guard s' = shutdown_guard s"
  using assms by (cases rule: worker_turn_cases; simp)+

lemma worker_step_left:
  assumes "worker_step crc s s'" "worker_inv s"
  shows "stop_left (stoppers s' i) \<le> stop_left (stoppers s i)" "shutdown_guard s \<Longrightarrow> shutdown_guard s'"
    "shutdown_guard s \<Longrightarrow> worker_left (worker s') \<le> worker_left (worker s)"
proof -
  have "stop_left (stoppers s' i) \<le> stop_left (stoppers s i) \<and> (shutdown_guard s \<longrightarrow> shutdown_guard s') \<and>
      (shutdown_guard s \<longrightarrow> worker_left (worker s') \<le> worker_left (worker s))"
    using assms(1)
  proof cases
    case (ws_worker ios seen now)
    then show ?thesis using worker_turn_others [OF ws_worker] worker_turn_left [OF ws_worker _ assms(2)] by (simp add: less_imp_le)
  next
    case (ws_stop j)
    then show ?thesis using stop_turn_others [OF ws_stop] by simp
  qed simp_all
  then show "stop_left (stoppers s' i) \<le> stop_left (stoppers s i)" "shutdown_guard s \<Longrightarrow> shutdown_guard s'"
    "shutdown_guard s \<Longrightarrow> worker_left (worker s') \<le> worker_left (worker s)" by blast+
qed

text \<open>
  A run of infinitely many steps that is fair to the worker and to every caller of \<open>stop\<close>:
  again and again each of them takes its step or has none to take.
\<close>

definition fair_run :: "(bytes \<Rightarrow> u32) \<Rightarrow> (nat \<Rightarrow> ExpirationWorker) \<Rightarrow> bool" where
  "fair_run crc \<sigma> \<longleftrightarrow>
     (\<forall>n. worker_step crc (\<sigma> n) (\<sigma> (Suc n))) \<and>
     (\<forall>n. \<exists>m \<ge> n. (\<forall>ios seen now. worker_turn crc ios seen now (\<sigma> m) = None) \<or> (\<exists>ios seen now. worker_turn crc ios seen now (\<sigma> m) = Some (\<sigma> (Suc m)))) \<and>
     (\<forall>i n. \<exists>m \<ge> n. stoppers (\<sigma> m) i = NotStopping \<or> stop_turn i (\<sigma> m) = None \<or> stop_turn i (\<sigma> m) = Some (\<sigma> (Suc m)))"

text \<open>What never grows and shrinks again and again reaches zero.\<close>

lemma descends_to_0:
  fixes left :: "nat \<Rightarrow> nat"
  assumes mono: "\<And>n. k \<le> n \<Longrightarrow> left (Suc n) \<le> left n"
    and progress: "\<And>n. k \<le> n \<Longrightarrow> 0 < left n \<Longrightarrow> \<exists>m \<ge> n. left (Suc m) < left m \<or> left m = 0"
  shows "\<exists>n \<ge> k. left n = 0"
proof -
  have anti: "left m \<le> left n" if "k \<le> n" "n \<le> m" for n m
    using that(2)
  proof (induction rule: dec_induct)
    case (step m)
    then show ?case using mono [of m] that(1) by simp
  qed simp
  have "\<exists>n \<ge> n0. left n = 0" if "k \<le> n0" for n0
    using that
  proof (induction "left n0" arbitrary: n0 rule: less_induct)
    case less
    show ?case
    proof (cases "left n0 = 0")
      case False
      then obtain m where m: "n0 \<le> m" "left (Suc m) < left m \<or> left m = 0" using progress less.prems by blast
      from m(2) show ?thesis
      proof
        assume "left (Suc m) < left m"
        then have "left (Suc m) < left n0" using anti [OF less.prems m(1)] by simp
        from less.hyps [OF this] m(1) less.prems obtain n where "Suc m \<le> n" "left n = 0" by auto
        then show ?thesis using m(1) by (intro exI [of _ n]) simp
      qed (use m(1) in blast)
    qed auto
  qed
  then show ?thesis by blast
qed

lemma fair_run_inv:
  assumes "fair_run crc \<sigma>" "worker_inv (\<sigma> 0)"
  shows "worker_inv (\<sigma> n)"
  using assms worker_inv_step unfolding fair_run_def by (induction n) blast+

lemma guard_stays:
  assumes "fair_run crc \<sigma>" "worker_inv (\<sigma> 0)" "shutdown_guard (\<sigma> k)" "k \<le> n"
  shows "shutdown_guard (\<sigma> n)"
  using assms(4,3)
proof (induction rule: dec_induct)
  case (step n)
  then show ?case using worker_step_left(2) [OF _ fair_run_inv [OF assms(1,2)]] assms(1) unfolding fair_run_def by blast
qed

lemma worker_exits:
  assumes "fair_run crc \<sigma>" "worker_inv (\<sigma> 0)" "shutdown_guard (\<sigma> k)"
  shows "\<exists>n \<ge> k. worker (\<sigma> n) = Exited"
proof -
  note inv = fair_run_inv [OF assms(1,2)] and guard = guard_stays [OF assms]
  have "\<exists>n \<ge> k. worker_left (worker (\<sigma> n)) = 0"
  proof (rule descends_to_0)
    fix n assume n: "k \<le> n"
    show "worker_left (worker (\<sigma> (Suc n))) \<le> worker_left (worker (\<sigma> n))"
      using worker_step_left(3) [OF _ inv guard [OF n]] assms(1) unfolding fair_run_def by blast
    obtain m where m: "n \<le> m" "(\<forall>ios seen now. worker_turn crc ios seen now (\<sigma> m) = None) \<or> (\<exists>ios seen now. worker_turn crc ios seen now (\<sigma> m) = Some (\<sigma> (Suc m)))"
      using assms(1) unfolding fair_run_def by blast
    have g: "shutdown_guard (\<sigma> m)" using guard n m(1) by simp
    have "worker (\<sigma> m) \<noteq> Waiting" by (rule worker_invD(2) [OF inv g])
    then have "worker_left (worker (\<sigma> (Suc m))) < worker_left (worker (\<sigma> m)) \<or> worker_left (worker (\<sigma> m)) = 0"
      using m(2) worker_turn_left [OF _ g inv] worker_turn_enabled [of "\<sigma> m" crc] by fastforce
    then show "\<exists>m \<ge> n. worker_left (worker (\<sigma> (Suc m))) < worker_left (worker (\<sigma> m)) \<or> worker_left (worker (\<sigma> m)) = 0"
      using m(1) by blast
  qed
  then show ?thesis by simp
qed

lemma fair_run_stop_left:
  assumes "fair_run crc \<sigma>" "worker_inv (\<sigma> 0)" "k \<le> n"
  shows "stop_left (stoppers (\<sigma> n) i) \<le> stop_left (stoppers (\<sigma> k) i)"
  using assms(3)
proof (induction rule: dec_induct)
  case (step n)
  then show ?case
    using worker_step_left(1) [OF _ fair_run_inv [OF assms(1,2)]] assms(1) le_trans unfolding fair_run_def by blast
qed simp

text \<open>A caller of \<open>stop\<close> moves while it has a step, down to a bound below which it may be blocked.\<close>

lemma stop_advances:
  assumes "fair_run crc \<sigma>" "worker_inv (\<sigma> 0)" "stoppers (\<sigma> k) i \<noteq> NotStopping"
    and "\<And>n. k \<le> n \<Longrightarrow> b < stop_left (stoppers (\<sigma> n) i) \<Longrightarrow> stop_turn i (\<sigma> n) \<noteq> None"
  shows "\<exists>n \<ge> k. stop_left (stoppers (\<sigma> n) i) \<le> b"
proof -
  note mono = fair_run_stop_left [OF assms(1,2)]
  have called: "stoppers (\<sigma> n) i \<noteq> NotStopping" if "k \<le> n" for n
    using mono [OF that, of i] assms(3) by (cases "stoppers (\<sigma> k) i") auto
  have "\<exists>n \<ge> k. stop_left (stoppers (\<sigma> n) i) - b = 0"
  proof (rule descends_to_0)
    fix n assume n: "k \<le> n"
    show "stop_left (stoppers (\<sigma> (Suc n)) i) - b \<le> stop_left (stoppers (\<sigma> n) i) - b" using mono [of n "Suc n" i] by simp
    obtain m where m: "n \<le> m" "stoppers (\<sigma> m) i = NotStopping \<or> stop_turn i (\<sigma> m) = None \<or> stop_turn i (\<sigma> m) = Some (\<sigma> (Suc m))"
      using assms(1) unfolding fair_run_def by blast
    then have "stop_turn i (\<sigma> m) = None \<or> stop_turn i (\<sigma> m) = Some (\<sigma> (Suc m))" using called n by simp
    then have "stop_left (stoppers (\<sigma> (Suc m)) i) - b < stop_left (stoppers (\<sigma> m) i) - b \<or> stop_left (stoppers (\<sigma> m) i) - b = 0"
      using assms(4) [of m] stop_turn_left [of i "\<sigma> m" "\<sigma> (Suc m)"] n m(1) by fastforce
    then show "\<exists>m \<ge> n. stop_left (stoppers (\<sigma> (Suc m)) i) - b < stop_left (stoppers (\<sigma> m) i) - b \<or> stop_left (stoppers (\<sigma> m) i) - b = 0"
      using m(1) by blast
  qed
  then show ?thesis by simp
qed

lemma stopping_sets_guard:
  assumes "fair_run crc \<sigma>" "worker_inv (\<sigma> 0)" "stoppers (\<sigma> k) i \<noteq> NotStopping"
  shows "\<exists>n \<ge> k. stop_left (stoppers (\<sigma> n) i) \<le> 1 \<and> shutdown_guard (\<sigma> n)"
proof -
  have "stop_turn i (\<sigma> n) \<noteq> None" if "1 < stop_left (stoppers (\<sigma> n) i)" for n
    by (rule stop_turn_enabled) (use that in \<open>cases "stoppers (\<sigma> n) i"; simp\<close>)
  then obtain n where n: "k \<le> n" "stop_left (stoppers (\<sigma> n) i) \<le> 1" using stop_advances [OF assms, of 1] by blast
  then have "stoppers (\<sigma> n) i \<in> {Notified, Joining, Joined, NoHandle}" by (cases "stoppers (\<sigma> n) i") simp_all
  then show ?thesis using n worker_invD(4) [OF fair_run_inv [OF assms(1,2)]] by blast
qed

lemma fair_run_steps:
  assumes "fair_run crc \<sigma>" "k \<le> n"
  shows "(worker_step crc)\<^sup>*\<^sup>* (\<sigma> k) (\<sigma> n)"
  using assms(2)
proof (induction rule: dec_induct)
  case (step n)
  then show ?case using assms(1) unfolding fair_run_def by (blast intro: rtranclp.rtrancl_into_rtrancl)
qed simp

section \<open>A run\<close>

text \<open>\<open>stop\<close> is called at once and runs to its join; the worker sees the flag; \<open>stop\<close> returns.\<close>

definition stop_run :: "Engine \<Rightarrow> nat \<Rightarrow> ExpirationWorker" where
  "stop_run e n =
     \<lparr>shutdown_flag = (0 < n), shutdown_guard = (1 < n), handle = (n < 3), worker = (if n < 4 then LoopHead else Exited),
      stoppers = (\<lambda>_. NotStopping)(0 :=
        if n = 0 then NotStopping else if n = 1 then FlagStored else if n = 2 then Notified else if n \<le> 4 then Joining else Joined),
      worked_on = e\<rparr>"

lemma stop_run_step:
  "n < 3 \<Longrightarrow> stop_turn 0 (stop_run e n) = Some (stop_run e (Suc n))" "n = 4 \<Longrightarrow> stop_turn 0 (stop_run e n) = Some (stop_run e (Suc n))"
  "n = 3 \<Longrightarrow> worker_turn crc ios True now (stop_run e n) = Some (stop_run e (Suc n))" "4 < n \<Longrightarrow> stop_run e (Suc n) = stop_run e n"
  by (auto simp: stop_turn_def worker_turn_def stop_run_def less_Suc_eq numeral_3_eq_3)

lemma stop_run_fair: "fair_run crc (stop_run e)"
  unfolding fair_run_def
proof (intro conjI allI)
  show "worker_step crc (stop_run e n) (stop_run e (Suc n))" for n
  proof -
    consider "n < 3 \<or> n = 4" | "n = 3" | "4 < n" by linarith
    then show ?thesis
    proof cases
      case 1
      then show ?thesis using stop_run_step(1,2) ws_stop by blast
    next
      case 2
      then show ?thesis using stop_run_step(3) ws_worker by blast
    next
      case 3
      then show ?thesis using ws_client [of crc "stop_run e n" "worked_on (stop_run e n)"] stop_run_step(4) by simp
    qed
  qed
  show "\<exists>m \<ge> n. (\<forall>ios seen now. worker_turn crc ios seen now (stop_run e m) = None) \<or>
      (\<exists>ios seen now. worker_turn crc ios seen now (stop_run e m) = Some (stop_run e (Suc m)))" for n
    by (intro exI [of _ "n + 5"]) (simp add: worker_turn_def stop_run_def)
  show "\<exists>m \<ge> n. stoppers (stop_run e m) i = NotStopping \<or> stop_turn i (stop_run e m) = None \<or>
      stop_turn i (stop_run e m) = Some (stop_run e (Suc m))" for i n
    by (intro exI [of _ "n + 5"]) (simp add: stop_turn_def stop_run_def)
qed

text \<open>
  Only the caller that takes the handle waits. A second, concurrent caller returns at once, with
  the worker still in its loop.
\<close>

lemma second_stop_returns_early:
  "\<exists>s. (worker_step crc)\<^sup>*\<^sup>* (worker_started e) s \<and> stoppers s 1 = NoHandle \<and> stoppers s 0 = Joining \<and> worker s = LoopHead"
proof -
  define w where "w f g h p q = \<lparr>shutdown_flag = f, shutdown_guard = g, handle = h, worker = LoopHead,
    stoppers = (\<lambda>_. NotStopping)(0 := p, 1 := q), worked_on = e\<rparr>" for f g h p q
  have "worker_started e = w False False True NotStopping NotStopping" by (simp add: w_def worker_started_def fun_eq_iff)
  moreover have s: "stop_turn 0 (w False False True NotStopping NotStopping) = Some (w True False True FlagStored NotStopping)"
    "stop_turn 0 (w True False True FlagStored NotStopping) = Some (w True True True Notified NotStopping)"
    "stop_turn 0 (w True True True Notified NotStopping) = Some (w True True False Joining NotStopping)"
    "stop_turn 1 (w True True False Joining NotStopping) = Some (w True True False Joining FlagStored)"
    "stop_turn 1 (w True True False Joining FlagStored) = Some (w True True False Joining Notified)"
    "stop_turn 1 (w True True False Joining Notified) = Some (w True True False Joining NoHandle)"
    by (simp_all add: stop_turn_def w_def fun_eq_iff)
  ultimately have "(worker_step crc)\<^sup>*\<^sup>* (worker_started e) (w True True False Joining NoHandle)"
    using s [THEN ws_stop, of crc] by (auto intro: converse_rtranclp_into_rtranclp)
  then show ?thesis by (intro exI [of _ "w True True False Joining NoHandle"]) (simp add: w_def)
qed

section \<open>Properties\<close>

text \<open>
  C18. \<open>stop\<close> returns and the worker ends: in every run that is fair to the threads, with any
  number of concurrent callers and whatever clients do to the engine, a call of \<open>stop\<close> is
  followed by a state in which that call has returned and the expiration worker has left its loop.
  No wake-up is missed between the worker's test of the flag and its wait.
\<close>

theorem stop_returns:
  assumes "fair_run crc \<sigma>" "\<sigma> 0 = worker_started e" "stoppers (\<sigma> k) i \<noteq> NotStopping"
  shows "\<exists>n \<ge> k. stoppers (\<sigma> n) i \<in> {Joined, NoHandle} \<and> worker (\<sigma> n) = Exited"
proof -
  have inv: "worker_inv (\<sigma> 0)" using worker_inv_started assms(2) by simp
  obtain k1 where k1: "k \<le> k1" "stop_left (stoppers (\<sigma> k1) i) \<le> 1" "shutdown_guard (\<sigma> k1)"
    using stopping_sets_guard [OF assms(1) inv assms(3)] by blast
  obtain k2 where k2: "k1 \<le> k2" "worker (\<sigma> k2) = Exited" using worker_exits [OF assms(1) inv k1(3)] by blast
  have exited: "worker (\<sigma> n) = Exited" if "k2 \<le> n" for n
    using exited_forever [OF fair_run_steps [OF assms(1) that] k2(2)] .
  have "\<exists>n \<ge> k. stop_left (stoppers (\<sigma> n) i) \<le> 0 \<and> k2 \<le> n"
  proof -
    have *: "stop_turn i (\<sigma> n) \<noteq> None" if "k2 \<le> n" "0 < stop_left (stoppers (\<sigma> n) i)" for n
      by (rule stop_turn_enabled) (use that exited in \<open>cases "stoppers (\<sigma> n) i"; simp\<close>)
    have "stoppers (\<sigma> k2) i \<noteq> NotStopping" using fair_run_stop_left [OF assms(1) inv k2(1), of i] k1(2) by auto
    from stop_advances [OF assms(1) inv this, of 0] * k1(1) k2(1) show ?thesis by (meson le_trans)
  qed
  then show ?thesis using exited by auto
qed

theorem stop_returns_witness:
  "\<exists>n \<ge> 1. stoppers (stop_run demo_new n) 0 \<in> {Joined, NoHandle} \<and> worker (stop_run demo_new n) = Exited"
proof (rule stop_returns [OF stop_run_fair [of byte_sum]])
  show "stop_run demo_new 0 = worker_started demo_new" by (simp add: stop_run_def worker_started_def fun_eq_iff)
qed (simp add: stop_run_def)

text \<open>
  A call of \<open>stop\<close> that joined is the end of the worker: from then on, whatever other
  callers and clients do, no step of the worker changes the engine or calls back.
\<close>

theorem joined_worker_is_silent:
  assumes "(worker_step crc)\<^sup>*\<^sup>* (worker_started e) s" "stoppers s i = Joined" "(worker_step crc)\<^sup>*\<^sup>* s s'"
  shows "worker_turn crc ios seen now s' = None \<and> worker s' = Exited \<and> shutdown_flag s' \<and> shutdown_guard s'"
proof -
  have inv: "worker_inv s" by (rule worker_inv_reachable [OF assms(1) worker_inv_started])
  have ex: "worker s' = Exited" by (rule exited_forever [OF assms(3) worker_invD(5) [OF inv assms(2)]])
  have "shutdown_guard s" using worker_invD(4) [OF inv] assms(2) by blast
  with assms(3) inv have "shutdown_guard s' \<and> worker_inv s'"
    by (induction rule: rtranclp_induct) (use worker_step_left(2) worker_inv_step in blast)+
  then show ?thesis using ex worker_invD(1) by (simp add: worker_turn_def)
qed

theorem joined_worker_is_silent_witness:
  "worker_turn byte_sum (\<lambda>_. AppendOk) True 0 (stop_run demo_new 5) = None \<and> worker (stop_run demo_new 5) = Exited"
proof -
  have "(worker_step byte_sum)\<^sup>*\<^sup>* (stop_run demo_new 0) (stop_run demo_new 5)" by (rule fair_run_steps [OF stop_run_fair]) simp
  moreover have "stop_run demo_new 0 = worker_started demo_new" by (simp add: stop_run_def worker_started_def fun_eq_iff)
  ultimately show ?thesis
    using joined_worker_is_silent [of byte_sum demo_new "stop_run demo_new 5" 0 "stop_run demo_new 5"] by (simp add: stop_run_def)
qed

end
