(* ===== verification/Server_Api.thy ===== *)
theory Server_Api
  imports Server Expiration_Worker
begin

text \<open>
  The server as a whole, \<open>src/src/server.rs\<close> and the end of \<open>src/src/main.rs\<close>: the table of
  routes with the answers each of them can give, and the graceful shutdown.
\<close>

section \<open>Routes\<close>

text \<open>
  A request after routing and extraction, one constructor per \<open>route\<close> of
  \<open>create_router_with_state\<close>. A request that matches no route or whose path, query or JSON body
  the extractors refuse never reaches a handler; its answer (a 404, 405, 400, 415 or 422) is the
  framework's.
\<close>

datatype api_request =
    GetHealth
  | GetQueues
  | PostPush string bool string u8
  | PostPop string bool u32 u64 u64
  | GetStatus string
  | PostCompact string
  | PostAck string u64 bool u32
  | PostNack string u64 bool u32

text \<open>
  The dispatch. \<open>found\<close> is what the directory scan of \<open>list_queues_handler\<close> gives, \<open>instant\<close> and
  \<open>ws\<close> what a long poll sees.
\<close>

definition handle_request ::
  "externals \<Rightarrow> request_env \<Rightarrow> string + string list \<Rightarrow> nat \<Rightarrow> wake list \<Rightarrow> api_request \<Rightarrow> AppState \<Rightarrow> (ApiError + Response) option \<times> AppState" where
  "handle_request ext env found instant ws req st =
     (case req of
        GetHealth \<Rightarrow> (Some (Inr health_handler), st)
      | GetQueues \<Rightarrow> (Some (list_queues_handler ext found), st)
      | PostPush name sync payload priority \<Rightarrow> map_prod Some id (push_handler ext env name sync payload priority st)
      | PostPop name sync consumer lease_secs wait_secs \<Rightarrow> pop_handler ext env name sync consumer lease_secs wait_secs instant ws st
      | GetStatus name \<Rightarrow> map_prod Some id (status_handler ext env name st)
      | PostCompact name \<Rightarrow> map_prod Some id (compact_handler ext env name st)
      | PostAck name tid sync consumer \<Rightarrow> map_prod Some id (ack_handler ext env name sync tid consumer st)
      | PostNack name tid sync consumer \<Rightarrow> map_prod Some id (nack_handler ext env name sync tid consumer st))"

section \<open>The type of an answer\<close>

definition is_error :: "(nat \<times> string) list \<Rightarrow> Response \<Rightarrow> bool" where
  "is_error kinds r = (case resp_body r of ErrorBody err msg \<Rightarrow> (status_code r, err) \<in> set kinds | _ \<Rightarrow> False)"

definition engine_errors :: "(nat \<times> string) list" where
  "engine_errors = [(404, ''not_found''), (409, ''conflict''), (500, ''internal_error'')]"

fun is_success :: "api_request \<Rightarrow> nat \<Rightarrow> ResponseBody \<Rightarrow> bool" where
  "is_success GetHealth s b = (s = 200 \<and> b = TextBody ''OK'')"
| "is_success GetQueues s b = (s = 200 \<and> (\<exists>qs. b = QueueList qs \<and> sorted (map (map (of_char :: char \<Rightarrow> nat)) qs)))"
| "is_success (PostPush _ _ _ _) s b = (s = 201 \<and> (\<exists>k. b = PushBody k))"
| "is_success (PostPop _ _ _ _ _) s b =
     ((s = 200 \<and> (\<exists>k p pr r. b = PopBody k p pr r)) \<or> (s = 204 \<and> b = NoBody) \<or> (s = 503 \<and> b = ShuttingDown))"
| "is_success (GetStatus _) s b = (s = 200 \<and> (\<exists>r a. b = StatusBody r a))"
| "is_success (PostCompact _) s b = (s = 200 \<and> (\<exists>c. b = CompactBody c))"
| "is_success _ s b = (s = 200 \<and> b = NoBody)"

fun error_kinds :: "api_request \<Rightarrow> (nat \<times> string) list" where
  "error_kinds GetHealth = []"
| "error_kinds GetQueues = [(500, ''internal_error'')]"
| "error_kinds (PostPush _ _ _ _) = (400, ''bad_request'') # engine_errors"
| "error_kinds _ = engine_errors"

definition response_type :: "api_request \<Rightarrow> Response \<Rightarrow> bool" where
  "response_type req r \<longleftrightarrow> is_success req (status_code r) (resp_body r) \<or> is_error (error_kinds req) r"

text \<open>The status that belongs to an error of the engine.\<close>

fun error_status :: "rs_error \<Rightarrow> nat" where
  "error_status (IoErr NotFound _) = 404"
| "error_status (IoErr PermissionDenied _) = 409"
| "error_status _ = 500"

lemma error_status_answer: "status_code (answer (Inl (api_error ext err))) = error_status err"
  by (cases err rule: error_status.cases) (simp_all add: answer_def api_error_def into_response_def response_def)

text \<open>The status of a request that runs one operation of the engine.\<close>

definition op_status :: "nat \<Rightarrow> 'a result \<times> Engine \<Rightarrow> nat" where
  "op_status ok r = (case fst r of Inl err \<Rightarrow> error_status err | Inr _ \<Rightarrow> ok)"

lemma on_engine_status:
  assumes "hm_get (queues st) name = Some ctx"
  shows "fst (on_engine ext name f st) = (case fst (f (ctx_engine ctx)) of Inl err \<Rightarrow> Inl (api_error ext err) | Inr v \<Rightarrow> Inr v)"
  using assms by (simp add: on_engine_def split: prod.split)

lemma open_queue_statuses:
  assumes "hm_get (queues st) name = Some ctx"
  shows "status_code (answer (fst (push_handler ext env name sync text pr st))) =
      (case b64_decode ext text of Inl _ \<Rightarrow> 400
       | Inr p \<Rightarrow> op_status 201 (with_sync env sync (push (x_crc ext) (r_io env) p pr (ctx_engine ctx))))"
    and "status_code (answer (fst (ack_handler ext env name sync k c st))) =
      op_status 200 (with_sync env sync (ack (x_crc ext) (r_io env) k c (ctx_engine ctx)))"
    and "status_code (answer (fst (nack_handler ext env name sync k c st))) =
      op_status 200 (with_sync env sync (nack (x_crc ext) (r_io env) k c (ctx_engine ctx)))"
    and "status_code (answer (fst (compact_handler ext env name st))) = op_status 200 (compact (x_crc ext) (ctx_engine ctx))"
proof -
  note on = on_engine_status [OF assms] and q = open_queue [OF assms] and s = error_status_answer op_status_def
  have ok: "status_code (answer (Inr (response n b))) = n" for n b by (simp add: answer_def response_def)
  have bad: "status_code (answer (Inl (Api_BadRequest msg))) = 400" for msg by (simp add: answer_def into_response_def response_def)
  note splits = prod.split sum.split
  show "status_code (answer (fst (push_handler ext env name sync text pr st))) =
      (case b64_decode ext text of Inl _ \<Rightarrow> 400
       | Inr p \<Rightarrow> op_status 201 (with_sync env sync (push (x_crc ext) (r_io env) p pr (ctx_engine ctx))))"
    using on [of ext "\<lambda>e. with_sync env sync (push (x_crc ext) (r_io env) (projr (b64_decode ext text)) pr e)"]
    by (auto simp: push_handler_def q ok s bad split: splits)
  show "status_code (answer (fst (ack_handler ext env name sync k c st))) =
      op_status 200 (with_sync env sync (ack (x_crc ext) (r_io env) k c (ctx_engine ctx)))"
    using on [of ext "\<lambda>e. with_sync env sync (ack (x_crc ext) (r_io env) k c e)"] by (auto simp: ack_handler_def q ok s split: splits)
  show "status_code (answer (fst (nack_handler ext env name sync k c st))) =
      op_status 200 (with_sync env sync (nack (x_crc ext) (r_io env) k c (ctx_engine ctx)))"
    using on [of ext "\<lambda>e. with_sync env sync (nack (x_crc ext) (r_io env) k c e)"] by (auto simp: nack_handler_def q ok s split: splits)
  show "status_code (answer (fst (compact_handler ext env name st))) = op_status 200 (compact (x_crc ext) (ctx_engine ctx))"
    using on [of ext "compact (x_crc ext)"] by (auto simp: compact_handler_def q ok s split: splits)
qed

text \<open>Errors that do not come from a malformed request.\<close>

fun from_engine :: "ApiError \<Rightarrow> bool" where
  "from_engine (Api_BadRequest _) = False"
| "from_engine _ = True"

lemma from_engine_api_error [simp]: "from_engine (api_error ext e)"
  by (auto simp: api_error_def split: rs_error.split error_kind.split)

lemma is_error_into_response:
  "is_error ((400, ''bad_request'') # engine_errors) (into_response e)" "from_engine e \<Longrightarrow> is_error engine_errors (into_response e)"
  by (cases e; simp add: is_error_def into_response_def response_def engine_errors_def)+

definition answer_ok :: "(Response \<Rightarrow> bool) \<Rightarrow> ApiError + Response \<Rightarrow> bool" where
  "answer_ok P r = (case r of Inl e \<Rightarrow> from_engine e | Inr resp \<Rightarrow> P resp)"

lemma answer_ok_simps [simp]: "answer_ok P (Inl e) = from_engine e" "answer_ok P (Inr r) = P r"
  by (simp_all add: answer_ok_def)

lemma get_existing_from_engine: "get_existing_queue ext env name st = (Inl e, st') \<Longrightarrow> from_engine e"
  by (auto simp: get_existing_queue_def split: option.splits if_splits prod.splits sum.splits)

lemma on_engine_from_engine: "on_engine ext name f st = (Inl e, st') \<Longrightarrow> from_engine e"
  by (auto simp: on_engine_def Let_def split: option.splits prod.splits sum.splits)

lemmas handler_errors = get_existing_from_engine on_engine_from_engine

lemma handler_answers:
  "answer_ok (\<lambda>r. \<exists>a b. r = response 200 (StatusBody a b)) (fst (status_handler ext env name st))"
  "answer_ok (\<lambda>r. \<exists>c. r = response 200 (CompactBody c)) (fst (compact_handler ext env name st))"
  "answer_ok (\<lambda>r. r = response 200 NoBody) (fst (ack_handler ext env name sync k c st))"
  "answer_ok (\<lambda>r. r = response 200 NoBody) (fst (nack_handler ext env name sync k c st))"
  by (auto simp: answer_ok_def status_handler_def compact_handler_def ack_handler_def nack_handler_def
      split: prod.splits sum.splits dest: handler_errors)

lemma typed_answer:
  assumes "answer_ok P r" "error_kinds req = engine_errors" "\<And>resp. P resp \<Longrightarrow> is_success req (status_code resp) (resp_body resp)"
  shows "response_type req (answer r)"
  using assms is_error_into_response(2) by (cases r) (auto simp: response_type_def answer_def)

lemma push_answer:
  "case fst (push_handler ext env name sync payload pr st) of Inl e \<Rightarrow> True | Inr r \<Rightarrow> \<exists>k. r = response 201 (PushBody k)"
  by (auto simp: push_handler_def split: prod.splits sum.splits)

definition pop_response :: "Response \<Rightarrow> bool" where
  "pop_response r \<longleftrightarrow> (\<exists>k p pr n. r = response 200 (PopBody k p pr n)) \<or> r = response 204 NoBody \<or> r = shutting_down"

lemma pop_attempt_answer:
  "case fst (pop_attempt ext env name sync c ttl st) of Inl e \<Rightarrow> from_engine e | Inr r \<Rightarrow> pred_option pop_response r"
  by (auto simp: pop_attempt_def pop_response_def split: prod.splits sum.splits option.splits dest: handler_errors)

text \<open>The head of the loop, and the branches of the \<open>select!\<close>.\<close>

lemma pop_loop_answer: "pred_option (answer_ok pop_response) (fst (pop_loop ext name sync c ttl dl waiting instant env ws st))"
proof (induction ws arbitrary: waiting instant env st)
  case Nil
  show ?case
    using pop_attempt_answer [of ext env name sync c ttl st]
    by (subst pop_loop.simps) (auto simp: Let_def answer_ok_def pop_response_def split: prod.splits sum.splits option.splits)
next
  case (Cons w ws)
  let ?ok = "pred_option (answer_ok pop_response)"
  have *: "answer_ok pop_response (Inr shutting_down)" "answer_ok pop_response (Inr (response 204 NoBody))"
    by (simp_all add: pop_response_def)
  define wait where "wait st =
    (case w_branch w of
       ByShutdown \<Rightarrow> if cancelled (w_others w st) then (Some (Inr shutting_down), w_others w st)
         else pop_loop ext name sync c ttl dl True (w_instant w) (w_env w) ws (w_others w st)
     | ByNotify \<Rightarrow> (case take_permit name (w_others w st) of
           (True, st) \<Rightarrow> pop_loop ext name sync c ttl dl False (w_instant w) (w_env w) ws st
         | (False, _) \<Rightarrow> pop_loop ext name sync c ttl dl True (w_instant w) (w_env w) ws (w_others w st))
     | BySleep \<Rightarrow> if dl \<noteq> None \<and> the dl \<le> w_instant w then (Some (Inr (response 204 NoBody)), w_others w st)
         else pop_loop ext name sync c ttl dl True (w_instant w) (w_env w) ws (w_others w st))" for st
  have wait: "?ok (fst (wait st))" for st
    using Cons.IH * by (auto simp: wait_def split: wake_branch.split prod.split bool.split)
  have "pop_loop ext name sync c ttl dl waiting instant env (w # ws) st =
    (case
      (if waiting then (None, st)
       else if cancelled st then (Some (Inr shutting_down), st)
       else case pop_attempt ext env name sync c ttl st of
              (Inl err, st) \<Rightarrow> (Some (Inl err), st)
            | (Inr (Some resp), st) \<Rightarrow> (Some (Inr resp), st)
            | (Inr None, st) \<Rightarrow>
               (case dl of
                  None \<Rightarrow> (Some (Inr (response 204 NoBody)), st)
                | Some dl \<Rightarrow> (if instant \<ge> dl then Some (Inr (response 204 NoBody)) else None, st))) of
      (res, st) \<Rightarrow> (case res of Some a \<Rightarrow> (Some a, st) | None \<Rightarrow> wait st))"
    by (subst pop_loop.simps) (simp add: wait_def Let_def split: prod.split sum.split option.split)
  then show ?case
    using pop_attempt_answer [of ext env name sync c ttl st] wait *
    by (auto split: prod.splits sum.splits option.splits)
qed

lemma pop_handler_answer:
  "pred_option (answer_ok pop_response) (fst (pop_handler ext env name sync c ttl wait instant ws st))"
proof -
  have *: "answer_ok pop_response (Inr shutting_down)" "answer_ok pop_response (Inr (response 204 NoBody))"
    by (simp_all add: pop_response_def)
  have err: "answer_ok pop_response (Inl (api_error ext e))" for e by simp
  show ?thesis
    using * err pop_loop_answer by (auto simp: pop_handler_def Let_def split: prod.split sum.split ApiError.split option.split
        dest: get_existing_from_engine)
qed

section \<open>Shutting down\<close>

text \<open>\<open>shutdown_signal\<close>, when a signal arrives or the token is cancelled.\<close>

definition shutdown_signal :: "AppState \<Rightarrow> AppState" where
  "shutdown_signal st = st\<lparr>cancelled := True\<rparr>"

text \<open>\<open>map_err\<close> after \<open>spawn_blocking\<close>: a panic becomes an error of kind \<open>Other\<close>.\<close>

definition join_error :: "externals \<Rightarrow> rs_error \<Rightarrow> rs_error" where
  "join_error ext e = (case e of Panicked msg \<Rightarrow> IoErr OtherKind (join_text ext msg) | IoErr k msg \<Rightarrow> IoErr k msg)"

text \<open>
  The workers of all queues make progress, and callers of \<open>stop\<close> other than \<open>i\<close> may come
  along.
\<close>

definition evolve :: "(bytes \<Rightarrow> u32) \<Rightarrow> nat \<Rightarrow> (string \<Rightarrow> ExpirationWorker) \<Rightarrow> (string \<Rightarrow> ExpirationWorker) \<Rightarrow> bool" where
  "evolve crc i M M' \<longleftrightarrow> (\<forall>n. (worker_step crc)\<^sup>*\<^sup>* (M n) (M' n) \<and> stoppers (M' n) i = stoppers (M n) i)"

text \<open>A call of \<open>stop_expiration_thread\<close>, from its start to its return.\<close>

definition stop_expiration_thread :: "(bytes \<Rightarrow> u32) \<Rightarrow> nat \<Rightarrow> ExpirationWorker \<Rightarrow> ExpirationWorker \<Rightarrow> bool" where
  "stop_expiration_thread crc i s s' \<longleftrightarrow>
     stoppers s i = NotStopping \<and> (worker_step crc)\<^sup>*\<^sup>* s s' \<and> stoppers s' i \<in> {Joined, NoHandle}"

text \<open>
  \<open>shutdown_all_queues\<close> by the thread \<open>i\<close> over the queues that are left: the outcome of
  \<open>force_flush_group_commit\<close>, then \<open>stop_expiration_thread\<close>. The other queues keep
  running.
\<close>

inductive shutdown_all_queues ::
  "externals \<Rightarrow> (string \<Rightarrow> unit result) \<Rightarrow> nat \<Rightarrow> string list \<Rightarrow> (string \<Rightarrow> ExpirationWorker) \<Rightarrow> unit result \<Rightarrow> (string \<Rightarrow> ExpirationWorker) \<Rightarrow> bool"
  for ext flush i where
  sd_done: "shutdown_all_queues ext flush i [] M (Inr ()) M"
| sd_failed: "evolve (x_crc ext) i M M' \<Longrightarrow> flush n = Inl err \<Longrightarrow>
    shutdown_all_queues ext flush i (n # ns) M (Inl (join_error ext err)) M'"
| sd_stopped: "evolve (x_crc ext) i M M1 \<Longrightarrow> flush n = Inr () \<Longrightarrow>
    evolve (x_crc ext) i (M1(n := w)) (M2(n := w)) \<Longrightarrow> stop_expiration_thread (x_crc ext) i (M1 n) (M2 n) \<Longrightarrow>
    shutdown_all_queues ext flush i ns M2 res M' \<Longrightarrow>
    shutdown_all_queues ext flush i (n # ns) M res M'"

inductive_cases shutdown_nilE: "shutdown_all_queues ext flush i [] M res M'"
inductive_cases shutdown_consE: "shutdown_all_queues ext flush i (n # ns) M res M'"

lemma evolve_other:
  "evolve crc i (M(n := w)) (M'(n := w)) \<Longrightarrow> m \<noteq> n \<Longrightarrow> (worker_step crc)\<^sup>*\<^sup>* (M m) (M' m) \<and> stoppers (M' m) i = stoppers (M m) i"
  unfolding evolve_def by (metis fun_upd_other)

lemma shutdown_evolves:
  assumes "shutdown_all_queues ext flush i ns M res M'"
  shows "(worker_step (x_crc ext))\<^sup>*\<^sup>* (M m) (M' m)" "m \<notin> set ns \<Longrightarrow> stoppers (M' m) i = stoppers (M m) i"
  using assms
proof (induction rule: shutdown_all_queues.induct)
  case (sd_stopped M M1 n w M2 ns res M')
  have 1: "(worker_step (x_crc ext))\<^sup>*\<^sup>* (M m) (M1 m)" "stoppers (M1 m) i = stoppers (M m) i" using sd_stopped.hyps(1) unfolding evolve_def by blast+
  have 2: "(worker_step (x_crc ext))\<^sup>*\<^sup>* (M1 m) (M2 m)" using sd_stopped.hyps(4) evolve_other [OF sd_stopped.hyps(3), of m] unfolding stop_expiration_thread_def by blast
  show "(worker_step (x_crc ext))\<^sup>*\<^sup>* (M m) (M' m)" using 1(1) 2 sd_stopped.IH(1) by (meson rtranclp_trans)
  show "stoppers (M' m) i = stoppers (M m) i" if "m \<notin> set (n # ns)"
    using that 1(2) sd_stopped.IH(2) evolve_other [OF sd_stopped.hyps(3), of m] by simp
qed (auto simp: evolve_def)

text \<open>The queues before the first failing flush are stopped; nothing is done to the ones from there on.\<close>

lemma shutdown_prefix:
  assumes "shutdown_all_queues ext flush i (pre @ ns) M res M'" "\<forall>n \<in> set pre. flush n = Inr ()"
  shows "\<exists>M1. shutdown_all_queues ext flush i ns M1 res M' \<and> (\<forall>n. (worker_step (x_crc ext))\<^sup>*\<^sup>* (M n) (M1 n)) \<and>
    (\<forall>n \<in> set pre. \<exists>s. stoppers s i \<in> {Joined, NoHandle} \<and> (worker_step (x_crc ext))\<^sup>*\<^sup>* (M n) s \<and> (worker_step (x_crc ext))\<^sup>*\<^sup>* s (M1 n)) \<and>
    (\<forall>n. n \<notin> set pre \<longrightarrow> stoppers (M1 n) i = stoppers (M n) i)"
  using assms
proof (induction pre arbitrary: M)
  case Nil
  then show ?case by auto
next
  case (Cons n pre)
  from Cons.prems obtain M1 w M2 where s: "evolve (x_crc ext) i M M1" "evolve (x_crc ext) i (M1(n := w)) (M2(n := w))"
      "(worker_step (x_crc ext))\<^sup>*\<^sup>* (M1 n) (M2 n)" "stoppers (M2 n) i \<in> {Joined, NoHandle}"
      "shutdown_all_queues ext flush i (pre @ ns) M2 res M'"
    by (auto elim: shutdown_consE simp: stop_expiration_thread_def)
  have M2: "(worker_step (x_crc ext))\<^sup>*\<^sup>* (M m) (M2 m) \<and> (m \<noteq> n \<longrightarrow> stoppers (M2 m) i = stoppers (M m) i)" for m
  proof -
    have "(worker_step (x_crc ext))\<^sup>*\<^sup>* (M m) (M1 m)" "stoppers (M1 m) i = stoppers (M m) i" using s(1) unfolding evolve_def by blast+
    moreover have "(worker_step (x_crc ext))\<^sup>*\<^sup>* (M1 m) (M2 m)" using s(3) evolve_other [OF s(2), of m] by (cases "m = n") auto
    ultimately show ?thesis using evolve_other [OF s(2), of m] by (auto intro: rtranclp_trans)
  qed
  have "\<forall>n \<in> set pre. flush n = Inr ()" using Cons.prems(2) by simp
  from Cons.IH [OF s(5) this] obtain M3 where M3: "shutdown_all_queues ext flush i ns M3 res M'"
      "\<And>n. (worker_step (x_crc ext))\<^sup>*\<^sup>* (M2 n) (M3 n)" "\<And>n. n \<notin> set pre \<Longrightarrow> stoppers (M3 n) i = stoppers (M2 n) i"
      "\<And>n. n \<in> set pre \<Longrightarrow> \<exists>s. stoppers s i \<in> {Joined, NoHandle} \<and> (worker_step (x_crc ext))\<^sup>*\<^sup>* (M2 n) s \<and> (worker_step (x_crc ext))\<^sup>*\<^sup>* s (M3 n)"
    by blast
  have "\<exists>s. stoppers s i \<in> {Joined, NoHandle} \<and> (worker_step (x_crc ext))\<^sup>*\<^sup>* (M m) s \<and> (worker_step (x_crc ext))\<^sup>*\<^sup>* s (M3 m)"
    if "m \<in> set (n # pre)" for m
  proof (cases "m = n")
    case True
    then show ?thesis using s(4) M2 [of n] M3(2) [of n] by blast
  next
    case False
    then show ?thesis using that M3(4) [of m] M2 [of m] by (auto intro: rtranclp_trans)
  qed
  moreover have "stoppers (M3 m) i = stoppers (M m) i" if "m \<notin> set (n # pre)" for m using that M2 M3(3) by simp
  ultimately show ?case using M3(1,2) M2 by (intro exI [of _ M3]) (meson rtranclp_trans)
qed

text \<open>Without other callers of \<open>stop\<close>, one that returned has seen the worker end.\<close>

lemma sole_stopper_exited:
  assumes "worker_inv s" "stoppers s i \<in> {Joined, NoHandle}" "\<forall>j. j \<noteq> i \<longrightarrow> stoppers s j = NotStopping"
  shows "worker s = Exited"
proof -
  have "stoppers s i = Joined"
  proof (rule ccontr)
    assume "stoppers s i \<noteq> Joined"
    then have i: "stoppers s i = NoHandle" using assms(2) by simp
    then have "\<not> handle s" using worker_invD(6) [OF assms(1), of i] by auto
    then obtain j where "stoppers s j \<in> {Joining, Joined}" using worker_invD(7) [OF assms(1)] by blast
    then show False using i assms(3) by (cases "j = i") auto
  qed
  then show ?thesis by (rule worker_invD(5) [OF assms(1)])
qed

lemma stop_returned_stays:
  assumes "(worker_step crc)\<^sup>*\<^sup>* s s'" "worker_inv s" "stoppers s i \<in> {Joined, NoHandle}"
  shows "stoppers s' i \<in> {Joined, NoHandle}"
proof -
  from assms have "stop_left (stoppers s' i) \<le> stop_left (stoppers s i) \<and> worker_inv s'"
  proof (induction rule: rtranclp_induct)
    case (step s' s'')
    then show ?case using worker_step_left(1) worker_inv_step le_trans by blast
  qed simp
  then show ?thesis using assms(3) by (metis le_zero_eq stop_left_0)
qed

section \<open>Properties\<close>

lemma handlers_typed: "pred_option (\<lambda>r. response_type req (answer r)) (fst (handle_request ext env found instant ws req st))"
proof (cases req)
  case (PostPush name sync payload pr)
  then show ?thesis
    using push_answer [of ext env name sync payload pr st] is_error_into_response(1)
    by (auto simp: handle_request_def response_type_def answer_def response_def split: sum.splits)
next
  case (PostPop name sync c ttl wait)
  have "response_type req (answer r)" if "answer_ok pop_response r" for r
    by (rule typed_answer [OF that]) (auto simp: PostPop pop_response_def shutting_down_def response_def)
  then show ?thesis
    using pop_handler_answer [of ext env name sync c ttl wait instant ws st] PostPop
    by (auto simp: handle_request_def elim!: option.pred_mono_strong)
next
  case GetQueues
  then show ?thesis
    by (cases found) (simp_all add: handle_request_def response_type_def answer_def list_queues_handler_def response_def into_response_def is_error_def)
next
  case GetHealth
  then show ?thesis by (simp add: handle_request_def response_type_def answer_def health_handler_def response_def)
next
  case (GetStatus name)
  then show ?thesis by (auto simp: handle_request_def response_def intro!: typed_answer [OF handler_answers(1)])
next
  case (PostCompact name)
  then show ?thesis by (auto simp: handle_request_def response_def intro!: typed_answer [OF handler_answers(2)])
next
  case (PostAck name k sync c)
  then show ?thesis by (auto simp: handle_request_def response_def intro!: typed_answer [OF handler_answers(3)])
next
  case (PostNack name k sync c)
  then show ?thesis by (auto simp: handle_request_def response_def intro!: typed_answer [OF handler_answers(4)])
qed

text \<open>
  C20. Every answer of a handler has the type of its route: the status and the shape of the body
  of a success, or an error whose name belongs to its status. Only a push can be a bad request,
  only a poll answers 204 or 503, the health check never fails, and the list of queues is sorted
  and fails only with a 500. On an open queue the status of a push, an acknowledgement, a refusal
  or a compaction is the one of the engine's result: 404, 409 or 500 by the kind of its error.
  (A request that the framework refuses before a handler runs is not part of the claim.)
\<close>

theorem responses_are_typed:
  "pred_option (\<lambda>r. response_type req (answer r)) (fst (handle_request ext env found instant ws req st)) \<and>
   (hm_get (queues st) name = Some ctx \<longrightarrow>
     status_code (answer (fst (push_handler ext env name sync text pr st))) =
       (case b64_decode ext text of Inl _ \<Rightarrow> 400
        | Inr p \<Rightarrow> op_status 201 (with_sync env sync (push (x_crc ext) (r_io env) p pr (ctx_engine ctx)))) \<and>
     status_code (answer (fst (ack_handler ext env name sync k c st))) =
       op_status 200 (with_sync env sync (ack (x_crc ext) (r_io env) k c (ctx_engine ctx))) \<and>
     status_code (answer (fst (nack_handler ext env name sync k c st))) =
       op_status 200 (with_sync env sync (nack (x_crc ext) (r_io env) k c (ctx_engine ctx))) \<and>
     status_code (answer (fst (compact_handler ext env name st))) = op_status 200 (compact (x_crc ext) (ctx_engine ctx)))"
  by (intro conjI impI handlers_typed open_queue_statuses)

text \<open>An acknowledgement by a consumer that does not hold the task.\<close>

theorem responses_are_typed_witness:
  "response_type (PostAck ''q'' 1 False 8) (answer (fst (ack_handler demo_ext (demo_env 10) ''q'' False 1 8 (demo_app demo_leased)))) \<and>
   status_code (answer (fst (ack_handler demo_ext (demo_env 10) ''q'' False 1 8 (demo_app demo_leased)))) = 409"
proof -
  have "ack byte_sum AppendOk 1 8 demo_leased = (Inl other_consumer_error, demo_leased)"
    using ack_nack_refused(2) [OF demo_leased(3), of ack 1 _ 8] by (simp add: demo_spec_leased_def lease_info_def)
  then show ?thesis
    using responses_are_typed [where req = "PostAck ''q'' 1 False 8" and ext = demo_ext and env = "demo_env 10" and st = "demo_app demo_leased"
        and name = "''q''" and ctx = "\<lparr>ctx_engine = demo_leased, ctx_notify = False\<rparr>" and k = 1 and c = 8 and sync = False]
    by (simp add: demo_app(1) demo_env handle_request_def with_sync_def other_consumer_error_def op_status_def)
qed

text \<open>
  C19. Graceful shutdown, with all workers running and no other caller of \<open>stop\<close>: when every
  flush succeeds, \<open>shutdown_all_queues\<close> returns \<open>Ok\<close> and all workers have ended; when a flush
  fails, its error is the result, the workers of the queues before it have ended, and the queues
  from there on have not been told to stop.
\<close>

theorem shutdown_flushes_then_stops:
  assumes "shutdown_all_queues ext flush i ns M res M'" "distinct ns"
    and "\<forall>n. (worker_step (x_crc ext))\<^sup>*\<^sup>* (worker_started (E n)) (M n) \<and> stoppers (M n) i = NotStopping"
    and "\<forall>n j. j \<noteq> i \<longrightarrow> stoppers (M' n) j = NotStopping"
  shows "(if \<forall>n \<in> set ns. flush n = Inr () then res = Inr () \<and> (\<forall>n \<in> set ns. worker (M' n) = Exited)
     else \<exists>pre n post err. ns = pre @ n # post \<and> flush n = Inl err \<and> res = Inl (join_error ext err) \<and>
       (\<forall>m \<in> set pre. flush m = Inr () \<and> worker (M' m) = Exited) \<and> (\<forall>m \<in> set (n # post). stoppers (M' m) i = NotStopping))"
proof -
  have reach: "(worker_step (x_crc ext))\<^sup>*\<^sup>* (worker_started (E n)) (M' n)" for n
    using assms(3) shutdown_evolves(1) [OF assms(1), of n] by (meson rtranclp_trans)
  have inv: "worker_inv (M' n)" for n by (rule worker_inv_reachable [OF reach worker_inv_started])
  have ended: "worker (M' n) = Exited"
    if "stoppers s i \<in> {Joined, NoHandle}" "(worker_step (x_crc ext))\<^sup>*\<^sup>* (M n) s" "(worker_step (x_crc ext))\<^sup>*\<^sup>* s (M' n)" for s n
  proof -
    have "worker_inv s" using worker_inv_reachable [OF _ worker_inv_started] assms(3) that(2) by (meson rtranclp_trans)
    from stop_returned_stays [OF that(3) this that(1)] show ?thesis using sole_stopper_exited [OF inv] assms(4) by blast
  qed
  show ?thesis
  proof (cases "\<forall>n \<in> set ns. flush n = Inr ()")
    case True
    then obtain M1 where M1: "shutdown_all_queues ext flush i [] M1 res M'"
        "\<And>n. n \<in> set ns \<Longrightarrow> \<exists>s. stoppers s i \<in> {Joined, NoHandle} \<and> (worker_step (x_crc ext))\<^sup>*\<^sup>* (M n) s \<and> (worker_step (x_crc ext))\<^sup>*\<^sup>* s (M1 n)"
      using shutdown_prefix [of ext flush i ns "[]" M res M'] assms(1) by auto
    from M1(1) have "res = Inr ()" "M1 = M'" by (auto elim: shutdown_nilE)
    then show ?thesis using True M1(2) ended by auto
  next
    case False
    then obtain pre n post where ns: "ns = pre @ n # post" "flush n \<noteq> Inr ()" "\<forall>m \<in> set pre. \<not> flush m \<noteq> Inr ()"
      using split_list_first_prop [of ns "\<lambda>n. flush n \<noteq> Inr ()"] by blast
    then obtain err where err: "flush n = Inl err" by (cases "flush n") auto
    obtain M1 where M1: "shutdown_all_queues ext flush i (n # post) M1 res M'"
        "\<And>m. m \<in> set pre \<Longrightarrow> \<exists>s. stoppers s i \<in> {Joined, NoHandle} \<and> (worker_step (x_crc ext))\<^sup>*\<^sup>* (M m) s \<and> (worker_step (x_crc ext))\<^sup>*\<^sup>* s (M1 m)"
        "\<And>m. m \<notin> set pre \<Longrightarrow> stoppers (M1 m) i = stoppers (M m) i"
      using shutdown_prefix [of ext flush i pre "n # post" M res M'] assms(1) ns(1,3) by auto
    from M1(1) err have res: "res = Inl (join_error ext err)" "evolve (x_crc ext) i M1 M'" by (auto elim: shutdown_consE)
    have "worker (M' m) = Exited" if "m \<in> set pre" for m
      using M1(2) [OF that] ended res(2) unfolding evolve_def by (meson rtranclp_trans)
    moreover have "stoppers (M' m) i = NotStopping" if "m \<in> set (n # post)" for m
      using that assms(2,3) M1(3) [of m] res(2) unfolding ns(1) evolve_def by auto
    ultimately have "\<exists>pre n post err. ns = pre @ n # post \<and> flush n = Inl err \<and> res = Inl (join_error ext err) \<and>
       (\<forall>m \<in> set pre. flush m = Inr () \<and> worker (M' m) = Exited) \<and> (\<forall>m \<in> set (n # post). stoppers (M' m) i = NotStopping)"
      using ns err res(1) by (intro exI [of _ pre] exI [of _ n] exI [of _ post] exI [of _ err]) auto
    then show ?thesis by (simp only: if_not_P [OF False])
  qed
qed

text \<open>Two queues; the flush of the second one fails.\<close>

definition demo_flush :: "string \<Rightarrow> unit result" where
  "demo_flush n = (if n = ''a'' then Inr () else Inl (Panicked ''poisoned''))"

lemma demo_shutdown:
  "shutdown_all_queues demo_ext demo_flush 0 [''a'', ''b''] (\<lambda>_. stop_run demo_new 0) (Inl (IoErr OtherKind ''poisoned''))
     ((\<lambda>_. stop_run demo_new 0)(''a'' := stop_run demo_new 5))"
proof -
  let ?M = "\<lambda>_. stop_run demo_new 0" and ?M' = "(\<lambda>_. stop_run demo_new 0)(''a'' := stop_run demo_new 5)"
  have same: "evolve crc i M M" for crc i M by (simp add: evolve_def)
  have "evolve (x_crc demo_ext) 0 (?M(''a'' := w)) (?M'(''a'' := w))" for w by (simp add: evolve_def)
  moreover have "stop_expiration_thread (x_crc demo_ext) 0 (?M ''a'') (?M' ''a'')"
    using fair_run_steps [OF stop_run_fair, of 0 5] by (simp add: stop_expiration_thread_def stop_run_def)
  moreover have "shutdown_all_queues demo_ext demo_flush 0 [''b''] ?M' (Inl (IoErr OtherKind ''poisoned'')) ?M'"
    using sd_failed [OF same, of demo_flush "''b''" "Panicked ''poisoned''" demo_ext 0 "[]" ?M']
    by (simp add: demo_flush_def join_error_def demo_ext_def)
  ultimately show ?thesis
    using sd_stopped [OF same, of demo_flush "''a''" demo_ext 0 ?M w ?M'] by (simp add: demo_flush_def)
qed

theorem shutdown_flushes_then_stops_witness:
  "worker (((\<lambda>_. stop_run demo_new 0)(''a'' := stop_run demo_new 5)) ''a'') = Exited \<and> \<not> (\<forall>n \<in> set [''a'', ''b'']. demo_flush n = Inr ())"
proof -
  have "stop_run demo_new 0 = worker_started demo_new" by (simp add: stop_run_def worker_started_def fun_eq_iff)
  then show ?thesis
    using shutdown_flushes_then_stops [OF demo_shutdown, of "\<lambda>_. demo_new"]
    by (auto simp: stop_run_def demo_ext_def demo_flush_def split: if_splits)
qed

end
