(* ===== verification/Command_Line.thy ===== *)
theory Command_Line
  imports Group_Commit File_System
begin

text \<open>
  The command line of the server, \<open>src/src/main.rs\<close>: the loop over the arguments and the
  group commit configuration it produces. Printing, the runtime and the listener are not part
  of it; the two ways the process ends early (exit code 1 with a message, and an error of
  \<open>parse\<close>) are values.
\<close>

record Cli =
  http_workers :: u64
  batch_window_ms :: u64
  cli_max_batch_size :: u64
  idle_commit_threshold_us :: u64
  cli_sync_mode :: SyncMode
  cli_data_dir :: string
  bind_addr :: string

text \<open>The defaults, from the number of cores and the current directory.\<close>

definition cli_default :: "u64 \<Rightarrow> string \<Rightarrow> Cli" where
  "cli_default cores cwd =
     \<lparr>http_workers = cores, batch_window_ms = 2, cli_max_batch_size = 64, idle_commit_threshold_us = 0,
      cli_sync_mode = Standard, cli_data_dir = path_join cwd ''nesso_data'', bind_addr = ''127.0.0.1:8080''\<rparr>"

datatype cli_outcome = Run Cli | Help | ExitWith string | ParseFailed

text \<open>
  \<open>str::to_lowercase\<close> on ASCII letters; no other letter has a lower case form that spells
  one of the values below.
\<close>

definition to_lowercase :: "string \<Rightarrow> string" where
  "to_lowercase s = map (\<lambda>c. if 65 \<le> (of_char c :: nat) \<and> (of_char c :: nat) \<le> 90 then char_of ((of_char c :: nat) + 32) else c) s"

text \<open>The match on the value of \<open>--sync-mode\<close>.\<close>

definition sync_mode_of :: "string \<Rightarrow> SyncMode option" where
  "sync_mode_of v =
     (let w = to_lowercase v in
      if w = ''standard'' \<or> w = ''posix'' then Some Standard
      else if w = ''full'' \<or> w = ''hardware'' then Some FullHardware
      else None)"

text \<open>A numeric option: its value is parsed and stored.\<close>

definition cli_number :: "string \<Rightarrow> string list \<Rightarrow> (u64 \<Rightarrow> Cli) \<Rightarrow> cli_outcome + Cli" where
  "cli_number opt rest store =
     (case rest of
        [] \<Rightarrow> Inl (ExitWith (''Error: missing value for '' @ opt))
      | v # _ \<Rightarrow> (case parse_u64 v of None \<Rightarrow> Inl ParseFailed | Some n \<Rightarrow> Inr (store n)))"

text \<open>One turn of the loop: the effect of the argument and how many it consumes.\<close>

definition cli_turn :: "string \<Rightarrow> string list \<Rightarrow> Cli \<Rightarrow> cli_outcome + Cli \<times> nat" where
  "cli_turn arg rest c =
     (let valued = (\<lambda>r. case r of Inl out \<Rightarrow> Inl out | Inr c \<Rightarrow> Inr (c, 2)) in
      if arg = ''--http-workers'' then valued (cli_number arg rest (\<lambda>n. c\<lparr>http_workers := n\<rparr>))
      else if arg = ''--batch-window-ms'' then valued (cli_number arg rest (\<lambda>n. c\<lparr>batch_window_ms := n\<rparr>))
      else if arg = ''--max-batch-size'' then valued (cli_number arg rest (\<lambda>n. c\<lparr>cli_max_batch_size := n\<rparr>))
      else if arg = ''--idle-commit-threshold-us'' then valued (cli_number arg rest (\<lambda>n. c\<lparr>idle_commit_threshold_us := n\<rparr>))
      else if arg = ''--sync-mode'' then
        valued (case rest of
            [] \<Rightarrow> Inl (ExitWith (''Error: missing value for '' @ arg))
          | v # _ \<Rightarrow>
             (case sync_mode_of v of
                None \<Rightarrow> Inl (ExitWith (''Error: unknown sync mode '' @ [CHR 0x27] @ to_lowercase v @ [CHR 0x27] @ ''. Valid values: standard, full''))
              | Some m \<Rightarrow> Inr (c\<lparr>cli_sync_mode := m\<rparr>)))
      else if arg = ''--data-dir'' then
        valued (case rest of [] \<Rightarrow> Inl (ExitWith (''Error: missing value for '' @ arg)) | v # _ \<Rightarrow> Inr (c\<lparr>cli_data_dir := v\<rparr>))
      else if arg = ''--bind'' then
        valued (case rest of [] \<Rightarrow> Inl (ExitWith (''Error: missing value for '' @ arg)) | v # _ \<Rightarrow> Inr (c\<lparr>bind_addr := v\<rparr>))
      else if arg = ''--help'' \<or> arg = ''-h'' then Inl Help
      else Inr (c, 1))"

lemma cli_turn_consumes: "cli_turn arg rest c = Inr (c', n) \<Longrightarrow> n = 1 \<or> n = 2"
  by (auto simp: cli_turn_def Let_def split: if_splits sum.splits)

text \<open>The loop \<open>while i < args.len()\<close>, from index \<open>i\<close>.\<close>

function parse_args :: "string list \<Rightarrow> nat \<Rightarrow> Cli \<Rightarrow> cli_outcome" where
  "parse_args args i c =
     (if i < length args
      then (case cli_turn (args ! i) (drop (i + 1) args) c of
              Inl out \<Rightarrow> out
            | Inr (c, n) \<Rightarrow> parse_args args (i + n) c)
      else Run c)"
  by pat_completeness auto
termination
  by (relation "measure (\<lambda>(args, i, c). length args - i)") (auto dest!: cli_turn_consumes)

declare parse_args.simps [simp del]

definition cli_config :: "Cli \<Rightarrow> GroupCommitConfig" where
  "cli_config c =
     \<lparr>batch_window = unat (batch_window_ms c) * 1000, max_batch_size = unat (cli_max_batch_size c),
      idle_commit_threshold = unat (idle_commit_threshold_us c), sync_mode = cli_sync_mode c\<rparr>"

section \<open>Properties\<close>

lemma parse_show: "parse_u64 (show_nat (unat (n :: u64))) = Some n"
  using show_nat_digits [of "unat n"] parse_digits [of "show_nat (unat n)"] unsigned_less [where 'a = nat, of n] by simp

text \<open>The arguments that ask for a configuration.\<close>

definition cli_args :: "Cli \<Rightarrow> string list" where
  "cli_args c =
     [''--http-workers'', show_nat (unat (http_workers c)), ''--batch-window-ms'', show_nat (unat (batch_window_ms c)),
      ''--max-batch-size'', show_nat (unat (cli_max_batch_size c)),
      ''--idle-commit-threshold-us'', show_nat (unat (idle_commit_threshold_us c)),
      ''--sync-mode'', (case cli_sync_mode c of Standard \<Rightarrow> ''standard'' | FullHardware \<Rightarrow> ''full''),
      ''--data-dir'', cli_data_dir c, ''--bind'', bind_addr c]"

lemma parse_args_valued:
  assumes "cli_turn arg (v # rest) c = Inr (c', 2)"
  shows "parse_args (pre @ arg # v # rest) (length pre) c = parse_args ((pre @ [arg, v]) @ rest) (length (pre @ [arg, v])) c'"
  using assms by (subst parse_args.simps) (simp add: nth_append)

lemma cli_turn_valued:
  "cli_turn ''--http-workers'' (show_nat (unat n) # rest) c = Inr (c\<lparr>http_workers := n\<rparr>, 2)"
  "cli_turn ''--batch-window-ms'' (show_nat (unat n) # rest) c = Inr (c\<lparr>batch_window_ms := n\<rparr>, 2)"
  "cli_turn ''--max-batch-size'' (show_nat (unat n) # rest) c = Inr (c\<lparr>cli_max_batch_size := n\<rparr>, 2)"
  "cli_turn ''--idle-commit-threshold-us'' (show_nat (unat n) # rest) c = Inr (c\<lparr>idle_commit_threshold_us := n\<rparr>, 2)"
  "cli_turn ''--sync-mode'' ((case m of Standard \<Rightarrow> ''standard'' | FullHardware \<Rightarrow> ''full'') # rest) c = Inr (c\<lparr>cli_sync_mode := m\<rparr>, 2)"
  "cli_turn ''--data-dir'' (v # rest) c = Inr (c\<lparr>cli_data_dir := v\<rparr>, 2)"
  "cli_turn ''--bind'' (v # rest) c = Inr (c\<lparr>bind_addr := v\<rparr>, 2)"
  by (simp_all add: cli_turn_def cli_number_def parse_show sync_mode_of_def to_lowercase_def split: SyncMode.split)

text \<open>
  C34. The command line says what it means: the arguments for a configuration, behind any
  program name, give exactly that configuration whatever the defaults are; without arguments
  the defaults remain, and they are the defaults of the group commit coordinator.
\<close>

theorem command_line_roundtrip:
  "parse_args (program # cli_args c) 1 c0 = Run c \<and> parse_args [program] 1 c0 = Run c0 \<and>
   cli_config (cli_default cores cwd) = default_config"
proof (intro conjI)
  have "parse_args ([program] @ cli_args c) (length [program]) c0 = Run c"
    unfolding cli_args_def
    by (simp only: parse_args_valued [OF cli_turn_valued(1)] parse_args_valued [OF cli_turn_valued(2)]
        parse_args_valued [OF cli_turn_valued(3)] parse_args_valued [OF cli_turn_valued(4)] parse_args_valued [OF cli_turn_valued(5)]
        parse_args_valued [OF cli_turn_valued(6)] parse_args_valued [OF cli_turn_valued(7)]) (subst parse_args.simps, simp)
  then show "parse_args (program # cli_args c) 1 c0 = Run c" by simp
  show "parse_args [program] 1 c0 = Run c0" by (subst parse_args.simps) simp
  show "cli_config (cli_default cores cwd) = default_config" by (simp add: cli_config_def cli_default_def default_config_def)
qed

end
