(* ===== verification/Engine_Compaction.thy ===== *)
theory Engine_Compaction
  imports Engine_Correct
begin

text \<open>
  Compaction under a running engine: what the remapped index points at, and that consumers
  see no difference.
\<close>

section \<open>Logs and replays\<close>

lemma log_wf_prefix: "log_wf (xs @ ys) \<Longrightarrow> log_wf xs"
proof (induction ys rule: rev_induct)
  case (snoc y ys)
  from snoc.prems have "log_wf (xs @ ys)"
    by (cases rule: log_wf.cases) (auto simp flip: append_assoc)
  then show ?case by (rule snoc.IH)
qed simp

lemma log_wf_snocD:
  "log_wf (log @ [(l, r)]) \<Longrightarrow> wf_record r \<and>
   (if op_type r = Created then latest_map log (rec_id r) = None else data_map log (rec_id r) \<noteq> None)"
  by (cases rule: log_wf.cases) auto

lemma replay_snoc: "replay (rs @ [r]) = compact_step (replay rs) r"
  by (simp add: replay_def)

text \<open>The payloads that a compaction collects are those of the tasks.\<close>

lemma replay_payloads:
  assumes "log_wf log"
  shows "hm_get (fst (replay (map snd log))) k = payload_map log k"
  using assms
proof (induction log rule: rev_induct)
  case (snoc x log)
  obtain l r where x: "x = (l, r)" by fastforce
  note wf = log_wf_snocD [OF snoc.prems [unfolded x]]
  have IH: "hm_get (fst (replay (map snd log))) k = payload_map log k" using snoc log_wf_prefix by blast
  have "hm_get (fst (replay (map snd (log @ [x])))) k =
      (if k = rec_id r then if ends_task r then None
         else if op_type r = Created \<or> payload_map log k = None then Some (body r) else payload_map log k
       else payload_map log k)"
    using compact_step_created [of r "replay (map snd log)" k] wf IH
    by (cases "k = rec_id r") (simp_all add: x replay_snoc)
  moreover have "payload_map log (rec_id r) \<noteq> None" if "op_type r \<noteq> Created"
    using wf that data_map_dom [of log "rec_id r"] by simp
  ultimately show ?case
    by (cases "op_type r = Created") (auto simp: x data_step_def ends_task_def body_def meta_len_def)
qed (simp add: replay_def)

text \<open>A task that already occurs in a prefix was created there.\<close>

lemma data_map_prefix:
  assumes "log_wf (xs @ ys)" "data_map (xs @ ys) k = Some l" "k \<in> log_id ` set xs"
  shows "data_map xs k = Some l"
  using assms(1,2)
proof (induction ys rule: rev_induct)
  case (snoc y ys)
  obtain l' r where y: "y = (l', r)" by fastforce
  have snoc': "log_wf ((xs @ ys) @ [(l', r)])" "data_map ((xs @ ys) @ [(l', r)]) k = Some l"
    using snoc.prems by (simp_all add: y)
  have "latest_map (xs @ ys) k \<noteq> None" using assms(3) by (auto simp: latest_map_None)
  then have "data_map (xs @ ys) k = Some l"
    using snoc'(2) log_wf_snocD [OF snoc'(1)] unfolding data_map_simps data_step_def by (auto split: if_splits)
  then show ?case using snoc.IH log_wf_prefix [OF snoc'(1)] by blast
qed simp

lemma user_payload_body: "wf_record r \<Longrightarrow> user_payload r = body r"
  by (cases "op_type r") (simp_all add: user_payload_def body_def meta_len_def wf_record_def Suc_le_eq)

section \<open>The remapped index\<close>

lemma write_survivors_ok: "hm_ok offs \<Longrightarrow> write_survivors crc f surv fs offs off = (fs', offs') \<Longrightarrow> hm_ok offs'"
proof (induction surv arbitrary: fs offs off)
  case (Cons x surv)
  then show ?case using hm_ok_insert by (cases x) (simp add: Let_def, blast)
qed simp

lemma phase1_offsets_ok: "execute_compaction_phase1 crc fs ids = (Inr (stats, offs), fs1) \<Longrightarrow> hm_ok offs"
  by (auto simp: execute_compaction_phase1_def Let_def split: sum.splits prod.splits dest!: write_survivors_ok [rotated])

definition remapped :: "u64 list \<Rightarrow> (u64, nat) hmap \<Rightarrow> u64 \<Rightarrow> loc \<Rightarrow> loc" where
  "remapped closed offs k l = (if fst l \<in> set closed then (case hm_get offs k of None \<Rightarrow> l | Some off \<Rightarrow> (1, off)) else l)"

lemma remap_get:
  "hm_get (remap closed tid off m) k =
     (if k = tid then map_option (\<lambda>l. if fst l \<in> set closed then (1, off) else l) (hm_get m k) else hm_get m k)"
  by (auto simp: remap_def split: option.split prod.split)

lemma remap_state_fields:
  "wal (remap_state closed offs st) = wal st" "ready_queue (remap_state closed offs st) = ready_queue st"
  "leased (remap_state closed offs st) = leased st" "payload_cache (remap_state closed offs st) = payload_cache st"
  "next_id (remap_state closed offs st) = next_id st" "on_task_ready (remap_state closed offs st) = on_task_ready st"
  unfolding remap_state_def by (induction offs arbitrary: st) (auto split: prod.split)

lemma remap_state_get:
  assumes "hm_ok offs"
  shows "hm_get (data_index (remap_state closed offs st)) k = map_option (remapped closed offs k) (hm_get (data_index st) k)"
  using assms unfolding remap_state_def
proof (induction offs arbitrary: st k)
  case (Cons x offs)
  obtain i off where x: "x = (i, off)" by fastforce
  have ok: "hm_ok offs" "i \<notin> fst ` set offs" using Cons.prems by (simp_all add: hm_ok_def x)
  have none: "hm_get offs i = None" using ok(2) by (simp add: hm_get_None_iff)
  have cons: "hm_get (x # offs) k = (if k = i then Some off else hm_get offs k)" for k by (simp add: hm_get_def x)
  show ?case
    using none by (cases "hm_get (data_index st) k"; cases "k = i")
      (simp_all add: x Cons.IH [OF ok(1)] remap_get remapped_def cons [unfolded x] split: option.split)
next
  case Nil
  have "remapped closed [] k l = l" for l by (simp add: remapped_def hm_get_def)
  then show ?case by (simp add: option.map_ident)
qed

section \<open>Compaction of a running engine\<close>

lemma compact_offsets:
  assumes "plan_compaction (files e) (active_segment_id (wal (inner e))) = Some closed"
    and "compact_with_offsets crc (wal (inner e)) (files e) = (Inr (Some (stats, offs)), fs)"
  shows "compact crc e = (Inr True, e\<lparr>inner := remap_state closed offs (inner e), files := fs, reader := []\<rparr>) \<and> hm_ok offs"
  using assms
  by (auto simp: compact_with_offsets_def compact_def compact_phase1_def compact_phase2_def dest: phase1_offsets_ok
      split: prod.splits sum.splits option.splits)

text \<open>Where the payload of a task is before and after: in a closed segment, or behind them.\<close>

lemma log_of_segment: "(l, r) \<in> set (log_of segs) \<Longrightarrow> fst l \<in> fst ` set segs"
  by (force simp: log_of_def seg_log_def)

lemma compacted_record:
  assumes "\<forall>r \<in> set (concat (map snd closed)). wf_record r"
    and "hm_get (fst (replay (concat (map snd closed)))) k = Some p"
  shows "\<exists>off r. map_of (zip (map rec_id (compacted closed)) (map fst (layout 0 (compacted closed)))) k = Some off \<and>
    ((1, off), r) \<in> set (seg_log (1, compacted closed)) \<and> rec_id r = k \<and> user_payload r = p"
proof -
  let ?st = "replay (concat (map snd closed))"
  have inv: "replay_inv ?st" using assms(1) by (intro replay_inv_replay) simp
  obtain x where x: "hm_get (snd ?st) k = Some x" using replay_invD(2) [OF inv, of k] assms(2) by (cases "hm_get (snd ?st) k") auto
  have "map_of (map (\<lambda>r. (rec_id r, r)) (compacted closed)) k = Some (consolidate (fst ?st) k x)"
    using survivors_map_of [OF inv, of k] by (simp add: compacted_def x)
  then have "k \<in> set (map rec_id (compacted closed))" by (force dest: map_of_SomeD)
  then obtain off where off: "map_of (zip (map rec_id (compacted closed)) (map fst (layout 0 (compacted closed)))) k = Some off"
  proof -
    have "length (layout 0 rs) = length rs" for rs by (metis length_map map_snd_layout)
    then have "dom (map_of (zip (map rec_id (compacted closed)) (map fst (layout 0 (compacted closed))))) = set (map rec_id (compacted closed))"
      by (intro dom_map_of_zip) simp
    then show ?thesis using \<open>k \<in> set (map rec_id (compacted closed))\<close> that by blast
  qed
  then obtain r where r: "(off, r) \<in> set (layout 0 (compacted closed))" "rec_id r = k"
    unfolding zip_layout by (auto dest!: map_of_SomeD)
  have rin: "r \<in> set (compacted closed)" using r(1) by (metis image_eqI map_snd_layout set_map snd_conv)
  have "distinct (map rec_id (compacted closed))"
    using survivors_records [OF inv] replay_invD(1) [OF inv] by (simp add: compacted_def hm_ok_def hm_keys_def)
  then have "map_of (map (\<lambda>r. (rec_id r, r)) (compacted closed)) k = Some r"
    using rin r(2) by (intro map_of_is_SomeI) (auto simp: comp_def)
  then have "r = consolidate (fst ?st) k x" using survivors_map_of [OF inv, of k] by (simp add: compacted_def x)
  then have "user_payload r = p"
    using consolidate_same(5,6) [OF inv x] assms(2) user_payload_body by simp
  moreover have "((1, off), r) \<in> set (seg_log (1, compacted closed))" using r(1) by (force simp: seg_log_def)
  ultimately show ?thesis using off r(2) by blast
qed

lemma compact_serves:
  assumes "engine_inv crc log X e" "\<forall>x \<in> set log. length (rec_payload (snd x)) + 13 \<le> MAX_PAYLOAD_SIZE"
  shows "\<exists>b e' log'. compact crc e = (Inr b, e') \<and> wal_holds crc (wal (inner e'), files e') log' \<and>
    cache_fresh (files e') (reader e') \<and> wal (inner e') = wal (inner e) \<and> ready_queue (inner e') = ready_queue (inner e) \<and>
    leased (inner e') = leased (inner e) \<and> payload_cache (inner e') = payload_cache (inner e) \<and>
    (\<forall>k p. payload_map log k = Some p \<longrightarrow>
      (\<exists>l r. hm_get (data_index (inner e')) k = Some l \<and> (l, r) \<in> set log' \<and> user_payload r = p))"
proof -
  note d = engine_invD [OF assms(1)]
  obtain segs where segs: "wal_repr crc (wal (inner e)) (files e) segs" "log = log_of segs"
    using d(1) by (auto simp: wal_holds_def)
  obtain closed active rs where cl: "segs = closed @ [(active, rs)]"
    using wal_reprD(2) [OF segs(1)] by (metis rev_exhaust surj_pair)
  note repr = segs(1) [unfolded cl]
  note plan = plan_compaction_closed [OF repr]
  have lg: "log = log_of closed @ seg_log (active, rs)" using segs(2) by (simp add: cl log_of_def)
  have fits: "r = r'" if "(l, r) \<in> set log" "(l, r') \<in> set log" for l r r'
    using that wl.sorted_law [OF d(1)] by (intro eq_key_imp_eq_value [of log l]) (simp_all add: strict_sorted_iff)
  have old: "\<exists>l r. hm_get (data_index (inner e)) k = Some l \<and> (l, r) \<in> set log \<and> op_type r = Created \<and> rec_payload r = p \<and> rec_id r = k"
    if p: "payload_map log k = Some p" for k p
  proof -
    obtain l where l: "data_map log k = Some l" using p data_map_dom [of log k] by (cases "data_map log k") auto
    then show ?thesis using data_map_record [OF l] p d(8) [of k] by auto
  qed
  show ?thesis
  proof (cases "closed = []")
    case True
    then have "compact crc e = (Inr False, e)" using plan by (simp add: compact_def compact_phase1_def)
    moreover have "\<exists>l r. hm_get (data_index (inner e)) k = Some l \<and> (l, r) \<in> set log \<and> user_payload r = p"
      if "payload_map log k = Some p" for k p
      using old [OF that] user_payload_Created by blast
    ultimately show ?thesis using d(1,2) by blast
  next
    case False
    have recs: "map snd (log_of closed) = concat (map snd closed)" by (rule map_snd_log_of)
    have wf1: "log_wf (log_of closed)" using d(3) lg log_wf_prefix by simp
    have wfr: "\<forall>r \<in> set (concat (map snd closed)). wf_record r"
      using log_wf_record [OF wf1] unfolding recs [symmetric] by auto
    have "set (concat (map snd closed)) \<subseteq> snd ` set log" unfolding recs [symmetric] lg by auto
    then have "\<forall>r \<in> set (concat (map snd closed)). length (rec_payload r) + 13 \<le> MAX_PAYLOAD_SIZE"
      using assms(2) by blast
    then have stor: "\<forall>r \<in> set (compacted closed). storable r" by (rule compacted_storable)
    obtain stats offs fs where c: "compact_with_offsets crc (wal (inner e)) (files e) = (Inr (Some (stats, offs)), fs)"
      "wal_repr crc (wal (inner e)) fs [(1, compacted closed), (active, rs)]"
      "\<forall>k. hm_get offs k = map_of (zip (map rec_id (compacted closed)) (map fst (layout 0 (compacted closed)))) k"
      using compact_ok [OF repr False wfr stor] by blast
    let ?cs = "map fst closed" and ?log = "log_of [(1, compacted closed), (active, rs)]"
    define e' where "e' = e\<lparr>inner := remap_state ?cs offs (inner e), files := fs, reader := []\<rparr>"
    have e': "compact crc e = (Inr True, e')" and ok: "hm_ok offs"
      using compact_offsets [OF _ c(1)] plan False by (simp_all add: e'_def)
    have less: "s < active" if "s \<in> fst ` set closed" for s
      using that wal_reprD(3) [OF repr] by (auto simp: sorted_wrt_append)
    have new: "\<exists>l r. hm_get (data_index (inner e')) k = Some l \<and> (l, r) \<in> set ?log \<and> user_payload r = p"
      if p: "payload_map log k = Some p" for k p
    proof -
      obtain l r where l: "hm_get (data_index (inner e)) k = Some l" "(l, r) \<in> set log" "op_type r = Created" "rec_payload r = p" "rec_id r = k"
        using old [OF p] by blast
      have get: "hm_get (data_index (inner e')) k = Some (remapped ?cs offs k l)"
        by (simp add: e'_def remap_state_get [OF ok] l(1))
      show ?thesis
      proof (cases "k \<in> log_id ` set (log_of closed)")
        case True
        then have "data_map (log_of closed) k = Some l"
          using data_map_prefix [of "log_of closed" "seg_log (active, rs)" k l] d(3) d(8) [of k] l(1) lg by simp
        then obtain x where x: "(l, x) \<in> set (log_of closed)" "payload_map (log_of closed) k = Some (rec_payload x)"
          using data_map_record by blast
        have "x = r" using x(1) l(2) by (intro fits [of l]) (simp_all add: lg)
        then have "hm_get (fst (replay (concat (map snd closed)))) k = Some p"
          using x(2) l(4) replay_payloads [OF wf1, of k] by (simp add: recs)
        then obtain off r' where o: "hm_get offs k = Some off" "((1, off), r') \<in> set (seg_log (1, compacted closed))" "user_payload r' = p"
          using compacted_record [OF wfr] c(3) by metis
        have "fst l \<in> set ?cs" using log_of_segment [OF x(1)] by simp
        then have "remapped ?cs offs k l = (1, off)" by (simp add: remapped_def o(1))
        then show ?thesis using get o(2,3) by auto
      next
        case False
        then have act: "(l, r) \<in> set (seg_log (active, rs))" using l(2,5) lg by force
        then have "fst l = active" by (auto simp: seg_log_def)
        then have "remapped ?cs offs k l = l" using less by (auto simp: remapped_def)
        then show ?thesis using get act user_payload_Created [OF l(3)] l(4) by auto
      qed
    qed
    have "wal_holds crc (wal (inner e'), files e') ?log"
      using c(2) unfolding wal_holds_def e'_def by (auto simp: remap_state_fields)
    then show ?thesis
      using e' new by (intro exI [of _ True] exI [of _ e'] exI [of _ ?log]) (simp add: e'_def remap_state_fields)
  qed
qed

section \<open>Popping without the engine's invariant\<close>

text \<open>
  What \<open>pop_and_lease\<close> needs: a log, a queue and the location of a readable record. The
  payload it returns is the cached one or the user's part of that record.
\<close>

lemma pop_served:
  assumes "wal_holds crc (wal (inner e), files e) log" "cache_fresh (files e) (reader e)" "pbq_inv (ready_queue (inner e))"
    and "delivery (ready_queue (inner e)) = t # ts" "has_room e"
    and "hm_get (data_index (inner e)) (task_id t) = Some dloc" "(dloc, r) \<in> set log"
    and "\<forall>p. cache_lookup (payload_cache (inner e)) (task_id t) = Some p \<longrightarrow> p = user_payload r"
  shows "\<exists>e'. pop_and_lease crc AppendOk now c ttl e =
    (Inr (Some (new_record (task_id t) Created (task_priority t) (user_payload r), task_retries t)), e')"
proof -
  define lr where "lr = new_record (task_id t) Leased (task_priority t) (lease_bytes c (now + ttl) (task_retries t))"
  obtain q where q: "pbq_pop (ready_queue (inner e)) = Inr (Some t, q)" using bq.pop_Cons [OF assms(3,4)] by blast
  have st: "storable lr" by (simp add: storable_def lr_def MAX_PAYLOAD_SIZE_def)
  obtain l w fs where app: "wal_append crc AppendOk lr (wal (inner e)) (files e) = (Inr l, w, fs)"
    "wal_holds crc (w, fs) (log @ [(l, lr)])"
    using wl.append_law [OF assms(1) st] assms(5) by (auto simp: wal_room_def split: prod.splits)
  have fresh: "cache_fresh fs (reader e)" by (rule cache_fresh_any_append [OF assms(2) app(1)])
  let ?cached = "cache_lookup (payload_cache (inner e)) (task_id t)"
  define e1 where "e1 = e\<lparr>inner := (inner e)\<lparr>ready_queue := q, wal := w, index := hm_insert (task_id t) l (index (inner e)),
    leased := hm_insert (task_id t) (lease_info c (now + ttl) (task_retries t) (task_priority t)) (leased (inner e)),
    payload_cache := snd (cache_get (payload_cache (inner e)) (task_id t))\<rparr>, files := fs\<rparr>"
  have lock: "pop_locked crc AppendOk now c ttl e =
      (Inr (Some \<lparr>popped = t, data_loc = dloc, cached_payload = ?cached\<rparr>), e1)"
    using app(1) q assms(6) by (simp add: pop_locked_def log_append_def Let_def lr_def e1_def) (simp add: case_prod_unfold)
  show ?thesis
  proof (cases ?cached)
    case (Some p)
    then show ?thesis using lock assms(8) by (simp add: pop_and_lease_def pop_start_def)
  next
    case None
    obtain cache where "read_at crc fs (reader e) (fst dloc) (snd dloc) = (Inr (Some r), cache)"
      using wl.read_law [OF app(2), of "reader e" dloc r] fresh assms(7) by auto
    then have "read_at crc (files e1) (reader e1) (fst dloc) (snd dloc) = (Inr (Some r), cache)" by (simp add: e1_def)
    then show ?thesis using lock None pop_run_Reading [of crc e1 dloc r cache 4 t] by (simp add: pop_and_lease_def pop_start_def)
  qed
qed

section \<open>An engine with a closed segment\<close>

lemma opened_dir:
  assumes "wal_repr crc w fs segs" "log_wf (log_of segs)" "\<forall>x \<in> set (log_of segs). log_id x \<noteq> - 1"
  shows "\<exists>e. engine_open crc now fs = Inr e \<and> engine_inv crc (log_of segs) (expired_ids now (log_of segs)) e \<and>
    active_segment_id (wal (inner e)) = fst (last segs)"
proof -
  obtain w' fs' where o: "wal_open crc fs None = (w', fs')" "wal_repr crc w' fs' segs"
    using wal_open_spec [OF wal_repr_disk_holds [OF assms(1)], of None] by blast
  then have "wal_holds crc (wal_open crc fs None) (log_of segs)" unfolding wal_holds_def by auto
  then obtain e where e: "engine_open crc now fs = Inr e" "engine_inv crc (log_of segs) (expired_ids now (log_of segs)) e"
    using engine_open_spec [OF _ assms(2,3)] by blast
  then show ?thesis using engine_open_wal [OF e(1)] wal_reprD(6) [OF o(2)] o(1) by auto
qed

text \<open>Task 7 is leased to consumer 9 until 100, task 8 is ready; both records are in segment 1.\<close>

definition demo_segs :: "(u64 \<times> Record list) list" where
  "demo_segs = [(1, [new_record 7 Created 3 [42], new_record 7 Leased 3 (lease_bytes 9 100 0), new_record 8 Created 4 [43]]), (2, [])]"

definition demo_rotated :: Engine where
  "demo_rotated = projr (engine_open byte_sum 0 (mk_fs byte_sum demo_segs))"

lemma demo_log_wf: "log_wf (log_of demo_segs)"
proof -
  have "log_wf ((([] @ [(l1, new_record 7 Created 3 [42])]) @ [(l2, new_record 7 Leased 3 (lease_bytes 9 100 0))]) @ [(l3, new_record 8 Created 4 [43])])"
    for l1 l2 l3
    by (intro log_wf.intros)
      (simp_all add: wf_record_def retries_ok_def ready_ref_def MAX_RETRIES_def lease_info_def data_step_def latest_map_def data_map_def)
  then show ?thesis by (simp add: demo_segs_def log_of_def seg_log_def)
qed

lemma demo_rotated:
  "engine_open byte_sum 0 (mk_fs byte_sum demo_segs) = Inr demo_rotated"
  "engine_inv byte_sum (log_of demo_segs) {} demo_rotated" "has_room demo_rotated"
proof -
  have "wal_repr byte_sum (mk_wal byte_sum 1 demo_segs) (mk_fs byte_sum demo_segs) demo_segs"
    unfolding demo_segs_def by (rule mk_fs_repr) (simp_all add: storable_def MAX_PAYLOAD_SIZE_def)
  moreover have "\<forall>x \<in> set (log_of demo_segs). log_id x \<noteq> - 1" by (simp add: demo_segs_def log_of_def seg_log_def)
  ultimately obtain e where e: "engine_open byte_sum 0 (mk_fs byte_sum demo_segs) = Inr e"
      "engine_inv byte_sum (log_of demo_segs) (expired_ids 0 (log_of demo_segs)) e" "active_segment_id (wal (inner e)) = fst (last demo_segs)"
    using opened_dir [OF _ demo_log_wf] by blast
  then show o: "engine_open byte_sum 0 (mk_fs byte_sum demo_segs) = Inr demo_rotated" by (simp add: demo_rotated_def)
  have "expired_ids 0 (log_of demo_segs) = {}"
    by (auto simp: expired_ids_def demo_segs_def log_of_def seg_log_def latest_map_def lease_over_def lease_info_def
        parse_lease_bytes lease_of_def split: if_splits option.splits)
  then show "engine_inv byte_sum (log_of demo_segs) {} demo_rotated" "has_room demo_rotated"
    using e o by (simp_all add: demo_segs_def)
qed

section \<open>Properties\<close>

text \<open>
  C6. Compaction is invisible to the clients of a running engine: it succeeds, the leases and
  the order of the ready tasks stay, and the next \<open>pop_and_lease\<close> returns the first ready
  task with exactly the payload that was pushed, read from the consolidated segment if it is
  not in the cache.
\<close>

theorem compaction_invisible:
  assumes "refines crc now e s" "has_room e"
    and "\<forall>log. wal_holds crc (wal (inner e), files e) log \<longrightarrow> (\<forall>x \<in> set log. length (rec_payload (snd x)) + 13 \<le> MAX_PAYLOAD_SIZE)"
  shows "\<exists>b e'. compact crc e = (Inr b, e') \<and> delivery (ready_queue (inner e')) = s_ready s \<and>
    (\<forall>k. hm_get (leased (inner e')) k = s_leased s k) \<and>
    (case s_ready s of
       [] \<Rightarrow> pop_and_lease crc AppendOk now c ttl e' = (Inr None, e')
     | t # ts \<Rightarrow> \<exists>e'' p. s_payload s (task_id t) = Some p \<and> pop_and_lease crc AppendOk now c ttl e' =
         (Inr (Some (new_record (task_id t) Created (task_priority t) p, task_retries t)), e''))"
proof -
  obtain log X where i: "engine_inv crc log X e" "X \<subseteq> expired_ids now log" "s = spec_of X log"
    using assms(1) unfolding refines_def by blast
  note d = engine_invD [OF i(1)]
  obtain b e' log' where c: "compact crc e = (Inr b, e')" "wal_holds crc (wal (inner e'), files e') log'"
    "cache_fresh (files e') (reader e')" "wal (inner e') = wal (inner e)" "ready_queue (inner e') = ready_queue (inner e)"
    "leased (inner e') = leased (inner e)" "payload_cache (inner e') = payload_cache (inner e)"
    "\<forall>k p. payload_map log k = Some p \<longrightarrow>
      (\<exists>l r. hm_get (data_index (inner e')) k = Some l \<and> (l, r) \<in> set log' \<and> user_payload r = p)"
    using compact_serves [OF i(1)] assms(3) d(1) by blast
  note m = refines_memory [OF assms(1)]
  have "case s_ready s of
       [] \<Rightarrow> pop_and_lease crc AppendOk now c ttl e' = (Inr None, e')
     | t # ts \<Rightarrow> \<exists>e'' p. s_payload s (task_id t) = Some p \<and> pop_and_lease crc AppendOk now c ttl e' =
         (Inr (Some (new_record (task_id t) Created (task_priority t) p, task_retries t)), e'')"
  proof (cases "s_ready s")
    case Nil
    then have "pbq_pop (ready_queue (inner e')) = Inr (None, ready_queue (inner e'))"
      using m(1,3) c(5) by (intro bq.pop_Nil) simp_all
    then show ?thesis using Nil by (simp add: pop_and_lease_def pop_locked_def)
  next
    case (Cons t ts)
    then have "t \<in> set (ready_refs X log)" by (metis i(3) list.set_intros(1) set_sort spec_of_def task_spec.select_convs(1))
    then obtain p where p: "payload_map log (task_id t) = Some p"
      using ready_live(1) [OF d(3)] data_map_dom [of log "task_id t"] by blast
    then obtain l r where l: "hm_get (data_index (inner e')) (task_id t) = Some l" "(l, r) \<in> set log'" "user_payload r = p"
      using c(8) by blast
    have "\<forall>p'. cache_lookup (payload_cache (inner e')) (task_id t) = Some p' \<longrightarrow> p' = user_payload r"
      using pc.coherentD [OF d(10)] p l(3) c(7) by auto
    then have "\<exists>e''. pop_and_lease crc AppendOk now c ttl e' =
        (Inr (Some (new_record (task_id t) Created (task_priority t) p, task_retries t)), e'')"
      using pop_served [OF c(2,3) _ _ _ l(1,2)] m(1,3) c(4,5) Cons assms(2) l(3) by simp
    then show ?thesis using Cons p by (simp add: i(3) spec_of_def)
  qed
  then show ?thesis using c(1,5,6) m(1,2) by auto
qed

theorem compaction_invisible_witness:
  "\<exists>b e' e'' p. compact byte_sum demo_rotated = (Inr b, e') \<and>
    hm_get (leased (inner e')) 7 = Some (lease_info 9 100 0 3) \<and>
    s_payload (spec_of {} (log_of demo_segs)) 8 = Some p \<and>
    pop_and_lease byte_sum AppendOk 0 9 30 e' = (Inr (Some (new_record 8 Created 4 p, 0)), e'')"
proof -
  let ?s = "spec_of {} (log_of demo_segs)"
  have r: "refines byte_sum 0 demo_rotated ?s" by (rule refinesI [OF demo_rotated(2)]) simp_all
  have small: "\<forall>log. wal_holds byte_sum (wal (inner demo_rotated), files demo_rotated) log \<longrightarrow>
      (\<forall>x \<in> set log. length (rec_payload (snd x)) + 13 \<le> MAX_PAYLOAD_SIZE)"
  proof (intro allI impI)
    fix log assume "wal_holds byte_sum (wal (inner demo_rotated), files demo_rotated) log"
    then have "log = log_of demo_segs" using wl.holds_unique engine_invD(1) [OF demo_rotated(2)] by blast
    then show "\<forall>x \<in> set log. length (rec_payload (snd x)) + 13 \<le> MAX_PAYLOAD_SIZE"
      by (simp add: demo_segs_def log_of_def seg_log_def MAX_PAYLOAD_SIZE_def)
  qed
  have s: "s_ready ?s = [task_ref 8 4 0]" "s_leased ?s 7 = Some (lease_info 9 100 0 3)"
    by (simp_all add: spec_of_def demo_segs_def log_of_def seg_log_def ready_refs_def map_filter_simps ready_ref_def
        lease_map_def latest_map_def)
  show ?thesis using compaction_invisible [OF r demo_rotated(3) small, of 9 30] s by auto
qed

end
