(* ===== verification/Engine_Faults.thy ===== *)
theory Engine_Faults
  imports Engine_Compaction
begin

text \<open>
  Three ways in which the engine breaks its promise: a restart after a compaction loses the
  payload of a task that failed in between, a restart after a compaction reuses ids, and the
  expiration worker brings back a task that was acknowledged while it was not looking.
\<close>

section \<open>Opening and compacting a directory\<close>

text \<open>The state that \<open>recover\<close> builds from a log.\<close>

definition recovered :: "u64 \<Rightarrow> Wal \<Rightarrow> log \<Rightarrow> EngineState" where
  "recovered now w log =
     foldl (recover_last now) (foldl recover_pass1 (new_state w DEFAULT_PAYLOAD_CACHE_CAPACITY) log) (latest log)"

lemma engine_open_fold:
  assumes "wal_repr crc w fs segs" "\<forall>x \<in> set (log_of segs). log_id x \<noteq> - 1"
  shows "\<exists>w' fs' cache. engine_open crc now fs =
      Inr \<lparr>inner = recovered now w' (log_of segs),
        files = fs', reader = cache, callbacks = 0\<rparr> \<and>
    wal_repr crc w' fs' segs \<and> cache_fresh fs' cache"
proof -
  obtain w' fs' where o: "wal_open crc fs None = (w', fs')" "wal_repr crc w' fs' segs"
    using wal_open_spec [OF wal_repr_disk_holds [OF assms(1)], of None] by blast
  then have h: "wal_holds crc (w', fs') (log_of segs)" unfolding wal_holds_def by auto
  obtain cache where "recover crc now fs' [] (new_state w' DEFAULT_PAYLOAD_CACHE_CAPACITY) =
      (Inr (recovered now w' (log_of segs), cache), fs')"
      "cache_fresh fs' cache"
    using recover_fold [OF h assms(2)] unfolding recovered_def by blast
  then show ?thesis using o by (auto simp: engine_open_def)
qed

lemma recovered_wal: "wal (recovered now w log) = w"
proof -
  have "wal (foldl (recover_last now) st xs) = wal st" for st xs
    by (induction xs arbitrary: st) (simp_all add: recover_last_def recover_entry_def Let_def)
  then show ?thesis by (simp add: recovered_def recover_pass1_wal new_state_def)
qed

lemma compact_closed:
  assumes "wal_repr crc (wal (inner e)) (files e) (closed @ [(active, rs)])" "closed \<noteq> []"
    and "\<forall>r \<in> set (concat (map snd closed)). wf_record r \<and> length (rec_payload r) + 13 \<le> MAX_PAYLOAD_SIZE"
  shows "\<exists>offs fs. compact crc e = (Inr True, e\<lparr>inner := remap_state (map fst closed) offs (inner e), files := fs, reader := []\<rparr>) \<and>
    wal_repr crc (wal (inner e)) fs [(1, compacted closed), (active, rs)]"
proof -
  have wf: "\<forall>r \<in> set (concat (map snd closed)). wf_record r"
    and bd: "\<forall>r \<in> set (concat (map snd closed)). length (rec_payload r) + 13 \<le> MAX_PAYLOAD_SIZE" using assms(3) by blast+
  obtain stats offs fs where c: "compact_with_offsets crc (wal (inner e)) (files e) = (Inr (Some (stats, offs)), fs)"
    "wal_repr crc (wal (inner e)) fs [(1, compacted closed), (active, rs)]"
    using compact_ok [OF assms(1,2) wf compacted_storable [OF bd]] by blast
  then show ?thesis
    using compact_offsets [OF _ c(1)] plan_compaction_closed [OF assms(1)] assms(2) by auto
qed

text \<open>A directory with one closed segment is opened and compacted.\<close>

lemma opened_and_compacted:
  assumes "\<forall>r \<in> set rs. wf_record r \<and> length (rec_payload r) + 13 \<le> MAX_PAYLOAD_SIZE \<and> rec_id r \<noteq> - 1"
  shows "\<exists>w fs cache offs fs1 e. engine_open crc now (mk_fs crc [(1, rs), (2, [])]) = Inr e \<and>
    e = \<lparr>inner = recovered now w (seg_log (1, rs)),
      files = fs, reader = cache, callbacks = 0\<rparr> \<and>
    compact crc e = (Inr True, e\<lparr>inner := remap_state [1] offs (inner e), files := fs1, reader := []\<rparr>) \<and>
    wal (inner e) = w \<and> wal_repr crc w fs1 [(1, compacted [(1, rs)]), (2, [])]"
proof -
  let ?segs = "[(1 :: u64, rs)] @ [(2, [])]"
  have log: "log_of ?segs = seg_log (1, rs)" by (simp add: log_of_def seg_log_def)
  have "map snd (seg_log (1, rs)) = rs" using map_snd_log_of [of ?segs] log by simp
  then have ids: "\<forall>x \<in> set (log_of ?segs). log_id x \<noteq> - 1"
    using assms unfolding log by (metis image_eqI set_map)
  have "wal_repr crc (mk_wal crc 1 ?segs) (mk_fs crc ?segs) ?segs"
    by (rule mk_fs_repr) (use assms in \<open>auto simp: storable_def\<close>)
  then obtain w fs cache e where e: "engine_open crc now (mk_fs crc ?segs) = Inr e"
      "e = \<lparr>inner = recovered now w (log_of ?segs),
        files = fs, reader = cache, callbacks = 0\<rparr>" "wal_repr crc w fs ?segs"
    using engine_open_fold [OF _ ids] by blast
  have w: "wal (inner e) = w" "files e = fs" by (simp_all add: e(2) recovered_wal)
  then show ?thesis
    using compact_closed [of crc e "[(1, rs)]" 2 "[]"] e assms unfolding log by fastforce
qed

lemmas compacted_eval = compacted_def replay_def compact_step_def survivors_def consolidate_def Let_def
  hm_insert_def hm_remove_def hm_or_insert_def hm_contains_def hm_get_def hm_keys_def

lemma compacted_done:
  "compacted [(1, [new_record k Created p b, new_record k Leased p l, new_record k Acked p a])] = []"
  by (simp add: compacted_eval)

lemma compacted_lease:
  "length m = 13 \<Longrightarrow> compacted [(1, [new_record k Created p b, new_record k Leased p m])] = [new_record k Leased p (m @ b)]"
  by (simp add: compacted_eval)

section \<open>The payload of a task that failed after a compaction\<close>

lemmas recovery_eval = recovered_def recover_last_def recover_entry_def recover_pass1_def new_state_def Let_def hm_contains_def
  parse_lease_bytes lease_info_def hm_insert_def first_byte_def

lemma nacked_reopened:
  assumes "wal_holds crc (w, fs) [(l0, new_record k Leased p b), (l, new_record k Nacked p [n])]" "k \<noteq> - 1" "active_segment_id w \<noteq> - 1"
  shows "\<exists>e e'. engine_open crc now fs = Inr e \<and>
    pop_and_lease crc AppendOk now c ttl e = (Inr (Some (new_record k Created p [], n)), e')"
proof -
  let ?log = "[(l0, new_record k Leased p b), (l, new_record k Nacked p [n])]"
  obtain segs where segs: "wal_repr crc w fs segs" "log_of segs = ?log" using assms(1) unfolding wal_holds_def by auto
  then obtain w' fs' cache e where e: "engine_open crc now fs = Inr e"
      "e = \<lparr>inner = recovered now w' ?log,
        files = fs', reader = cache, callbacks = 0\<rparr>"
      "wal_repr crc w' fs' segs" "cache_fresh fs' cache"
    using engine_open_fold [OF segs(1), of now] assms(2) by (auto simp: segs(2))
  have we: "wal (inner e) = w'" "files e = fs'" "reader e = cache" "hm_get (data_index (inner e)) k = Some l"
      "ready_queue (inner e) = pbq_push pbq_new (task_ref k p n)" "payload_cache (inner e) = cache_new DEFAULT_PAYLOAD_CACHE_CAPACITY"
    by (simp_all add: e(2) recovery_eval hm_get_def)
  have q: "pbq_inv (ready_queue (inner e))" "delivery (ready_queue (inner e)) = [task_ref k p n]"
    using bq.invar_push [OF bq.invar_empty] bq.list_push [OF bq.invar_empty] by (simp_all add: we bq.list_empty)
  have "wal_holds crc (wal (inner e), files e) ?log" using e(3) segs(2) unfolding wal_holds_def we by auto
  moreover have "has_room e" using wal_reprD(6) [OF segs(1)] wal_reprD(6) [OF e(3)] assms(3) by (simp add: we)
  ultimately show ?thesis
    using pop_served [of crc e ?log "task_ref k p n" "[]" l "new_record k Nacked p [n]" now c ttl] e(1,4) q we
    by (simp add: user_payload_def cache_new_def hm_get_def)
qed

text \<open>
  C35. A restart after a compaction can lose a payload. Task 7 is leased when the log is
  compacted, so its payload moves into the lease record; it is then returned by its consumer,
  which writes a record without payload. When the engine is opened again the task is ready
  with the right priority and retries, but \<open>pop_and_lease\<close> returns an empty payload instead
  of the one that was pushed.
\<close>

theorem compaction_restart_loses_payload:
  "\<exists>e e1 e2 e3 e4. engine_open crc 0 (mk_fs crc [(1, [new_record 7 Created 3 [42], new_record 7 Leased 3 (lease_bytes 9 100 0)]), (2, [])]) = Inr e \<and>
     compact crc e = (Inr True, e1) \<and> nack crc AppendOk 7 9 e1 = (Inr (), e2) \<and> engine_open crc 0 (files e2) = Inr e3 \<and>
     pop_and_lease crc AppendOk 0 9 30 e3 = (Inr (Some (new_record 7 Created 3 [], 1)), e4)"
proof -
  let ?rs = "[new_record 7 Created 3 [42], new_record 7 Leased 3 (lease_bytes 9 100 0)]"
  have small: "\<forall>r \<in> set ?rs. wf_record r \<and> length (rec_payload r) + 13 \<le> MAX_PAYLOAD_SIZE \<and> rec_id r \<noteq> - 1"
    by (simp add: wf_record_def MAX_PAYLOAD_SIZE_def)
  obtain w fs cache offs fs1 e where e: "engine_open crc 0 (mk_fs crc [(1, ?rs), (2, [])]) = Inr e"
      "e = \<lparr>inner = recovered 0 w (seg_log (1, ?rs)),
        files = fs, reader = cache, callbacks = 0\<rparr>"
    and c: "compact crc e = (Inr True, e\<lparr>inner := remap_state [1] offs (inner e), files := fs1, reader := []\<rparr>)"
      "wal (inner e) = w" "wal_repr crc w fs1 [(1, compacted [(1, ?rs)]), (2, [])]"
    using opened_and_compacted [OF small] by blast
  define e1 where "e1 = e\<lparr>inner := remap_state [1] offs (inner e), files := fs1, reader := []\<rparr>"
  have w1: "wal (inner e1) = w" "leased (inner e1) = [(7, lease_info 9 100 0 3)]" "files e1 = fs1"
    by (simp_all add: e1_def remap_state_fields e(2) c(2)) (simp_all add: seg_log_def recovery_eval)
  let ?m = "new_record 7 Leased 3 (lease_bytes 9 100 0 @ [42])" and ?n = "new_record 7 Nacked 3 [1]"
  have h1: "wal_holds crc (w, fs1) [((1, 0), ?m)]"
    using c(3) unfolding wal_holds_def by (auto simp: compacted_lease log_of_def seg_log_def)
  have room: "active_segment_id w = 2" using wal_reprD(6) [OF c(3)] by simp
  obtain l w2 fs2 where app: "wal_append crc AppendOk ?n w fs1 = (Inr l, w2, fs2)" "wal_holds crc (w2, fs2) ([((1, 0), ?m)] @ [(l, ?n)])"
    using wl.append_law [OF h1, of ?n] room by (auto simp: wal_room_def storable_def MAX_PAYLOAD_SIZE_def split: prod.splits)
  have "\<exists>e2. nack crc AppendOk 7 9 e1 = (Inr (), e2) \<and> files e2 = fs2"
    using app(1) by (simp add: nack_def w1 process_task_failure_def log_append_def Let_def MAX_RETRIES_def lease_info_def hm_get_def notify_def word_le_nat_alt)
  then obtain e2 where e2: "nack crc AppendOk 7 9 e1 = (Inr (), e2)" "files e2 = fs2" by blast
  have "active_segment_id w2 \<noteq> - 1" using append_active [OF app(1)] room by (auto simp: unsigned_minus_1_eq_mask mask_eq_exp_minus_1)
  then obtain e3 e4 where "engine_open crc 0 fs2 = Inr e3"
      "pop_and_lease crc AppendOk 0 9 30 e3 = (Inr (Some (new_record 7 Created 3 [], 1)), e4)"
    using nacked_reopened [of crc w2 fs2 "(1, 0)" 7 3 "lease_bytes 9 100 0 @ [42]" l 1 0 9 30] app(2) by auto
  then show ?thesis using e(1) c(1) e2 by (auto simp: e1_def)
qed

section \<open>Ids after a compaction\<close>

text \<open>
  C38. A restart after a compaction reuses ids: when the acknowledged tasks have left the log,
  \<open>recover\<close> no longer sees their ids, and \<open>push\<close> hands out id 1 for the second time.
\<close>

theorem compaction_restart_reuses_id:
  "\<exists>e e1 e2 e3. engine_open crc 0 (mk_fs crc [(1, [new_record 1 Created 3 [42], new_record 1 Leased 3 (lease_bytes 9 100 0), new_record 1 Acked 3 []]), (2, [])]) = Inr e \<and>
     next_id (inner e) = 2 \<and> compact crc e = (Inr True, e1) \<and> engine_open crc 0 (files e1) = Inr e2 \<and>
     push crc AppendOk [43] 0 e2 = (Inr 1, e3)"
proof -
  let ?r = "[new_record 1 Created 3 [42], new_record 1 Leased 3 (lease_bytes 9 100 0), new_record 1 Acked 3 []]"
  have small: "\<forall>r \<in> set ?r. wf_record r \<and> length (rec_payload r) + 13 \<le> MAX_PAYLOAD_SIZE \<and> rec_id r \<noteq> - 1"
    by (simp add: wf_record_def MAX_PAYLOAD_SIZE_def)
  obtain w fs cache offs fs1 e where e: "engine_open crc 0 (mk_fs crc [(1, ?r), (2, [])]) = Inr e"
      "e = \<lparr>inner = recovered 0 w (seg_log (1, ?r)),
        files = fs, reader = cache, callbacks = 0\<rparr>"
    and c: "compact crc e = (Inr True, e\<lparr>inner := remap_state [1] offs (inner e), files := fs1, reader := []\<rparr>)"
      "wal_repr crc w fs1 [(1, []), (2, [])]"
    using opened_and_compacted [OF small] unfolding compacted_done by blast
  have we: "next_id (inner e) = 2" by (simp add: e(2) seg_log_def recovery_eval)
  obtain w2 fs2 cache2 where e2: "engine_open crc 0 fs1 = Inr \<lparr>inner = new_state w2 DEFAULT_PAYLOAD_CACHE_CAPACITY, files = fs2, reader = cache2, callbacks = 0\<rparr>"
      "wal_repr crc w2 fs2 [(1, []), (2, [])]"
    using engine_open_fold [OF c(2), of 0] by (auto simp: log_of_def seg_log_def recovered_def)
  have h: "wal_holds crc (w2, fs2) (log_of [(1, []), (2, [])])" using e2(2) unfolding wal_holds_def by auto
  obtain l w3 fs3 where "wal_append crc AppendOk (new_record 1 Created 0 [43]) w2 fs2 = (Inr l, w3, fs3)"
    using wl.append_law [OF h, of "new_record 1 Created 0 [43]"] wal_reprD(6) [OF e2(2)]
    by (auto simp: wal_room_def storable_def MAX_PAYLOAD_SIZE_def split: prod.splits)
  then have "fst (push crc AppendOk [43] 0 \<lparr>inner = new_state w2 DEFAULT_PAYLOAD_CACHE_CAPACITY, files = fs2, reader = cache2, callbacks = 0\<rparr>) = Inr 1"
    by (simp add: push_def log_append_def new_state_def Let_def)
  then show ?thesis using e(1) we c(1) e2(1) by (auto simp: prod_eq_iff)
qed

section \<open>An acknowledged task that comes back\<close>

text \<open>A ready task without a payload cannot be handed out.\<close>

lemma pop_missing:
  assumes "wal_holds crc (wal (inner e), files e) log" "has_room e" "pbq_inv (ready_queue (inner e))"
    and "delivery (ready_queue (inner e)) = t # ts" "hm_get (data_index (inner e)) (task_id t) = None"
  shows "\<exists>e'. pop_and_lease crc AppendOk now c ttl e = (Inl (IoErr NotFound ''Missing data offset''), e')"
proof -
  let ?r = "new_record (task_id t) Leased (task_priority t) (lease_bytes c (now + ttl) (task_retries t))"
  obtain q where q: "pbq_pop (ready_queue (inner e)) = Inr (Some t, q)" using bq.pop_Cons [OF assms(3,4)] by blast
  obtain l w fs where "wal_append crc AppendOk ?r (wal (inner e)) (files e) = (Inr l, w, fs)"
    using wl.append_law [OF assms(1), of ?r] assms(2) by (auto simp: wal_room_def storable_def MAX_PAYLOAD_SIZE_def split: prod.splits)
  then show ?thesis using q assms(5) by (simp add: pop_and_lease_def pop_locked_def log_append_def Let_def)
qed

text \<open>The round of the worker on a state in which its task is finished.\<close>

lemma stale_failure:
  assumes "engine_inv crc log X e" "has_room e" "data_map log k = None" "lease_map X log k = None" "n + 1 < MAX_RETRIES" "ready_refs X log = []"
  shows "\<exists>e'. process_expired crc (\<lambda>_. AppendOk) [(k, pr, n)] e = e' \<and> delivery (ready_queue (inner e')) = [task_ref k pr (n + 1)] \<and>
    pbq_inv (ready_queue (inner e')) \<and> hm_get (data_index (inner e')) k = None \<and>
    unat (active_segment_id (wal (inner e'))) \<le> Suc (unat (active_segment_id (wal (inner e)))) \<and>
    (\<exists>log'. wal_holds crc (wal (inner e'), files e') log')"
proof -
  note d = engine_invD [OF assms(1)]
  let ?r = "new_record k Expired pr [n + 1]"
  obtain l w fs where a: "log_append crc AppendOk ?r e = (Inr l, e\<lparr>inner := (inner e)\<lparr>wal := w\<rparr>, files := fs\<rparr>)"
      "wal_holds crc (w, fs) (log @ [(l, ?r)])"
    using log_append_ok [OF assms(1), of ?r] assms(2) by (auto simp: storable_def MAX_PAYLOAD_SIZE_def)
  have "unat (active_segment_id w) \<le> Suc (unat (active_segment_id (wal (inner e))))" using log_append_active [OF a(1)] by simp
  moreover have "pbq_inv (pbq_push (ready_queue (inner e)) t)" "delivery (pbq_push (ready_queue (inner e)) t) = [t]" for t
    using bq.invar_push [OF d(4)] bq.list_push [OF d(4)] d(5) assms(6) by simp_all
  ultimately show ?thesis
    using a assms(5) d(8) [of k] assms(3) by (auto simp: process_expired_def process_task_failure_def Let_def notify_def not_le)
qed

lemma hm_single:
  assumes "hm_ok m" "\<And>j. hm_get m j = (if j = k then Some v else None)"
  shows "m = [(k, v)]"
proof -
  have keys: "fst ` set m = {k}"
    using assms(2) by (force simp: hm_get_def dom_map_of_conv_image_fst [symmetric] split: if_splits)
  then have "length m = 1" using assms(1) distinct_card [of "map fst m"] by (simp add: hm_ok_def)
  then obtain x where "m = [x]" by (auto simp: length_Suc_conv)
  then show ?thesis using assms(2) [of k] by (cases x) (simp add: hm_get_def split: if_splits)
qed

text \<open>
  C37. The expiration worker can bring an acknowledged task back: it collects the expired
  leases and releases the lock, the consumer acknowledges its task successfully, and the
  worker then processes its list without looking at the leases again. The finished task is
  ready again, and the next \<open>pop_and_lease\<close> fails because its payload is gone.
\<close>

theorem expired_task_resurrected:
  assumes "refines crc t e s" "room_for 3 e" "s_leased s = [k \<mapsto> li]" "s_ready s = []"
    and "consumer_id li = c" "expire_timestamp li \<le> now" "lease_retries li + 1 < MAX_RETRIES"
  shows "\<exists>e1 e2 e3. ack crc AppendOk k c e = (Inr (), e1) \<and> process_expired crc (\<lambda>_. AppendOk) (collect_expired now e) e1 = e2 \<and>
    delivery (ready_queue (inner e2)) = [task_ref k (lease_priority li) (lease_retries li + 1)] \<and>
    pop_and_lease crc AppendOk now c' ttl e2 = (Inl (IoErr NotFound ''Missing data offset''), e3)"
proof -
  obtain e1 where a: "ack crc AppendOk k c e = (Inr (), e1)" "refines crc t e1 (spec_finish k s)"
    using ack_sim [OF assms(1) _ _ assms(5), of k] room_for_has_room [where n = 2 and e = e] assms(2,3) by auto
  obtain log X where i: "engine_inv crc log X e1" "spec_finish k s = spec_of X log" using a(2) unfolding refines_def by blast
  have "payload_map log = s_payload (spec_finish k s)" "lease_map X log = s_leased (spec_finish k s)"
      "sort_key delivery_key (ready_refs X log) = s_ready (spec_finish k s)"
    by (simp_all add: i(2) spec_of_def)
  then have spec: "payload_map log k = None" "lease_map X log k = None" "sort_key delivery_key (ready_refs X log) = []"
    using assms(4) by (simp_all add: spec_finish_def)
  then have idle: "data_map log k = None" "ready_refs X log = []" using data_map_dom [of log k] by (auto dest: arg_cong [of _ _ length])
  have r1: "room_for 2 e1" using ack_active [OF a(1)] assms(2) by simp
  have "hm_get (leased (inner e)) j = (if j = k then Some li else None)" for j
    using refines_memory(2) [OF assms(1), of j] assms(3) by simp
  moreover have "hm_ok (leased (inner e))" using assms(1) engine_invD(6) unfolding refines_def by blast
  ultimately have "leased (inner e) = [(k, li)]" by (rule hm_single [rotated])
  then have exp: "collect_expired now e = [(k, lease_priority li, lease_retries li)]" using assms(6) by (simp add: collect_expired_def)
  obtain e2 where e2: "process_expired crc (\<lambda>_. AppendOk) [(k, lease_priority li, lease_retries li)] e1 = e2"
      "delivery (ready_queue (inner e2)) = [task_ref k (lease_priority li) (lease_retries li + 1)]"
      "pbq_inv (ready_queue (inner e2))" "hm_get (data_index (inner e2)) k = None" "room_for 1 e2"
      "\<exists>log'. wal_holds crc (wal (inner e2), files e2) log'"
    using stale_failure [OF i(1) _ idle(1) spec(2) assms(7) idle(2), of "lease_priority li"] room_for_has_room [where n = 1 and e = e1] r1 by auto
  then show ?thesis
    using pop_missing [of crc e2 _ _ _ now c' ttl] room_for_has_room [where n = 0 and e = e2] a(1) exp by auto
qed

theorem expired_task_resurrected_witness:
  "\<exists>e1 e2 e3. ack byte_sum AppendOk 1 7 demo_leased = (Inr (), e1) \<and>
    process_expired byte_sum (\<lambda>_. AppendOk) (collect_expired 50 demo_leased) e1 = e2 \<and>
    delivery (ready_queue (inner e2)) = [task_ref 1 5 1] \<and>
    pop_and_lease byte_sum AppendOk 50 8 30 e2 = (Inl (IoErr NotFound ''Missing data offset''), e3)"
  using expired_task_resurrected [OF demo_leased(3), of 1 "lease_info 7 40 0 5" 7 50 8 30] demo_leased(5)
  by (simp add: demo_spec_leased_def lease_info_def MAX_RETRIES_def word_less_nat_alt word_le_nat_alt)

end
