(* ===== verification/Compaction_Restart.thy ===== *)
theory Compaction_Restart
  imports Engine_Faults "HOL-Library.Multiset"
begin

text \<open>
  A compaction and a restart together: the engine that opens a compacted directory has the
  tasks, the leases and the payloads of one that opens the directory without compaction. The
  exception are tasks whose payload compaction moves out of their \<open>Created\<close> record and which
  have younger records outside the compacted segments (\<open>Engine_Faults\<close>).
\<close>

section \<open>Logs in two parts\<close>

lemma latest_map_append: "latest_map (xs @ ys) k = (case latest_map ys k of None \<Rightarrow> latest_map xs k | Some x \<Rightarrow> Some x)"
proof (induction ys rule: rev_induct)
  case (snoc y ys)
  then show ?case by (simp flip: append_assoc split: option.split)
qed simp

lemma created_map_append: "created_map (xs @ ys) k = (case created_map ys k of None \<Rightarrow> created_map xs k | Some l \<Rightarrow> Some l)"
proof (induction ys rule: rev_induct)
  case (snoc y ys)
  then show ?case by (cases y) (simp flip: append_assoc split: option.split)
qed simp

lemma created_map_record:
  "created_map log k = Some l \<Longrightarrow> \<exists>r. (l, r) \<in> set log \<and> op_type r = Created \<and> rec_id r = k"
proof (induction log arbitrary: l rule: rev_induct)
  case (snoc y log)
  then show ?case by (cases y) (auto split: if_splits)
qed simp

lemma created_map_None: "created_map log k = None \<Longrightarrow> (l, r) \<in> set log \<Longrightarrow> rec_id r = k \<Longrightarrow> op_type r \<noteq> Created"
proof (induction log rule: rev_induct)
  case (snoc y log)
  then show ?case by (cases y) (auto split: if_splits)
qed simp

lemma created_once:
  assumes "log_wf (xs @ ys)" "k \<in> log_id ` set xs"
  shows "created_map ys k = None"
  using assms(1)
proof (induction ys rule: rev_induct)
  case (snoc y ys)
  obtain l r where y: "y = (l, r)" by fastforce
  have wf: "log_wf ((xs @ ys) @ [(l, r)])" using snoc.prems by (simp add: y)
  have "latest_map (xs @ ys) k \<noteq> None" using assms(2) by (auto simp: latest_map_None)
  then show ?case using log_wf_snocD [OF wf] snoc.IH log_wf_prefix [OF wf] by (auto simp: y)
qed simp

lemma payload_map_prefix:
  assumes "log_wf (xs @ ys)" "payload_map (xs @ ys) k = Some p" "k \<in> log_id ` set xs"
  shows "payload_map xs k = Some p"
  using assms(1,2)
proof (induction ys rule: rev_induct)
  case (snoc y ys)
  obtain l r where y: "y = (l, r)" by fastforce
  have snoc': "log_wf ((xs @ ys) @ [(l, r)])" "payload_map ((xs @ ys) @ [(l, r)]) k = Some p"
    using snoc.prems by (simp_all add: y)
  have "latest_map (xs @ ys) k \<noteq> None" using assms(3) by (auto simp: latest_map_None)
  then have "payload_map (xs @ ys) k = Some p"
    using snoc'(2) log_wf_snocD [OF snoc'(1)] unfolding payload_map_simps data_step_def by (auto split: if_splits)
  then show ?case using snoc.IH log_wf_prefix [OF snoc'(1)] by blast
qed simp

section \<open>What recovery makes of any log\<close>

lemma recovered_state:
  assumes "\<forall>x \<in> set log. log_id x \<noteq> - 1"
  shows "delivery (ready_queue (recovered now w log)) = sort_key delivery_key (ready_refs (expired_ids now log) log)"
    "hm_get (leased (recovered now w log)) k = lease_map (expired_ids now log) log k"
    "latest_map log k = Some x \<Longrightarrow> \<not> ends_task (snd x) \<Longrightarrow>
      hm_get (data_index (recovered now w log)) k = Some (case created_map log k of None \<Rightarrow> fst x | Some l \<Rightarrow> l)"
proof -
  let ?X = "expired_ids now log"
  define s1 where "s1 = foldl recover_pass1 (new_state w DEFAULT_PAYLOAD_CACHE_CAPACITY) log"
  have p1: "\<forall>k. hm_get (data_index s1) k = created_map log k" "ready_queue s1 = pbq_new" "leased s1 = []"
    using recover_pass1_spec [OF assms, of "new_state w DEFAULT_PAYLOAD_CACHE_CAPACITY"] by (simp_all add: s1_def new_state_def)
  have rec: "recovered now w log = foldl (recover_last now) s1 (latest log)" by (simp add: recovered_def s1_def)
  have X: "\<forall>x \<in> set (latest log). log_id x \<in> ?X \<longleftrightarrow> lease_over now (snd x)" using expired_ids_latest by blast
  note q = recover_fold_queue [OF X, of s1, folded rec]
  note m = recover_fold_maps [OF X distinct_latest, of s1, folded rec, unfolded map_of_latest]
  show "delivery (ready_queue (recovered now w log)) = sort_key delivery_key (ready_refs ?X log)"
    using bq.list_push_all [OF bq.invar_empty, of "[]"] by (simp add: q(1) p1(2) bq.list_empty ready_refs_def)
  show "hm_get (leased (recovered now w log)) k = lease_map ?X log k"
    using m [of k] by (simp add: p1(3) lease_map_def split: option.split)
  show "latest_map log k = Some x \<Longrightarrow> \<not> ends_task (snd x) \<Longrightarrow>
      hm_get (data_index (recovered now w log)) k = Some (case created_map log k of None \<Rightarrow> fst x | Some l \<Rightarrow> l)"
    using m [of k] p1(1) by (simp split: option.split)
qed

section \<open>Records that say the same about a task\<close>

lemma first_byte_meta: "wf_record r \<Longrightarrow> op_type r \<in> {Nacked, Expired} \<Longrightarrow> first_byte (rec_payload r) = first_byte (meta r)"
  by (cases "rec_payload r") (auto simp: wf_record_def meta_def meta_len_def first_byte_def)

lemma parse_lease_meta:
  assumes "op_type r = Leased" "13 \<le> length (rec_payload r)"
  shows "parse_lease r = lease_info (u32_from_be_bytes (byte_slice 0 4 (meta r))) (u64_from_be_bytes (byte_slice 4 12 (meta r))) (meta r ! 12) (rec_priority r)"
  using assms by (simp add: parse_lease_def meta_def meta_len_def byte_slice_def take_drop min_def Let_def)

lemma same_meta:
  assumes "wf_record r" "wf_record r'" "op_type r' = op_type r" "rec_id r' = rec_id r" "rec_priority r' = rec_priority r" "meta r' = meta r"
  shows "lease_of r' = lease_of r" "ready_ref X r' = ready_ref X r"
proof -
  show l: "lease_of r' = lease_of r"
    using assms parse_lease_meta [of r] parse_lease_meta [of r'] by (auto simp: lease_of_def wf_record_def)
  show "ready_ref X r' = ready_ref X r"
    using assms first_byte_meta [of r] first_byte_meta [of r'] by (cases "op_type r") (simp_all add: ready_ref_def l Let_def cong: option.case_cong)
qed

text \<open>The replay and the last records.\<close>

lemma replay_latest_map:
  "hm_get (snd (replay (map snd log))) k =
     (case latest_map log k of None \<Rightarrow> None | Some x \<Rightarrow> if ends_task (snd x) then None else Some (snd x))"
proof (induction log rule: rev_induct)
  case (snoc x log)
  then show ?case by (simp add: replay_snoc compact_step_latest)
qed (simp add: replay_def)

definition live :: "log \<Rightarrow> u64 \<rightharpoonup> Record" where
  "live log k = (case latest_map log k of None \<Rightarrow> None | Some x \<Rightarrow> if ends_task (snd x) then None else Some (snd x))"

lemma live_SomeD: "live log k = Some r \<Longrightarrow> \<exists>l. latest_map log k = Some (l, r) \<and> \<not> ends_task r \<and> rec_id r = k \<and> (l, r) \<in> set log"
  by (force simp: live_def split: option.splits if_splits dest: latest_map_in)

text \<open>What a log means is a function of its live records.\<close>

lemma lease_map_live: "lease_map X log k = (if k \<in> X then None else Option.bind (live log k) lease_of)"
  using ready_ref_ends(2) by (auto simp: lease_map_def live_def split: option.split)

lemma expired_ids_live: "expired_ids now log = {k. \<exists>r. live log k = Some r \<and> lease_over now r}"
proof -
  have "(\<exists>x. latest_map log k = Some x \<and> lease_over now (snd x)) \<longleftrightarrow> (\<exists>r. live log k = Some r \<and> lease_over now r)" for k
    using ready_ref_ends(2) by (cases "latest_map log k") (auto simp: live_def lease_over_def)
  then show ?thesis by (simp add: expired_ids_def)
qed

lemma ready_refs_live: "t \<in> set (ready_refs X log) \<longleftrightarrow> (\<exists>r. live log (task_id t) = Some r \<and> ready_ref X r = Some t)"
  using ready_ref_ends(1) by (auto simp: ready_refs_iff live_def split: option.splits if_splits)

lemma same_view:
  assumes "\<forall>x \<in> set log. wf_record (snd x)" "\<forall>x \<in> set log'. wf_record (snd x)"
    and "task_view (replay (map snd log')) k = task_view (replay (map snd log)) k"
  shows "Option.bind (live log' k) lease_of = Option.bind (live log k) lease_of"
    "Option.bind (live log' k) (ready_ref X) = Option.bind (live log k) (ready_ref X)"
    "live log' k = None \<longleftrightarrow> live log k = None"
proof -
  have v: "task_view (replay (map snd log)) k =
      map_option (\<lambda>r. (op_type r, rec_priority r, meta r, hm_get (fst (replay (map snd log))) k)) (live log k)" for log
    by (simp add: task_view_def replay_latest_map live_def)
  have "Option.bind (live log' k) lease_of = Option.bind (live log k) lease_of \<and>
    Option.bind (live log' k) (ready_ref X) = Option.bind (live log k) (ready_ref X) \<and> (live log' k = None \<longleftrightarrow> live log k = None)"
  proof (cases "live log k")
    case None
    then show ?thesis using assms(3) by (simp add: v)
  next
    case (Some r)
    then obtain r' where r': "live log' k = Some r'" "op_type r' = op_type r" "rec_priority r' = rec_priority r" "meta r' = meta r"
      using assms(3) by (cases "live log' k") (auto simp: v)
    have "wf_record r" "wf_record r'" "rec_id r' = rec_id r"
      using live_SomeD [OF Some] live_SomeD [OF r'(1)] assms(1,2) by auto
    then show ?thesis using same_meta [of r r'] r' Some by simp
  qed
  then show "Option.bind (live log' k) lease_of = Option.bind (live log k) lease_of"
    "Option.bind (live log' k) (ready_ref X) = Option.bind (live log k) (ready_ref X)"
    "live log' k = None \<longleftrightarrow> live log k = None" by blast+
qed

lemma same_tasks_recovered:
  assumes "\<forall>x \<in> set log. wf_record (snd x)" "\<forall>x \<in> set log'. wf_record (snd x)"
    and "\<And>k. task_view (replay (map snd log')) k = task_view (replay (map snd log)) k"
  shows "expired_ids now log' = expired_ids now log" "mset (ready_refs X log') = mset (ready_refs X log)" "lease_map X log' = lease_map X log"
proof -
  note v = same_view [OF assms(1,2,3)]
  have over: "(\<exists>r. live log k = Some r \<and> lease_over now r) \<longleftrightarrow> (\<exists>l. Option.bind (live log k) lease_of = Some l \<and> expire_timestamp l \<le> now)" for log k
    by (cases "live log k") (auto simp: lease_over_def split: option.splits)
  show "expired_ids now log' = expired_ids now log" unfolding expired_ids_live over v(1) ..
  show "lease_map X log' = lease_map X log" by (simp add: fun_eq_iff lease_map_live v(1))
  have "(\<exists>r. live log k = Some r \<and> ready_ref X r = Some t) \<longleftrightarrow> Option.bind (live log k) (ready_ref X) = Some t" for log k t
    by (cases "live log k") simp_all
  then have "set (ready_refs X log') = set (ready_refs X log)" unfolding ready_refs_live set_eq_iff using v(2) by simp
  moreover have "distinct (ready_refs X log)" for log using distinct_ready_refs [of X log] by (simp add: distinct_map)
  ultimately show "mset (ready_refs X log') = mset (ready_refs X log)" by (simp add: set_eq_iff_mset_eq_distinct)
qed

section \<open>Payloads after both\<close>

text \<open>Compaction moves the payload of the task out of its \<open>Created\<close> record.\<close>

definition moved_payload :: "(u64 \<times> Record list) list \<Rightarrow> u64 \<Rightarrow> bool" where
  "moved_payload closed k =
     (case hm_get (snd (replay (concat (map snd closed)))) k of None \<Rightarrow> False | Some r \<Rightarrow> op_type r \<noteq> Created)"

lemma compacted_of:
  assumes "\<forall>r \<in> set (concat (map snd closed)). wf_record r" "r \<in> set (compacted closed)"
  shows "wf_record r \<and> \<not> ends_task r \<and> (\<exists>x. hm_get (snd (replay (concat (map snd closed)))) (rec_id r) = Some x \<and> op_type r = op_type x) \<and>
    hm_get (fst (replay (concat (map snd closed)))) (rec_id r) = Some (user_payload r)"
proof -
  let ?st = "replay (concat (map snd closed))"
  have inv: "replay_inv ?st" using assms(1) by (intro replay_inv_replay) simp
  obtain k where k: "k \<in> set (hm_keys (snd ?st))" "r = consolidate (fst ?st) k (the (hm_get (snd ?st) k))"
    using assms(2) by (auto simp: compacted_def survivors_def)
  then obtain x where x: "hm_get (snd ?st) k = Some x" by (auto simp: hm_contains_keys [symmetric] hm_contains_def)
  note c = consolidate_same [OF inv x]
  have r: "r = consolidate (fst ?st) k x" by (simp add: k(2) x)
  show ?thesis using c x user_payload_body [OF c(6)] by (simp add: r)
qed

lemma compacted_ids:
  assumes "\<forall>r \<in> set (concat (map snd closed)). wf_record r" "r \<in> set (compacted closed)"
  shows "\<exists>x \<in> set (concat (map snd closed)). rec_id r = rec_id x"
proof -
  obtain x where x: "hm_get (snd (replay (concat (map snd closed)))) (rec_id r) = Some x" using compacted_of [OF assms] by blast
  then have "rec_id r = rec_id x" using replay_invD(3) [OF replay_inv_replay [OF assms(1)] x] by auto
  then show ?thesis using replay_latest_in [OF x] by blast
qed

lemma compacted_has:
  assumes "\<forall>r \<in> set (concat (map snd closed)). wf_record r" "hm_get (snd (replay (concat (map snd closed)))) k = Some x"
  shows "\<exists>l r. (l, r) \<in> set (seg_log (1, compacted closed)) \<and> rec_id r = k \<and> op_type r = op_type x"
proof -
  let ?st = "replay (concat (map snd closed))"
  have inv: "replay_inv ?st" using assms(1) by (intro replay_inv_replay) simp
  let ?r = "consolidate (fst ?st) k x"
  have "?r \<in> set (compacted closed)"
    using assms(2) by (force simp: compacted_def survivors_def hm_contains_keys [symmetric] hm_contains_def)
  then have "?r \<in> snd ` set (layout 0 (compacted closed))" by (metis map_snd_layout set_map)
  then obtain off where "(off, ?r) \<in> set (layout 0 (compacted closed))" by auto
  then have "((1, off), ?r) \<in> set (seg_log (1, compacted closed))" by (force simp: seg_log_def)
  then show ?thesis using consolidate_same(1,2) [OF inv assms(2)] by blast
qed

lemma seg_log_records: "(l, r) \<in> set (seg_log (n, rs)) \<Longrightarrow> r \<in> set rs"
  using map_snd_log_of [of "[(n, rs)]"] by (force simp: log_of_def dest: arg_cong [of _ _ set])

text \<open>Where recovery finds the payload of a task in the compacted log.\<close>

lemma compacted_payload:
  assumes "log_wf (log_of closed @ seg_log (active, rs))" "payload_map (log_of closed @ seg_log (active, rs)) k = Some p"
    and "k \<in> rec_id ` set rs \<Longrightarrow> \<not> moved_payload closed k"
    and "latest_map (seg_log (1, compacted closed) @ seg_log (active, rs)) k = Some x"
  shows "\<exists>r. ((case created_map (seg_log (1, compacted closed) @ seg_log (active, rs)) k of None \<Rightarrow> fst x | Some l \<Rightarrow> l), r)
      \<in> set (seg_log (1, compacted closed) @ seg_log (active, rs)) \<and> user_payload r = p"
proof -
  let ?old = "log_of closed" and ?new = "seg_log (1, compacted closed)" and ?act = "seg_log (active, rs)"
  have recs: "map snd ?old = concat (map snd closed)" by (rule map_snd_log_of)
  have wf1: "log_wf ?old" using assms(1) log_wf_prefix by blast
  have wfr: "\<forall>r \<in> set (concat (map snd closed)). wf_record r" using log_wf_record [OF wf1] unfolding recs [symmetric] by auto
  obtain l where l: "data_map (?old @ ?act) k = Some l" using assms(2) data_map_dom [of "?old @ ?act" k] by (cases "data_map (?old @ ?act) k") auto
  show ?thesis
  proof (cases "k \<in> log_id ` set ?old")
    case True
    have "payload_map ?old k = Some p" by (rule payload_map_prefix [OF assms(1,2) True])
    then have pay: "hm_get (fst (replay (concat (map snd closed)))) k = Some p"
      using replay_payloads [OF wf1, of k] by (simp add: recs)
    then obtain y where y: "hm_get (snd (replay (concat (map snd closed)))) k = Some y"
      using replay_invD(2) [OF replay_inv_replay [OF wfr], of k] by (cases "hm_get (snd (replay (concat (map snd closed)))) k") auto
    have served: "user_payload r = p" if "(l, r) \<in> set ?new" "rec_id r = k" for l r
      using compacted_of [OF wfr seg_log_records [OF that(1)]] pay that(2) by simp
    have cm: "created_map (?new @ ?act) k = created_map ?new k"
      using created_once [OF assms(1) True] by (simp add: created_map_append)
    show ?thesis
    proof (cases "created_map ?new k")
      case (Some l')
      then obtain r where "(l', r) \<in> set ?new" "rec_id r = k" using created_map_record by blast
      then show ?thesis using served cm Some by (intro exI [of _ r]) simp
    next
      case None
      obtain l2 r2 where "(l2, r2) \<in> set ?new" "rec_id r2 = k" "op_type r2 = op_type y" using compacted_has [OF wfr y] by blast
      then have "op_type y \<noteq> Created" using created_map_None [OF None] by metis
      then have "k \<notin> rec_id ` set rs" using assms(3) by (auto simp: moved_payload_def y)
      then have "latest_map ?act k = None" using seg_log_records by (force simp: latest_map_None)
      then have "latest_map ?new k = Some x" using assms(4) by (simp add: latest_map_append)
      then have "x \<in> set ?new" "log_id x = k" using latest_map_in by blast+
      then show ?thesis using served [of "fst x" "snd x"] cm None by (intro exI [of _ "snd x"]) simp
    qed
  next
    case False
    then have "created_map ?old k = None" using created_None latest_map_None by blast
    moreover have "created_map (?old @ ?act) k = Some l" by (rule created_data [OF l])
    ultimately have cm: "created_map (?new @ ?act) k = Some l" "created_map ?act k = Some l"
      by (simp_all add: created_map_append split: option.splits)
    obtain r0 where r0: "(l, r0) \<in> set (?old @ ?act)" "op_type r0 = Created" "rec_id r0 = k" "payload_map (?old @ ?act) k = Some (rec_payload r0)"
      using data_map_record [OF l] by blast
    then have "(l, r0) \<in> set ?act" using False by force
    then show ?thesis using cm(1) r0 assms(2) user_payload_Created [of r0] by auto
  qed
qed

section \<open>Properties\<close>

text \<open>
  C8. A compaction followed by a restart is as good as a restart: both directories open; the
  engine after the compaction has the same ready tasks with the same retries in order of
  priority (tasks of one priority may change places), the same leases, and for every task a
  readable record with the payload that was pushed. This holds as long as no unfinished task
  whose payload the compaction moves has younger records in the active segment.
\<close>

theorem compaction_then_restart:
  assumes "refines crc t e s" "t \<le> now"
    and "wal_repr crc (wal (inner e)) (files e) (closed @ [(active, rs)])" "closed \<noteq> []"
    and "\<forall>r \<in> set (concat (map snd closed)). length (rec_payload r) + 13 \<le> MAX_PAYLOAD_SIZE"
    and "\<forall>k \<in> rec_id ` set rs. moved_payload closed k \<longrightarrow> s_payload s k = None"
  shows "\<exists>e' e1 s1 e2. compact crc e = (Inr True, e') \<and> engine_open crc now (files e) = Inr e1 \<and> refines crc now e1 s1 \<and>
    engine_open crc now (files e') = Inr e2 \<and>
    mset (delivery (ready_queue (inner e2))) = mset (s_ready s1) \<and> sorted (map delivery_key (delivery (ready_queue (inner e2)))) \<and>
    (\<forall>k. hm_get (leased (inner e2)) k = s_leased s1 k) \<and>
    (\<forall>k p. s_payload s1 k = Some p \<longrightarrow> (\<exists>l r c. hm_get (data_index (inner e2)) k = Some l \<and>
      read_at crc (files e2) (reader e2) (fst l) (snd l) = (Inr (Some r), c) \<and> user_payload r = p))"
proof -
  let ?log = "log_of (closed @ [(active, rs)])" and ?log' = "log_of [(1, compacted closed), (active, rs)]"
  have lg: "?log = log_of closed @ seg_log (active, rs)" "?log' = seg_log (1, compacted closed) @ seg_log (active, rs)"
    by (simp_all add: log_of_def)
  obtain log X where i: "engine_inv crc log X e" "s = spec_of X log" using assms(1) unfolding refines_def by blast
  have "wal_holds crc (wal (inner e), files e) ?log" unfolding wal_holds_def fst_conv snd_conv using assms(3) by blast
  then have "log = ?log" using wl.holds_unique engine_invD(1) [OF i(1)] by blast
  note i = i [unfolded this]
  note wf = engine_invD(3) [OF i(1)]
  have ids: "\<forall>x \<in> set ?log. log_id x \<noteq> - 1" using engine_invD(11) [OF i(1)] by (metis not_less word_order.extremum)
  have recs: "map snd ?log = concat (map snd closed) @ rs" "map snd ?log' = compacted closed @ rs" by (simp_all only: map_snd_log_of) simp_all
  have wfr: "\<forall>r \<in> set (concat (map snd closed) @ rs). wf_record r" using log_wf_record [OF wf] unfolding recs(1) [symmetric] by auto
  have wfc: "\<forall>r \<in> set (concat (map snd closed)). wf_record r" using wfr by simp
  have "\<forall>r \<in> set (map snd ?log'). wf_record r" using wfr compacted_of [OF wfc] unfolding recs(2) by auto
  then have wf': "\<forall>x \<in> set ?log'. wf_record (snd x)" by auto
  have views: "task_view (replay (map snd ?log')) k = task_view (replay (map snd ?log)) k" for k
    unfolding recs by (rule compacted_same_tasks [OF wfr])
  obtain e1 where e1: "engine_open crc now (files e) = Inr e1" "engine_inv crc ?log (expired_ids now ?log) e1"
    using opened_dir [OF assms(3) wf ids] by blast
  obtain offs fs where c: "compact crc e = (Inr True, e\<lparr>inner := remap_state (map fst closed) offs (inner e), files := fs, reader := []\<rparr>)"
      "wal_repr crc (wal (inner e)) fs [(1, compacted closed), (active, rs)]"
    using compact_closed [OF assms(3,4)] wfc assms(5) by blast
  have ids': "\<forall>x \<in> set ?log'. log_id x \<noteq> - 1"
  proof -
    have "\<forall>r \<in> set (map snd ?log). rec_id r \<noteq> - 1" using ids by auto
    then have "\<forall>r \<in> set (map snd ?log'). rec_id r \<noteq> - 1" using compacted_ids [OF wfc] unfolding recs by fastforce
    then show ?thesis by auto
  qed
  obtain w' fs' cache where e2: "engine_open crc now fs = Inr \<lparr>inner = recovered now w' ?log', files = fs', reader = cache, callbacks = 0\<rparr>"
      "wal_repr crc w' fs' [(1, compacted closed), (active, rs)]" "cache_fresh fs' cache"
    using engine_open_fold [OF c(2) ids'] by blast
  note h = recovered_state [OF ids', where now = now and w = w'] and same = same_tasks_recovered [OF _ wf' views]
  have wfl: "\<forall>x \<in> set ?log. wf_record (snd x)" using log_wf_record [OF wf] by blast
  have ex: "expired_ids now ?log' = expired_ids now ?log" by (rule same(1) [OF wfl])
  have payloads: "\<exists>l r c. hm_get (data_index (recovered now w' ?log')) k = Some l \<and>
      read_at crc fs' cache (fst l) (snd l) = (Inr (Some r), c) \<and> user_payload r = p" if p: "payload_map ?log k = Some p" for k p
  proof -
    have "live ?log k \<noteq> None"
      using p data_map_dom [of ?log k] log_wf_live [OF wf, of k] data_map_None [of ?log k]
      by (cases "latest_map ?log k") (auto simp: live_def)
    then have "live ?log' k \<noteq> None" by (simp only: same_view(3) [OF wfl wf' views] not_False_eq_True)
    then obtain x where x: "latest_map ?log' k = Some x" "\<not> ends_task (snd x)" by (auto simp: live_def split: option.splits if_splits)
    have "k \<in> rec_id ` set rs \<Longrightarrow> \<not> moved_payload closed k" using assms(6) p by (force simp: i(2) spec_of_def)
    then obtain r where r: "((case created_map ?log' k of None \<Rightarrow> fst x | Some l \<Rightarrow> l), r) \<in> set ?log'" "user_payload r = p"
      using compacted_payload [of closed active rs k p x] wf p x(1) unfolding lg by blast
    have "wal_holds crc (w', fs') ?log'" unfolding wal_holds_def fst_conv snd_conv using e2(2) by blast
    from wl.read_law [OF this, of cache _ r] r(1) e2(3) show ?thesis using h(3) [OF x] r(2) by fastforce
  qed
  have "mset (delivery (ready_queue (recovered now w' ?log'))) = mset (sort_key delivery_key (ready_refs (expired_ids now ?log) ?log))"
    by (simp only: h(1) ex mset_sort same(2) [OF wfl])
  moreover have "sorted (map delivery_key (delivery (ready_queue (recovered now w' ?log'))))" by (simp only: h(1) sorted_sort_key)
  moreover have "hm_get (leased (recovered now w' ?log')) k = lease_map (expired_ids now ?log) ?log k" for k
    by (simp only: h(2) ex same(3) [OF wfl])
  moreover have "refines crc now e1 (spec_of (expired_ids now ?log) ?log)" by (rule refinesI [OF e1(2)]) simp_all
  ultimately show ?thesis
    using c(1) e1(1) e2(1) payloads
    by (intro exI [of _ "e\<lparr>inner := remap_state (map fst closed) offs (inner e), files := fs, reader := []\<rparr>"] exI [of _ e1]
        exI [of _ "spec_of (expired_ids now ?log) ?log"] exI [of _ "\<lparr>inner = recovered now w' ?log', files = fs', reader = cache, callbacks = 0\<rparr>"])
      (simp add: spec_of_def)
qed

lemma demo_rotated_repr: "wal_repr byte_sum (wal (inner demo_rotated)) (files demo_rotated) demo_segs"
proof -
  have "wal_repr byte_sum (mk_wal byte_sum 1 demo_segs) (mk_fs byte_sum demo_segs) demo_segs"
    unfolding demo_segs_def by (rule mk_fs_repr) (simp_all add: storable_def MAX_PAYLOAD_SIZE_def)
  moreover have "\<forall>x \<in> set (log_of demo_segs). log_id x \<noteq> - 1" by (simp add: demo_segs_def log_of_def seg_log_def)
  ultimately obtain w fs cache where o: "engine_open byte_sum 0 (mk_fs byte_sum demo_segs) =
      Inr \<lparr>inner = recovered 0 w (log_of demo_segs), files = fs, reader = cache, callbacks = 0\<rparr>" "wal_repr byte_sum w fs demo_segs"
    using engine_open_fold by blast
  have d: "demo_rotated = \<lparr>inner = recovered 0 w (log_of demo_segs), files = fs, reader = cache, callbacks = 0\<rparr>"
    using o(1) demo_rotated(1) by simp
  show ?thesis using o(2) arg_cong [OF d, of files] arg_cong [OF d, of "\<lambda>e. wal (inner e)"] by (simp add: recovered_wal)
qed

theorem compaction_then_restart_witness:
  "\<exists>e' e1 s1 e2. compact byte_sum demo_rotated = (Inr True, e') \<and> engine_open byte_sum 50 (files demo_rotated) = Inr e1 \<and>
    refines byte_sum 50 e1 s1 \<and> engine_open byte_sum 50 (files e') = Inr e2 \<and>
    mset (delivery (ready_queue (inner e2))) = mset (s_ready s1) \<and> (\<forall>k. hm_get (leased (inner e2)) k = s_leased s1 k)"
proof -
  have r: "refines byte_sum 0 demo_rotated (spec_of {} (log_of demo_segs))" by (rule refinesI [OF demo_rotated(2)]) simp_all
  have repr: "wal_repr byte_sum (wal (inner demo_rotated)) (files demo_rotated) (butlast demo_segs @ [(2, [])])"
    using demo_rotated_repr by (simp add: demo_segs_def)
  show ?thesis
    using compaction_then_restart [OF r _ repr, of 50] by (auto simp: demo_segs_def MAX_PAYLOAD_SIZE_def)
qed

end
