(* ===== verification/Durability.thy ===== *)
theory Durability
  imports Engine_Compaction Group_Commit
begin

text \<open>
  Syncing the log: \<open>Engine::sync\<close> and \<open>Engine::force_flush_group_commit\<close> of
  \<open>src/src/storage/engine.rs\<close> over the log of \<open>wal.rs\<close> and the coordinator of
  \<open>group_commit.rs\<close>. Clients append records and call \<open>sync\<close> in any interleaving; what
  is durable is known per file. When the operating system stops, the storage keeps the part of
  every file that \<open>fsync\<close> has handed to it and any amount of the rest; the theory shows what the
  next start finds. Durable means handed to the storage, which every \<open>SyncMode\<close> does. The loss of
  power, which can also take the write cache of a drive, is not covered: only
  \<open>SyncMode::FullHardware\<close> flushes that cache, and a segment that is left is always synced with
  \<open>SyncMode::Standard\<close>.
\<close>

section \<open>The log and its coordinator\<close>

text \<open>\<open>sys_held\<close>: the active file that a caller of \<open>sync\<close> has taken under the lock.\<close>

record LogSystem =
  sys_wal :: Wal
  sys_files :: fsys
  sys_gc :: gc_world
  sys_held :: "nat \<Rightarrow> ino option"

text \<open>
  What an append does to the sizes of the files. A rotation syncs the file it leaves
  (\<open>perform_sync\<close> in \<open>Wal::rotate\<close>).
\<close>

definition note_append :: "Wal \<Rightarrow> fsys \<Rightarrow> Wal \<Rightarrow> fsys \<Rightarrow> gc_world \<Rightarrow> gc_world" where
  "note_append w fs w' fs' g =
     g\<lparr>written := (\<lambda>f. length (fs_content fs' f)),
       durable := (if active_file w' = active_file w then durable g
         else (durable g)(active_file w := max (durable g (active_file w)) (length (fs_content fs (active_file w)))))\<rparr>"

text \<open>A thread becomes the committer with a file that is not the active one any more.\<close>

definition stale_commit :: "ino \<Rightarrow> gc_world \<Rightarrow> gc_world \<Rightarrow> bool" where
  "stale_commit active g g' \<longleftrightarrow>
     (\<exists>i b f n s. gc_threads g' i = Flushing b f n s \<and> gc_threads g i \<noteq> Flushing b f n s \<and> f \<noteq> active)"

text \<open>
  The steps: an append by any operation of the engine; \<open>sync\<close> takes the active file, and
  later joins a batch with it; any other step of the coordinator. With \<open>strict\<close>, stale
  commits do not happen.
\<close>

inductive log_step :: "GroupCommitConfig \<Rightarrow> (bytes \<Rightarrow> u32) \<Rightarrow> bool \<Rightarrow> LogSystem \<Rightarrow> LogSystem \<Rightarrow> bool" for options crc strict where
  lg_append: "storable r \<Longrightarrow> io_clean io \<Longrightarrow> active_segment_id (sys_wal s) \<noteq> - 1 \<Longrightarrow>
    wal_append crc io r (sys_wal s) (sys_files s) = (res, w, fs) \<Longrightarrow>
    log_step options crc strict s
      (s\<lparr>sys_wal := w, sys_files := fs, sys_gc := note_append (sys_wal s) (sys_files s) w fs (sys_gc s)\<rparr>)"
| lg_fetch: "gc_threads (sys_gc s) i = Outside \<Longrightarrow>
    log_step options crc strict s (s\<lparr>sys_held := (sys_held s)(i := Some (active_file (sys_wal s)))\<rparr>)"
| lg_enter: "sys_held s i = Some f \<Longrightarrow> gc_threads (sys_gc s) i \<in> {Outside, Forcing} \<Longrightarrow>
    clock (sys_gc s) \<le> now \<Longrightarrow> now \<le> later \<Longrightarrow> g = gc_enter options now later i f (sys_gc s) \<Longrightarrow>
    \<not> (strict \<and> stale_commit (active_file (sys_wal s)) (sys_gc s) g) \<Longrightarrow>
    log_step options crc strict s (s\<lparr>sys_gc := g, sys_held := (sys_held s)(i := None)\<rparr>)"
| lg_coord: "gc_step options {} (sys_gc s) g \<Longrightarrow> written g = written (sys_gc s) \<Longrightarrow>
    \<not> (strict \<and> stale_commit (active_file (sys_wal s)) (sys_gc s) g) \<Longrightarrow>
    log_step options crc strict s (s\<lparr>sys_gc := g\<rparr>)"

text \<open>
  The start: a log has been opened. The segments before the active one were synced when they
  were left; of the active one any part may be durable. Inodes that are not in use are empty.
\<close>

definition unused_empty :: "fsys \<Rightarrow> bool" where
  "unused_empty fs \<longleftrightarrow> (\<forall>i \<ge> fs_next fs. fs_content fs i = [])"

definition log_init :: "(bytes \<Rightarrow> u32) \<Rightarrow> LogSystem \<Rightarrow> bool" where
  "log_init crc s \<longleftrightarrow>
     (\<exists>log. wal_holds crc (sys_wal s, sys_files s) log) \<and> unused_empty (sys_files s) \<and> (\<forall>i. sys_held s i = None) \<and>
     gc_state (sys_gc s) = gc_new \<and> gc_threads (sys_gc s) = (\<lambda>_. Outside) \<and>
     written (sys_gc s) = (\<lambda>f. length (fs_content (sys_files s) f)) \<and>
     (\<forall>f. f \<noteq> active_file (sys_wal s) \<longrightarrow> durable (sys_gc s) f = written (sys_gc s) f)"

text \<open>
  The operating system stops: every file keeps at least its durable bytes, and of the others
  some prefix. Nothing in the program syncs the directory, so that its entries are those from
  before is a condition of its own.
\<close>

definition os_crash :: "LogSystem \<Rightarrow> fsys \<Rightarrow> bool" where
  "os_crash s fs \<longleftrightarrow> (\<forall>f. \<exists>k. durable (sys_gc s) f \<le> k \<and> fs_content fs f = take k (fs_content (sys_files s) f))"

definition directory_kept :: "fsys \<Rightarrow> fsys \<Rightarrow> bool" where
  "directory_kept before fs \<longleftrightarrow> fs_dir fs = fs_dir before \<and> fs_next fs = fs_next before"

section \<open>Files under an append\<close>

lemma active_content:
  assumes "wal_repr crc w fs segs"
  shows "fs_content fs (active_file w) = seg_bytes crc (snd (last segs))" "length (fs_content fs (active_file w)) = current_size w"
proof -
  note d = wal_reprD [OF assms]
  show "fs_content fs (active_file w) = seg_bytes crc (snd (last segs))"
    using d(2,5,6,7) by (auto simp: seg_on_disk_def fs_file_def dest!: last_in_set)
  then show "length (fs_content fs (active_file w)) = current_size w" using d(8) by simp
qed

lemma open_append_content:
  assumes "fs_ok fs" "unused_empty fs" "fs_open_append fs n = (i, fs')"
  shows "fs_content fs' g = fs_content fs g" "unused_empty fs'" "i < fs_next fs'"
proof -
  have "fs_content fs (fs_next fs) = []" using assms(2) by (simp add: unused_empty_def)
  then show "fs_content fs' g = fs_content fs g" for g
    using assms(3) by (auto simp: fs_open_append_def fs_content_def split: option.splits if_splits)
  moreover have "fs_next fs \<le> fs_next fs'" using assms(3) by (auto simp: fs_open_append_def split: option.splits)
  ultimately show "unused_empty fs'" using assms(2) by (simp add: unused_empty_def)
  show "i < fs_next fs'" using assms(1,3) by (auto simp: fs_open_append_def fs_ok_def split: option.splits)
qed

lemma fs_next_put [simp]: "fs_next (fs_put fs i b) = fs_next fs"
  by (simp add: fs_put_def)

text \<open>Only the active file changes, and it grows.\<close>

lemma append_content:
  assumes "wal_repr crc w fs segs" "unused_empty fs" "active_segment_id w \<noteq> - 1" "io_clean io" "wal_append crc io r w fs = (res, w', fs')"
  shows "length (fs_content fs f) \<le> length (fs_content fs' f)" "f \<noteq> active_file w' \<Longrightarrow> fs_content fs' f = fs_content fs f"
    "unused_empty fs'"
proof -
  have "(length (fs_content fs f) \<le> length (fs_content fs' f) \<and> (f \<noteq> active_file w' \<longrightarrow> fs_content fs' f = fs_content fs f)) \<and> unused_empty fs'" for f
  proof (cases "\<exists>err. io = SyncFails err \<and> max_segment_size w \<le> current_size w")
    case True
    then show ?thesis using assms(2,5) by (auto simp: wal_append_def wal_rotate_def)
  next
    case False
    obtain w1 fs1 segs1 where rot: "(if current_size w \<ge> max_segment_size w then wal_rotate io w fs else (Inr (), w, fs)) =
        (Inr (), w1, fs1)" "wal_repr crc w1 fs1 segs1" "\<And>g. fs_content fs1 g = fs_content fs g" "unused_empty fs1"
    proof (cases "current_size w \<ge> max_segment_size w")
      case True
      then have io: "io = AppendOk \<or> (\<exists>n e t. io = WriteFails n e t)" using False assms(4) by (cases io) (auto simp: io_clean_def)
      obtain w1 fs1 where r: "wal_rotate io w fs = (Inr (), w1, fs1)" "wal_repr crc w1 fs1 (segs @ [(active_segment_id w + 1, [])])"
        using wal_repr_rotate [OF assms(1,3) io] by blast
      obtain f1 where "fs_open_append fs (seg_name (active_segment_id w + 1)) = (f1, fs1)"
        using r(1) io by (auto simp: wal_rotate_def split: prod.splits)
      note o = open_append_content [OF wal_reprD(1) [OF assms(1)] assms(2) this]
      show ?thesis using that [of w1 fs1] r o(1,2) True by simp
    qed (use that assms(1,2) in auto)
    have w': "active_file w' = active_file w1"
      using assms(4,5) unfolding wal_append_def rot(1) by (cases io) (auto simp: Let_def io_clean_def)
    have fs': "fs' = fs_append fs1 (active_file w1) (encode crc r) \<or>
        (\<exists>xs. fs' = fs_set_len (fs_append fs1 (active_file w1) xs) (active_file w1) (current_size w1))"
      using assms(4,5) unfolding wal_append_def rot(1) by (cases io) (auto simp: Let_def io_clean_def)
    have "active_file w1 < fs_next fs1" using wal_reprD(1,7) [OF rot(2)] unfolding fs_ok_def by blast
    then have "unused_empty fs'" using fs' rot(4) by (auto simp: unused_empty_def fs_append_def fs_set_len_def)
    then show ?thesis
      using fs' rot(3) active_content(2) [OF rot(2)] by (auto simp: w' fs_set_len_def)
  qed
  then show "length (fs_content fs f) \<le> length (fs_content fs' f)" "f \<noteq> active_file w' \<Longrightarrow> fs_content fs' f = fs_content fs f"
    "unused_empty fs'" by blast+
qed

lemma append_holds:
  assumes "wal_repr crc w fs segs" "storable r" "active_segment_id w \<noteq> - 1" "io_clean io" "wal_append crc io r w fs = (res, w', fs')"
  shows "\<exists>segs'. wal_repr crc w' fs' segs'"
  using assms(4)
proof (cases rule: io_clean_cases [where crc = crc and w = w])
  case ok
  then show ?thesis using wal_append_ok [OF assms(1-3)] assms(5) by auto
next
  case (fails err)
  then obtain n where "io = WriteFails n err True \<or> (io = SyncFails err \<and> max_segment_size w \<le> current_size w)"
    by (auto simp: io_fails_def)
  from wal_append_failed [OF assms(1,3) this, of r] show ?thesis using assms(5) by auto
qed

section \<open>The invariant\<close>

text \<open>Nothing that is durable is lost, and callers only want what has been written.\<close>

lemma gc_step_durable_mono: "gc_step options F g g' \<Longrightarrow> durable g f \<le> durable g' f"
  by (erule gc_stepE) (auto simp: gc_enter_def gc_resume_def gc_arrive_def Let_def split: prod.splits sum.splits)

lemma resume_written:
  assumes "\<And>j b f n. waits (gc_threads g j) = Some (b, f, n) \<Longrightarrow> n \<le> written g f" "n0 \<le> written g f0"
  shows "waits (gc_threads (gc_resume options now i b0 f0 n0 g) j) = Some (b, f, n) \<Longrightarrow>
    n \<le> written (gc_resume options now i b0 f0 n0 g) f"
  using assms by (auto simp: gc_resume_def after_turn_def split: prod.splits if_splits gc_action.splits)

lemma gc_step_wants_written:
  assumes "gc_step options F g g'" "\<And>j b f n. waits (gc_threads g j) = Some (b, f, n) \<Longrightarrow> n \<le> written g f"
  shows "waits (gc_threads g' j) = Some (b, f, n) \<Longrightarrow> n \<le> written g' f"
  using assms
proof (induction rule: gc_step.induct)
  case (gs_enter g i f' now later)
  let ?g = "gc_arrive now i f' g"
  have "written ?g = written g" by (simp add: gc_arrive_def gc_join_def)
  moreover have "n \<le> written g f" if "waits (gc_threads ?g j) = Some (b, f, n)" for j b f n
    using that gs_enter.prems(2) by (auto simp: gc_arrive_def gc_join_def split: if_splits)
  ultimately show ?case using resume_written [of ?g] gs_enter.prems(1) unfolding gc_enter_def by (metis order_refl)
next
  case (gs_resume g i b' f' n' now)
  have n': "n' \<le> written g f'" using gs_resume.prems(2) [of i] gs_resume.hyps by simp
  show ?case by (rule resume_written [OF _ n' gs_resume.prems(1)]) (rule gs_resume.prems(2))
next
  case (gs_write n' g f')
  have "n \<le> written g f" by (rule gs_write.prems(2)) (use gs_write.prems(1) in simp)
  then show ?case using gs_write.hyps by auto
next
  case (gs_timeout g i b' f' n' t)
  then show ?case using gs_timeout.prems(2) [of i b' f' n'] by (auto split: if_splits)
next
  case (gs_spurious g i b' f' n')
  then show ?case using gs_spurious.prems(2) [of i b' f' n'] by (auto split: if_splits)
qed (auto split: if_splits simp: gc_force_def)

definition log_inv :: "(bytes \<Rightarrow> u32) \<Rightarrow> nat \<Rightarrow> LogSystem \<Rightarrow> bool" where
  "log_inv crc m s \<longleftrightarrow>
     gc_inv m (sys_gc s) \<and> gc_data (sys_gc s) \<and> (\<exists>segs. wal_repr crc (sys_wal s) (sys_files s) segs) \<and> unused_empty (sys_files s) \<and>
     written (sys_gc s) = (\<lambda>f. length (fs_content (sys_files s) f)) \<and>
     (\<forall>f. f \<noteq> active_file (sys_wal s) \<longrightarrow> length (fs_content (sys_files s) f) \<le> durable (sys_gc s) f)"

lemma log_inv_init: "log_init crc s \<Longrightarrow> log_inv crc 0 s"
proof -
  assume a: "log_init crc s"
  then have "gc_inv 0 (sys_gc s)" by (intro gc_invI) (simp_all add: log_init_def gc_new_def)
  moreover have "gc_data (sys_gc s)" using a by (intro gc_dataI) (simp_all add: log_init_def)
  ultimately show ?thesis using a by (auto simp: log_init_def log_inv_def wal_holds_def)
qed

lemma log_inv_append:
  assumes "log_inv crc m s" "storable r" "io_clean io" "active_segment_id (sys_wal s) \<noteq> - 1"
    and "wal_append crc io r (sys_wal s) (sys_files s) = (res, w, fs)"
  shows "log_inv crc m (s\<lparr>sys_wal := w, sys_files := fs, sys_gc := note_append (sys_wal s) (sys_files s) w fs (sys_gc s)\<rparr>)"
proof -
  note inv = assms(1) [unfolded log_inv_def]
  obtain segs where repr: "wal_repr crc (sys_wal s) (sys_files s) segs" using inv by blast
  have empty: "unused_empty (sys_files s)" and written: "written (sys_gc s) = (\<lambda>f. length (fs_content (sys_files s) f))" using inv by blast+
  note c = append_content [OF repr empty assms(4,3,5)]
  let ?g = "note_append (sys_wal s) (sys_files s) w fs (sys_gc s)"
  have same: "gc_threads ?g = gc_threads (sys_gc s)" "gc_state ?g = gc_state (sys_gc s)" by (simp_all add: note_append_def)
  have wr: "written ?g = (\<lambda>f. length (fs_content fs f))" by (simp add: note_append_def)
  have mono: "durable (sys_gc s) f \<le> durable ?g f" for f by (simp add: note_append_def)
  have "gc_inv m ?g" using inv unfolding gc_inv_def same by blast
  moreover have "gc_data ?g"
    using inv by (intro gc_data_threads [of "sys_gc s" ?g]) (use c(1) mono in \<open>simp_all add: same wr written\<close>)
  moreover have "written ?g f \<le> durable ?g f" if "f \<noteq> active_file w" for f
  proof (cases "f = active_file (sys_wal s)")
    case True
    then show ?thesis using that c(2) [of f] by (simp add: note_append_def)
  next
    case False
    then have "length (fs_content (sys_files s) f) \<le> durable (sys_gc s) f" using inv by blast
    then show ?thesis using c(2) [OF that] mono [of f] by (simp add: wr)
  qed
  ultimately show ?thesis
    using append_holds [OF repr assms(2,4,3,5)] c(3) wr by (auto simp: log_inv_def)
qed

text \<open>A committer that is not stale covers every waiting caller.\<close>

lemma log_inv_coord:
  assumes "log_inv crc m s" "gc_step options F (sys_gc s) g" "written g = written (sys_gc s)"
    and "\<not> stale_commit (active_file (sys_wal s)) (sys_gc s) g" "Suc m < 2 ^ 64 - 1"
  shows "log_inv crc (Suc m) (s\<lparr>sys_gc := g, sys_held := h\<rparr>)"
proof -
  note inv = assms(1) [unfolded log_inv_def]
  have wants: "n \<le> written g f" if "waits (gc_threads g j) = Some (b, f, n)" for j b f n
    using gc_step_wants_written [OF assms(2) _ that] gc_dataD(1) inv by blast
  have closed: "written g f \<le> durable g f" if "f \<noteq> active_file (sys_wal s)" for f
    using inv that gc_step_durable_mono [OF assms(2), of f] assms(3) by (metis order_trans)
  have "commit_covers (sys_gc s) g"
    using assms(4) wants closed unfolding commit_covers_def stale_commit_def by (metis order_trans)
  then have "gc_data g" using gc_data_step [OF assms(2), of m] inv assms(5) by simp
  moreover have "gc_inv (Suc m) g" using gc_inv_step [OF assms(2) _ assms(5)] inv by blast
  ultimately show ?thesis using inv closed assms(3) by (simp add: log_inv_def)
qed

lemma log_inv_step:
  assumes "log_step options crc True s s'" "log_inv crc m s" "Suc m < 2 ^ 64 - 1"
  shows "log_inv crc (Suc m) s'"
proof -
  have mono: "log_inv crc (Suc m) s" if "log_inv crc m s" for s using that gc_inv_mono [of m _ "Suc m"] by (simp add: log_inv_def)
  show ?thesis using assms(1,2)
  proof (induction rule: log_step.induct)
    case (lg_append r io s res w fs)
    then show ?case using mono [OF log_inv_append] by blast
  next
    case (lg_fetch s i)
    then show ?case using mono by (simp add: log_inv_def)
  next
    case (lg_enter s i f now later g)
    then have "gc_step options {f} (sys_gc s) g" using gs_enter [of "sys_gc s" i f "{f}"] by blast
    moreover have "written g = written (sys_gc s)"
      by (simp add: lg_enter.hyps(5) gc_enter_def gc_resume_def gc_arrive_def Let_def split: prod.split)
    ultimately show ?case using log_inv_coord lg_enter assms(3) by blast
  next
    case (lg_coord s g)
    then show ?case using log_inv_coord [of crc m s options "{}" g "sys_held s"] assms(3) by simp
  qed
qed

lemma log_inv_run:
  assumes "log_init crc s0" "(log_step options crc True ^^ m) s0 s" "m < 2 ^ 64 - 1"
  shows "log_inv crc m s"
  using assms(2,3)
proof (induction m arbitrary: s)
  case 0
  then show ?case using log_inv_init [OF assms(1)] by simp
next
  case (Suc m)
  then show ?case using log_inv_step by (auto elim!: relpowp_Suc_E)
qed

section \<open>Opening after a crash of the operating system\<close>

text \<open>A prefix of a segment is a prefix of its records and a torn frame.\<close>

lemma take_seg_bytes:
  assumes "\<forall>r \<in> set rs. storable r"
  shows "\<exists>rs' rest torn. rs = rs' @ rest \<and> take k (seg_bytes crc rs) = seg_bytes crc rs' @ torn \<and> bad_tail crc torn \<and>
    (\<forall>off r. (off, r) \<in> set (layout o0 rs) \<longrightarrow> off + frame_len r \<le> o0 + k \<longrightarrow> (off, r) \<in> set (layout o0 rs'))"
  using assms
proof (induction rs arbitrary: k o0)
  case Nil
  then show ?case by (intro exI [of _ "[]"]) simp
next
  case (Cons r rs)
  show ?case
  proof (cases "frame_len r \<le> k")
    case True
    obtain rs' rest torn where IH: "rs = rs' @ rest" "take (k - frame_len r) (seg_bytes crc rs) = seg_bytes crc rs' @ torn" "bad_tail crc torn"
      "\<forall>off x. (off, x) \<in> set (layout (o0 + frame_len r) rs) \<longrightarrow> off + frame_len x \<le> o0 + frame_len r + (k - frame_len r) \<longrightarrow>
         (off, x) \<in> set (layout (o0 + frame_len r) rs')"
      using Cons.IH [of "k - frame_len r" "o0 + frame_len r"] Cons.prems by auto
    then show ?thesis using True by (intro exI [of _ "r # rs'"] exI [of _ rest] exI [of _ torn]) auto
  next
    case False
    then have "bad_tail crc (take k (encode crc r))" using Cons.prems by (intro torn_bad_tail) simp_all
    moreover have "\<not> off + frame_len x \<le> o0 + k" if "(off, x) \<in> set (layout o0 (r # rs))" for off x
    proof (cases "(off, x) = (o0, r)")
      case True
      then show ?thesis using False by simp
    next
      case neq: False
      then have "o0 + frame_len r \<le> off" using that layout_ge by auto
      then show ?thesis using False by simp
    qed
    ultimately show ?thesis
      using False by (intro exI [of _ "[]"] exI [of _ "r # rs"] exI [of _ "take k (encode crc r)"]) auto
  qed
qed

lemma os_crash_disk:
  assumes "wal_repr crc (sys_wal s) (sys_files s) (closed @ [(a, rs)])" "os_crash s fs \<and> directory_kept (sys_files s) fs"
    and "\<forall>f. f \<noteq> active_file (sys_wal s) \<longrightarrow> length (fs_content (sys_files s) f) \<le> durable (sys_gc s) f"
  shows "\<exists>rs' rest torn. rs = rs' @ rest \<and> disk_holds crc fs (closed @ [(a, rs')]) torn \<and>
    (\<forall>off r. (off, r) \<in> set (layout 0 rs) \<longrightarrow> off + frame_len r \<le> durable (sys_gc s) (active_file (sys_wal s)) \<longrightarrow> (off, r) \<in> set (layout 0 rs'))"
proof -
  note d = wal_reprD [OF assms(1)]
  note pl = assms(2) [unfolded os_crash_def directory_kept_def]
  have a: "a = active_segment_id (sys_wal s)" using d(6) by simp
  have st: "\<forall>r \<in> set rs. storable r" using d(5) by (simp add: seg_on_disk_def)
  obtain k where k: "durable (sys_gc s) (active_file (sys_wal s)) \<le> k"
      "fs_content fs (active_file (sys_wal s)) = take k (seg_bytes crc rs)"
  proof -
    obtain k where "durable (sys_gc s) (active_file (sys_wal s)) \<le> k"
        "fs_content fs (active_file (sys_wal s)) = take k (fs_content (sys_files s) (active_file (sys_wal s)))" using pl by blast
    then show ?thesis using that active_content(1) [OF assms(1)] by simp
  qed
  obtain rs' rest torn where rs: "rs = rs' @ rest" "take k (seg_bytes crc rs) = seg_bytes crc rs' @ torn" "bad_tail crc torn"
    "\<forall>off r. (off, r) \<in> set (layout 0 rs) \<longrightarrow> off + frame_len r \<le> 0 + k \<longrightarrow> (off, r) \<in> set (layout 0 rs')"
    using take_seg_bytes [OF st, of k crc 0] by blast
  have ok: "fs_ok fs" using d(1) pl by (simp add: fs_ok_def)
  have intact: "fs_content fs f = fs_content (sys_files s) f" if "f \<noteq> active_file (sys_wal s)" for f
  proof -
    obtain k where "durable (sys_gc s) f \<le> k" "fs_content fs f = take k (fs_content (sys_files s) f)" using pl by blast
    moreover have "length (fs_content (sys_files s) f) \<le> durable (sys_gc s) f" using assms(3) that by blast
    ultimately show ?thesis by simp
  qed
  have "seg_on_disk crc fs seg" if "seg \<in> set closed" for seg
  proof -
    have less: "fst seg < a" using d(3) that by (auto simp: sorted_wrt_append)
    have disk: "seg_on_disk crc (sys_files s) seg" using d(5) that by simp
    then obtain f where f: "hm_get (fs_dir (sys_files s)) (seg_name (fst seg)) = Some f"
      by (auto simp: seg_on_disk_def fs_file_def)
    have "f \<noteq> active_file (sys_wal s)" using d(1,7) f less a unfolding fs_ok_def by (metis less_irrefl seg_name_inject)
    then show ?thesis using disk f pl intact by (auto simp: seg_on_disk_def fs_file_def)
  qed
  moreover have "fs_file fs (seg_name a) = Some (seg_bytes crc rs' @ torn)" using d(7) pl k(2) rs(2) by (simp add: fs_file_def a)
  moreover have "dir_clean fs (map fst (closed @ [(a, rs')]))" using d(4) pl by (simp add: dir_clean_def fs_read_dir_def)
  ultimately have "disk_holds crc fs (closed @ [(a, rs')]) torn"
    unfolding disk_holds_def using ok d(3,9) rs(1,3) st by simp
  moreover have "(off, r) \<in> set (layout 0 rs')"
    if "(off, r) \<in> set (layout 0 rs)" "off + frame_len r \<le> durable (sys_gc s) (active_file (sys_wal s))" for off r
    using rs(4) that(1) le_trans [OF that(2) k(1)] by simp
  ultimately show ?thesis using rs(1) by blast
qed

text \<open>The start after it.\<close>

lemma open_after_os_crash:
  assumes "engine_inv crc log X e" "wal (inner e) = sys_wal s" "files e = sys_files s" "\<forall>x \<in> set log. log_id x \<noteq> - 1"
    and "os_crash s fs \<and> directory_kept (sys_files s) fs" "\<forall>f. f \<noteq> active_file (sys_wal s) \<longrightarrow> length (fs_content (sys_files s) f) \<le> durable (sys_gc s) f"
  shows "\<exists>e' log' rest. engine_open crc now fs = Inr e' \<and> engine_inv crc log' (expired_ids now log') e' \<and> log = log' @ rest \<and>
    (\<forall>seg off r f. ((seg, off), r) \<in> set log \<longrightarrow> hm_get (fs_dir fs) (seg_name seg) = Some f \<longrightarrow>
       off + frame_len r \<le> durable (sys_gc s) f \<longrightarrow> ((seg, off), r) \<in> set log')"
proof -
  note d = engine_invD [OF assms(1)]
  obtain segs where segs: "wal_repr crc (sys_wal s) (sys_files s) segs" "log = log_of segs"
    using d(1) assms(2,3) by (auto simp: wal_holds_def)
  obtain closed a rs where cl: "segs = closed @ [(a, rs)]" using wal_reprD(2) [OF segs(1)] by (metis rev_exhaust surj_pair)
  obtain rs' rest torn where p: "rs = rs' @ rest" "disk_holds crc fs (closed @ [(a, rs')]) torn"
    "\<forall>off r. (off, r) \<in> set (layout 0 rs) \<longrightarrow> off + frame_len r \<le> durable (sys_gc s) (active_file (sys_wal s)) \<longrightarrow> (off, r) \<in> set (layout 0 rs')"
    using os_crash_disk [OF segs(1) [unfolded cl] assms(5,6)] by blast
  define log' where "log' = log_of (closed @ [(a, rs')])"
  obtain log'' where log: "log = log' @ log''" using segs(2) by (auto simp: log'_def cl p(1) seg_log_def layout_append)
  obtain w' fs' where "wal_open crc fs None = (w', fs')" "wal_repr crc w' fs' (closed @ [(a, rs')])"
    using wal_open_spec [OF p(2)] by blast
  then have "wal_holds crc (wal_open crc fs None) log'" unfolding wal_holds_def log'_def by auto
  moreover have "log_wf log'" using d(3) log log_wf_prefix by blast
  ultimately obtain e' where e': "engine_open crc now fs = Inr e'" "engine_inv crc log' (expired_ids now log') e'"
    using engine_open_spec [of crc fs log' now] assms(4) log by auto
  have "((seg, off), r) \<in> set log'" if "((seg, off), r) \<in> set log" "hm_get (fs_dir fs) (seg_name seg) = Some f"
    "off + frame_len r \<le> durable (sys_gc s) f" for seg off r f
  proof (cases "((seg, off), r) \<in> set (log_of closed)")
    case False
    then have act: "seg = a" "(off, r) \<in> set (layout 0 rs)" using that(1) segs(2) by (auto simp: cl seg_log_def)
    have "f = active_file (sys_wal s)"
      using that(2) act(1) wal_reprD(6,7) [OF segs(1)] assms(5) by (simp add: cl directory_kept_def)
    then show ?thesis using p(3) act that(3) by (force simp: log'_def seg_log_def)
  qed (simp add: log'_def)
  then show ?thesis using e' log by blast
qed

section \<open>An opened engine is a start\<close>

definition inodes_ok :: "fsys \<Rightarrow> bool" where
  "inodes_ok fs \<longleftrightarrow> fs_ok fs \<and> unused_empty fs"

lemma inodes_ok_remove: "inodes_ok fs \<Longrightarrow> inodes_ok (fs_remove fs n)"
  unfolding inodes_ok_def using fs_ok_remove by (auto simp: unused_empty_def) (simp add: fs_remove_def)

lemma inodes_ok_foldl: "inodes_ok fs \<Longrightarrow> (\<And>fs x. inodes_ok fs \<Longrightarrow> inodes_ok (f fs x)) \<Longrightarrow> inodes_ok (foldl f fs xs)"
  by (induction xs arbitrary: fs) auto

lemma inodes_ok_recover: "inodes_ok fs \<Longrightarrow> inodes_ok (recover_compaction fs)"
  unfolding recover_compaction_def Let_def
  by (auto split: option.split intro!: inodes_ok_remove inodes_ok_foldl)

lemma inodes_ok_temporaries: "inodes_ok fs \<Longrightarrow> inodes_ok (remove_temporaries fs)"
  unfolding remove_temporaries_def by (intro inodes_ok_foldl inodes_ok_remove)

lemma inodes_ok_wal_open:
  assumes "inodes_ok fs" "wal_open crc fs m = (w, fs')"
  shows "inodes_ok fs'"
proof -
  define fs1 where "fs1 = remove_temporaries (recover_compaction fs)"
  have fs1: "inodes_ok fs1" unfolding fs1_def by (intro inodes_ok_temporaries inodes_ok_recover assms(1))
  define max_id where "max_id = foldl (\<lambda>m s. if s > m then s else m) 0 (segment_ids (recover_compaction fs))"
  obtain i fs2 where o: "fs_open_append fs1 (seg_name (if max_id = 0 then 1 else max_id)) = (i, fs2)" by fastforce
  have fs2: "inodes_ok fs2" "i < fs_next fs2"
    using open_append_content [OF _ _ o] fs_ok_open_append [OF _ o] fs1 by (simp_all add: inodes_ok_def)
  have "fs' = (if scan_valid crc (fs_content fs2 i) 0 < length (fs_content fs2 i)
      then fs_set_len fs2 i (scan_valid crc (fs_content fs2 i) 0) else fs2)"
    using assms(2) unfolding wal_open_def Let_def fs1_def [symmetric] max_id_def [symmetric] o by simp
  then show ?thesis using fs2 by (simp add: inodes_ok_def unused_empty_def fs_set_len_def)
qed

lemma inodes_ok_engine_open:
  assumes "inodes_ok fs" "engine_open crc now fs = Inr e"
  shows "inodes_ok (files e)"
  using assms(2) inodes_ok_temporaries [OF inodes_ok_wal_open [OF assms(1), of crc None]]
  by (auto simp: engine_open_def recover_def iter_all_def Let_def split: prod.splits sum.splits)

text \<open>The system around an engine that was just opened; nothing need be durable yet.\<close>

definition fresh_system :: "Engine \<Rightarrow> LogSystem" where
  "fresh_system e =
     \<lparr>sys_wal = wal (inner e), sys_files = files e,
      sys_gc = gc_start\<lparr>written := (\<lambda>f. length (fs_content (files e) f)),
        durable := (\<lambda>f. if f = active_file (wal (inner e)) then 0 else length (fs_content (files e) f))\<rparr>,
      sys_held = (\<lambda>_. None)\<rparr>"

lemma fresh_system_init:
  assumes "engine_inv crc log X e" "inodes_ok (files e)"
  shows "log_init crc (fresh_system e)"
  using engine_invD(1) [OF assms(1)] assms(2) by (auto simp: log_init_def fresh_system_def gc_start_def inodes_ok_def)

section \<open>A run\<close>

text \<open>
  A new engine; a client pushes a task, takes the active file, joins a batch, commits it and
  is confirmed.
\<close>

definition run_pushed :: LogSystem where
  "run_pushed = (fresh_system demo_new)\<lparr>sys_wal := wal (inner demo_pushed), sys_files := files demo_pushed,
     sys_gc := note_append (wal (inner demo_new)) (files demo_new) (wal (inner demo_pushed)) (files demo_pushed) (sys_gc (fresh_system demo_new))\<rparr>"

definition run_held :: LogSystem where
  "run_held = run_pushed\<lparr>sys_held := (sys_held run_pushed)(0 := Some (active_file (sys_wal run_pushed)))\<rparr>"

definition run_commit :: LogSystem where
  "run_commit = run_held\<lparr>sys_gc := gc_enter default_config 0 0 0 (active_file (sys_wal run_pushed)) (sys_gc run_held),
     sys_held := (sys_held run_held)(0 := None)\<rparr>"

lemma push_appends:
  assumes "push crc io p pr e = (Inr k, e')"
  shows "\<exists>l. wal_append crc io (new_record (next_id (inner e)) Created pr p) (wal (inner e)) (files e) =
    (Inr l, wal (inner e'), files e')"
proof -
  obtain res w fs where "wal_append crc io (new_record (next_id (inner e)) Created pr p) (wal (inner e)) (files e) = (res, w, fs)"
    by (metis prod_cases3)
  then show ?thesis using assms by (cases res) (auto simp: push_def log_append_def Let_def notify_def)
qed

lemma run_commit_threads:
  "gc_threads (sys_gc run_commit) = (\<lambda>_. Outside)(0 := Flushing 1 (active_file (sys_wal run_pushed))
     (written (sys_gc run_pushed) (active_file (sys_wal run_pushed))) (written (sys_gc run_pushed) (active_file (sys_wal run_pushed))))"
  by (simp add: run_commit_def run_held_def run_pushed_def fresh_system_def note_append_def gc_eval fun_eq_iff Let_def)

text \<open>A committer whose \<open>fsync\<close> succeeds is confirmed two steps later.\<close>

lemma commit_confirmed:
  assumes "gc_threads (sys_gc s) i = Flushing b f n k" "k \<le> written (sys_gc s) f" "sync_mode options = Standard"
  shows "\<exists>s'. (log_step options crc strict ^^ 2) s s' \<and> sys_wal s' = sys_wal s \<and> sys_files s' = sys_files s \<and>
    gc_threads (sys_gc s') i = Returned f n (Inr ())"
proof -
  let ?g = "sys_gc s"
  let ?g1 = "?g\<lparr>gc_threads := (gc_threads ?g)(i := Flushed b f n (Inr ())), durable := (durable ?g)(f := max (durable ?g f) k)\<rparr>"
  let ?g2 = "?g1\<lparr>gc_state := gc_finish b (Inr ()) (gc_state ?g1), gc_threads := (notify_all (gc_threads ?g1))(i := Returned f n (Inr ()))\<rparr>"
  have "gc_step options {} ?g ?g1"
    using gs_fsync [OF assms(1) refl order_refl assms(2), of options "{}" os_ok] assms(3) by (simp add: perform_sync_def os_ok_def)
  then have 1: "log_step options crc strict s (s\<lparr>sys_gc := ?g1\<rparr>)"
    by (rule lg_coord) (auto simp: stale_commit_def split: if_splits)
  have "gc_step options {} ?g1 ?g2" by (rule gs_finish) simp
  then have "log_step options crc strict (s\<lparr>sys_gc := ?g1\<rparr>) ((s\<lparr>sys_gc := ?g1\<rparr>)\<lparr>sys_gc := ?g2\<rparr>)"
    using lg_coord [of options "s\<lparr>sys_gc := ?g1\<rparr>" ?g2 strict crc]
    by (auto simp: stale_commit_def notify_all_def split: if_splits gc_pc.splits)
  with 1 have "(log_step options crc strict ^^ Suc (Suc 0)) s ((s\<lparr>sys_gc := ?g1\<rparr>)\<lparr>sys_gc := ?g2\<rparr>)"
    by (meson relpowp_0_I relpowp_Suc_I)
  then show ?thesis by (intro exI [of _ "(s\<lparr>sys_gc := ?g1\<rparr>)\<lparr>sys_gc := ?g2\<rparr>"]) (simp add: numeral_2_eq_2)
qed

lemma run_confirmed:
  "\<exists>s. (log_step default_config byte_sum True ^^ 5) (fresh_system demo_new) s \<and> sys_wal s = wal (inner demo_pushed) \<and>
    sys_files s = files demo_pushed \<and>
    gc_threads (sys_gc s) 0 = Returned (active_file (wal (inner demo_pushed))) (length (fs_content (files demo_pushed) (active_file (wal (inner demo_pushed))))) (Inr ())"
proof -
  let ?S = "log_step default_config byte_sum True" and ?f = "active_file (wal (inner demo_pushed))"
  have same: "sys_wal run_pushed = wal (inner demo_pushed)" "sys_files run_pushed = files demo_pushed"
      "written (sys_gc run_pushed) ?f = length (fs_content (files demo_pushed) ?f)"
    by (simp_all add: run_pushed_def note_append_def)
  have pc: "gc_threads (sys_gc run_commit) 0 = Flushing 1 ?f (length (fs_content (files demo_pushed) ?f)) (length (fs_content (files demo_pushed) ?f))"
    by (simp add: run_commit_threads same)
  have wr: "length (fs_content (files demo_pushed) ?f) \<le> written (sys_gc run_commit) ?f"
    by (simp add: run_commit_def run_held_def gc_enter_def gc_resume_def gc_arrive_def gc_join_def same split: prod.splits)
  have mode: "sync_mode default_config = Standard" by (simp add: default_config_def)
  have "storable (new_record 1 Created 5 [1, 2])" by (simp add: storable_def MAX_PAYLOAD_SIZE_def)
  then have "?S (fresh_system demo_new) run_pushed"
    using push_appends [OF demo_pushed(1)] lg_append [of _ AppendOk "fresh_system demo_new"]
    by (auto simp: run_pushed_def fresh_system_def io_clean_def demo_new(2,3))
  moreover have "?S run_pushed run_held"
    unfolding run_held_def by (rule lg_fetch) (simp add: run_pushed_def fresh_system_def note_append_def gc_start_def)
  moreover have "?S run_held run_commit"
    unfolding run_commit_def
  proof (rule lg_enter)
    show "\<not> (True \<and> stale_commit (active_file (sys_wal run_held)) (sys_gc run_held)
        (gc_enter default_config 0 0 0 (active_file (sys_wal run_pushed)) (sys_gc run_held)))"
      using run_commit_threads by (auto simp: stale_commit_def run_commit_def run_held_def split: if_splits)
  qed (simp_all add: run_held_def run_pushed_def fresh_system_def note_append_def gc_start_def)
  moreover obtain s where s: "(?S ^^ 2) run_commit s" "sys_wal s = sys_wal run_commit" "sys_files s = sys_files run_commit"
      "gc_threads (sys_gc s) 0 = Returned ?f (length (fs_content (files demo_pushed) ?f)) (Inr ())"
    using commit_confirmed [OF pc wr mode] by blast
  ultimately have "(?S ^^ Suc (Suc (Suc 2))) (fresh_system demo_new) s" by (meson relpowp_Suc_I2)
  then show ?thesis using s(2-4) same by (intro exI [of _ s]) (simp add: run_commit_def run_held_def)
qed

section \<open>Properties\<close>

text \<open>
  C7. Durability end to end: whatever the interleaving of appends, rotations and calls of
  \<open>sync\<close>, as long as no batch is committed by a caller whose file has been rotated away,
  a confirmed \<open>sync\<close> is a promise. After a crash of the operating system that keeps what was
  synced of every file, and under the condition that the directory still has its entries, the
  engine opens again; its log is a prefix of the log at the crash, and every record that the
  confirmed caller's file held when it called \<open>sync\<close> is in it.
\<close>

theorem confirmed_sync_survives_os_crash:
  assumes "log_init crc s0" "(log_step options crc True ^^ m) s0 s" "m < 2 ^ 64 - 1"
    and "gc_threads (sys_gc s) i = Returned f n (Inr ())"
    and "engine_inv crc log X e" "wal (inner e) = sys_wal s" "files e = sys_files s" "\<forall>x \<in> set log. log_id x \<noteq> - 1"
    and "os_crash s fs" "directory_kept (sys_files s) fs"
  shows "\<exists>e' log' rest. engine_open crc now fs = Inr e' \<and> engine_inv crc log' (expired_ids now log') e' \<and> log = log' @ rest \<and>
    (\<forall>seg off r. ((seg, off), r) \<in> set log \<longrightarrow> hm_get (fs_dir fs) (seg_name seg) = Some f \<longrightarrow> off + frame_len r \<le> n \<longrightarrow>
       ((seg, off), r) \<in> set log')"
proof -
  have inv: "log_inv crc m s" by (rule log_inv_run [OF assms(1-3)])
  then have n: "n \<le> durable (sys_gc s) f" using gc_dataD(7) assms(4) unfolding log_inv_def by blast
  have "\<forall>f. f \<noteq> active_file (sys_wal s) \<longrightarrow> length (fs_content (sys_files s) f) \<le> durable (sys_gc s) f"
    using inv unfolding log_inv_def by blast
  from open_after_os_crash [OF assms(5-8) conjI [OF assms(9,10)] this, of now] obtain e' log' rest
    where o: "engine_open crc now fs = Inr e'" "engine_inv crc log' (expired_ids now log') e'" "log = log' @ rest"
      "\<forall>seg off r f. ((seg, off), r) \<in> set log \<longrightarrow> hm_get (fs_dir fs) (seg_name seg) = Some f \<longrightarrow>
         off + frame_len r \<le> durable (sys_gc s) f \<longrightarrow> ((seg, off), r) \<in> set log'" by blast
  have "((seg, off), r) \<in> set log'" if "((seg, off), r) \<in> set log" "hm_get (fs_dir fs) (seg_name seg) = Some f" "off + frame_len r \<le> n"
    for seg off r
    using o(4) that n order_trans by blast
  then show ?thesis using o(1-3) by blast
qed

theorem confirmed_sync_survives_os_crash_witness:
  "\<exists>s e' log' rest. (log_step default_config byte_sum True ^^ 5) (fresh_system demo_new) s \<and> sys_files s = files demo_pushed \<and>
    engine_open byte_sum 0 (files demo_pushed) = Inr e' \<and> engine_inv byte_sum log' (expired_ids 0 log') e'"
proof -
  obtain s where s: "(log_step default_config byte_sum True ^^ 5) (fresh_system demo_new) s" "sys_wal s = wal (inner demo_pushed)"
      "sys_files s = files demo_pushed"
      "gc_threads (sys_gc s) 0 = Returned (active_file (wal (inner demo_pushed))) (length (fs_content (files demo_pushed) (active_file (wal (inner demo_pushed))))) (Inr ())"
    using run_confirmed by blast
  obtain log0 X0 where new: "engine_inv byte_sum log0 X0 demo_new" using demo_new(4) unfolding refines_def by blast
  have "inodes_ok (files demo_new)"
    by (rule inodes_ok_engine_open [OF _ demo_new(1)]) (simp add: inodes_ok_def unused_empty_def fs_empty_def fs_content_def hm_get_def fs_ok_def)
  then have init: "log_init byte_sum (fresh_system demo_new)" by (rule fresh_system_init [OF new])
  obtain log X where e: "engine_inv byte_sum log X demo_pushed" using demo_pushed(3) unfolding refines_def by blast
  have ids: "\<forall>x \<in> set log. log_id x \<noteq> - 1" using engine_invD(11) [OF e] by (metis not_less word_order.extremum)
  have "\<exists>k \<ge> d. xs = take k xs" for d and xs :: bytes by (intro exI [of _ "max d (length xs)"]) simp
  then have loss: "os_crash s (files demo_pushed)" unfolding os_crash_def by (simp add: s(3))
  have dir: "directory_kept (sys_files s) (files demo_pushed)" by (simp add: directory_kept_def s(3))
  show ?thesis
    using confirmed_sync_survives_os_crash [OF init s(1) _ s(4) e _ _ ids loss dir, of 0] s by auto
qed

end
