(* ===== verification/Worker_Pool.thy ===== *)
theory Worker_Pool
  imports Engine_Correct
begin

text \<open>
  The example \<open>src/examples/worker_pool.rs\<close> as a client of the engine: a producer pushes
  twelve tasks, three workers lease and finish them, and the main thread waits until nothing
  is ready or leased. The workers' calls interleave in any order with the rounds of the
  expiration thread; the run takes less time than the five seconds of a lease.
\<close>

section \<open>The producer\<close>

definition task_priority_of :: "nat \<Rightarrow> u8" where
  "task_priority_of i = (if i mod 3 = 0 then 3 else if i mod 3 = 1 then 1 else 2)"

definition task_payload_of :: "nat \<Rightarrow> bytes" where
  "task_payload_of i =
     text_bytes (''{'' @ [CHR 0x22] @ ''task_id'' @ [CHR 0x22] @ '': '' @ show_nat i @ '', '' @ [CHR 0x22] @ ''action'' @ [CHR 0x22] @
       '': '' @ [CHR 0x22] @ ''process_image'' @ [CHR 0x22] @ '', '' @ [CHR 0x22] @ ''item'' @ [CHR 0x22] @ '': '' @ [CHR 0x22] @
       ''img_'' @ show_nat i @ ''.png'' @ [CHR 0x22] @ ''}'')"

fun produce :: "(bytes \<Rightarrow> u32) \<Rightarrow> nat list \<Rightarrow> Engine \<Rightarrow> unit result \<times> Engine" where
  "produce crc [] e = (Inr (), e)"
| "produce crc (i # is) e =
     (case push crc AppendOk (task_payload_of i) (task_priority_of i) e of
        (Inl err, e) \<Rightarrow> (Inl err, e)
      | (Inr _, e) \<Rightarrow> produce crc is e)"

section \<open>The workers\<close>

datatype pool_worker = Idle | Holding Record u8 | Ended

record Pool =
  pool_engine :: Engine
  pool_running :: bool
  pool_workers :: "nat \<Rightarrow> pool_worker"
  pool_clock :: u64

definition crew :: "nat set" where
  "crew = {1, 2, 3}"

definition pool_init :: "u64 \<Rightarrow> Engine \<Rightarrow> Pool" where
  "pool_init now e =
     \<lparr>pool_engine = e, pool_running = True, pool_workers = (\<lambda>i. if i \<in> crew then Idle else Ended), pool_clock = now\<rparr>"

text \<open>What a worker does with a task: the first attempt at task 4 fails.\<close>

definition finish_task :: "(bytes \<Rightarrow> u32) \<Rightarrow> nat \<Rightarrow> Record \<Rightarrow> u8 \<Rightarrow> Engine \<Rightarrow> unit result \<times> Engine" where
  "finish_task crc i r retries e =
     (if rec_id r = 4 \<and> retries = 0 then nack crc AppendOk (rec_id r) (of_nat i) e
      else ack crc AppendOk (rec_id r) (of_nat i) e)"

text \<open>
  Steps before the time \<open>limit\<close>: an attempt to lease with its three outcomes, the end of a
  task (its result is ignored), the end of a worker, a round of the expiration thread, and the
  main thread's exit from its loop. A round is one step: before the limit no lease is over, so it
  collects nothing, and there is nothing that could come between its two sections. A worker may have tested \<open>running\<close> before the main thread
  cleared it. The flag marks the steps that advance a task.
\<close>

inductive pool_step :: "(bytes \<Rightarrow> u32) \<Rightarrow> u64 \<Rightarrow> bool \<Rightarrow> Pool \<Rightarrow> Pool \<Rightarrow> bool" for crc limit where
  ps_lease: "pool_workers s i = Idle \<Longrightarrow> has_room (pool_engine s) \<Longrightarrow> pool_clock s \<le> now \<Longrightarrow> now < limit \<Longrightarrow>
    pop_and_lease crc AppendOk now (of_nat i) 5 (pool_engine s) = (Inr (Some (r, retries)), e) \<Longrightarrow>
    pool_step crc limit True s (s\<lparr>pool_engine := e, pool_workers := (pool_workers s)(i := Holding r retries), pool_clock := now\<rparr>)"
| ps_empty: "pool_workers s i = Idle \<Longrightarrow> has_room (pool_engine s) \<Longrightarrow> pool_clock s \<le> now \<Longrightarrow> now < limit \<Longrightarrow>
    pop_and_lease crc AppendOk now (of_nat i) 5 (pool_engine s) = (Inr None, e) \<Longrightarrow>
    pool_step crc limit False s (s\<lparr>pool_engine := e, pool_clock := now\<rparr>)"
| ps_error: "pool_workers s i = Idle \<Longrightarrow> has_room (pool_engine s) \<Longrightarrow> pool_clock s \<le> now \<Longrightarrow> now < limit \<Longrightarrow>
    pop_and_lease crc AppendOk now (of_nat i) 5 (pool_engine s) = (Inl err, e) \<Longrightarrow>
    pool_step crc limit False s (s\<lparr>pool_engine := e, pool_workers := (pool_workers s)(i := Ended), pool_clock := now\<rparr>)"
| ps_finish: "pool_workers s i = Holding r retries \<Longrightarrow> has_room (pool_engine s) \<Longrightarrow>
    finish_task crc i r retries (pool_engine s) = (res, e) \<Longrightarrow>
    pool_step crc limit True s (s\<lparr>pool_engine := e, pool_workers := (pool_workers s)(i := Idle)\<rparr>)"
| ps_exit: "pool_workers s i = Idle \<Longrightarrow> \<not> pool_running s \<Longrightarrow>
    pool_step crc limit False s (s\<lparr>pool_workers := (pool_workers s)(i := Ended)\<rparr>)"
| ps_expire: "pool_clock s \<le> now \<Longrightarrow> now < limit \<Longrightarrow>
    pool_step crc limit False s (s\<lparr>pool_engine := process_expired crc ios (collect_expired now (pool_engine s)) (pool_engine s), pool_clock := now\<rparr>)"
| ps_stop: "status (pool_engine s) = (0, 0) \<Longrightarrow> pool_step crc limit False s (s\<lparr>pool_running := False\<rparr>)"

text \<open>Runs, with the number of steps that advance a task.\<close>

inductive pool_run :: "(bytes \<Rightarrow> u32) \<Rightarrow> u64 \<Rightarrow> nat \<Rightarrow> Pool \<Rightarrow> Pool \<Rightarrow> bool" for crc limit where
  run_start: "pool_run crc limit 0 s s"
| run_step: "pool_run crc limit n s s' \<Longrightarrow> pool_step crc limit b s' s'' \<Longrightarrow> pool_run crc limit (n + (if b then 1 else 0)) s s''"

section \<open>The invariant\<close>

text \<open>
  The leases are exactly the tasks that workers hold, each under the number of its worker, and
  none of them runs out before the limit.
\<close>

definition pool_rel :: "(bytes \<Rightarrow> u32) \<Rightarrow> u64 \<Rightarrow> Pool \<Rightarrow> task_spec \<Rightarrow> bool" where
  "pool_rel crc start s sp \<longleftrightarrow>
     refines crc (pool_clock s) (pool_engine s) sp \<and> spec_inv sp \<and> start \<le> pool_clock s \<and> pool_clock s < start + 5 \<and>
     (\<forall>i. pool_workers s i \<noteq> Ended \<longrightarrow> i \<in> crew) \<and>
     (\<forall>i r n. pool_workers s i = Holding r n \<longrightarrow>
        (\<exists>li. s_leased sp (rec_id r) = Some li \<and> consumer_id li = of_nat i \<and> lease_retries li = n)) \<and>
     (\<forall>k li. s_leased sp k = Some li \<longrightarrow> start + 5 \<le> expire_timestamp li \<and> (\<exists>i r n. pool_workers s i = Holding r n \<and> rec_id r = k)) \<and>
     (if pool_running s then \<forall>i \<in> crew. pool_workers s i \<noteq> Ended else s_ready sp = [] \<and> s_leased sp = Map.empty)"

lemma pool_relD:
  assumes "pool_rel crc start s sp"
  shows "refines crc (pool_clock s) (pool_engine s) sp" "spec_inv sp" "start \<le> pool_clock s" "pool_clock s < start + 5"
    "pool_workers s i \<noteq> Ended \<Longrightarrow> i \<in> crew"
    "pool_workers s i = Holding r n \<Longrightarrow> \<exists>li. s_leased sp (rec_id r) = Some li \<and> consumer_id li = of_nat i \<and> lease_retries li = n"
    "s_leased sp k = Some li \<Longrightarrow> start + 5 \<le> expire_timestamp li"
    "s_leased sp k = Some li \<Longrightarrow> \<exists>i r n. pool_workers s i = Holding r n \<and> rec_id r = k"
    "pool_running s \<Longrightarrow> i \<in> crew \<Longrightarrow> pool_workers s i \<noteq> Ended"
    "\<not> pool_running s \<Longrightarrow> s_ready sp = []" "\<not> pool_running s \<Longrightarrow> s_leased sp = Map.empty"
proof -
  show "refines crc (pool_clock s) (pool_engine s) sp" "spec_inv sp" "start \<le> pool_clock s" "pool_clock s < start + 5"
    "pool_workers s i \<noteq> Ended \<Longrightarrow> i \<in> crew"
    "pool_workers s i = Holding r n \<Longrightarrow> \<exists>li. s_leased sp (rec_id r) = Some li \<and> consumer_id li = of_nat i \<and> lease_retries li = n"
    "s_leased sp k = Some li \<Longrightarrow> start + 5 \<le> expire_timestamp li"
    "s_leased sp k = Some li \<Longrightarrow> \<exists>i r n. pool_workers s i = Holding r n \<and> rec_id r = k"
    using assms unfolding pool_rel_def by blast+
  have r: "if pool_running s then \<forall>i \<in> crew. pool_workers s i \<noteq> Ended else s_ready sp = [] \<and> s_leased sp = Map.empty"
    using assms unfolding pool_rel_def by blast
  show "pool_running s \<Longrightarrow> i \<in> crew \<Longrightarrow> pool_workers s i \<noteq> Ended"
    "\<not> pool_running s \<Longrightarrow> s_ready sp = []" "\<not> pool_running s \<Longrightarrow> s_leased sp = Map.empty"
    using r by (simp_all split: if_splits)
qed

lemma pool_relI:
  assumes "refines crc (pool_clock s) (pool_engine s) sp" "spec_inv sp" "start \<le> pool_clock s" "pool_clock s < start + 5"
    and "\<And>i. pool_workers s i \<noteq> Ended \<Longrightarrow> i \<in> crew"
    and "\<And>i r n. pool_workers s i = Holding r n \<Longrightarrow> \<exists>li. s_leased sp (rec_id r) = Some li \<and> consumer_id li = of_nat i \<and> lease_retries li = n"
    and "\<And>k li. s_leased sp k = Some li \<Longrightarrow> start + 5 \<le> expire_timestamp li"
    and "\<And>k li. s_leased sp k = Some li \<Longrightarrow> \<exists>i r n. pool_workers s i = Holding r n \<and> rec_id r = k"
    and "\<And>i. pool_running s \<Longrightarrow> i \<in> crew \<Longrightarrow> pool_workers s i \<noteq> Ended"
    and "\<not> pool_running s \<Longrightarrow> s_ready sp = [] \<and> s_leased sp = Map.empty"
  shows "pool_rel crc start s sp"
  using assms unfolding pool_rel_def by simp

text \<open>No two workers hold one task.\<close>

lemma worker_number:
  assumes "i \<in> crew" "j \<in> crew" "(of_nat i :: u32) = of_nat j"
  shows "i = j"
proof -
  have "i < 2 ^ 32" "j < 2 ^ 32" using assms(1,2) by (auto simp: crew_def)
  moreover have "unat (of_nat i :: u32) = unat (of_nat j :: u32)" using assms(3) by simp
  ultimately show ?thesis by (simp add: unat_of_nat)
qed

lemma holders_differ:
  assumes "pool_rel crc start s sp" "pool_workers s i = Holding r n" "pool_workers s j = Holding r' n'" "rec_id r = rec_id r'"
  shows "i = j"
proof -
  obtain li where "s_leased sp (rec_id r) = Some li" "consumer_id li = of_nat i" "consumer_id li = of_nat j"
    using pool_relD(6) [OF assms(1,2)] pool_relD(6) [OF assms(1,3)] assms(4) by auto
  moreover have "i \<in> crew" "j \<in> crew" using pool_relD(5) [OF assms(1)] assms(2,3) by simp_all
  ultimately show ?thesis using worker_number by simp
qed

section \<open>What is left to do\<close>

definition attempts :: "u64 \<Rightarrow> u8 \<Rightarrow> nat" where
  "attempts k retries = (if k = 4 \<and> retries = 0 then 2 else 1)"

definition ready_left :: "task_spec \<Rightarrow> nat" where
  "ready_left sp = sum_list (map (\<lambda>t. 2 * attempts (task_id t) (task_retries t)) (s_ready sp))"

fun held_left :: "pool_worker \<Rightarrow> nat" where
  "held_left (Holding r n) = 2 * attempts (rec_id r) n - 1"
| "held_left _ = 0"

definition pool_left :: "Pool \<Rightarrow> task_spec \<Rightarrow> nat" where
  "pool_left s sp = ready_left sp + (\<Sum>i \<in> crew. held_left (pool_workers s i))"

lemma sum_insert_after: "sum_list (map f (insert_after g t xs)) = (f t + sum_list (map f xs) :: nat)"
  by (induction xs) auto

lemma held_update:
  assumes "i \<in> crew"
  shows "(\<Sum>j \<in> crew. held_left ((w(i := x)) j)) + held_left (w i) = (\<Sum>j \<in> crew. held_left (w j)) + held_left x"
  by (rule sum_update [OF _ assms]) (simp add: crew_def)

section \<open>Steps\<close>

lemma rel_lease:
  assumes "pool_rel crc start s sp" "unat start + 10 < 2 ^ 64" "pool_workers s i = Idle" "has_room (pool_engine s)"
    and "pool_clock s \<le> now" "now < start + 5"
    and "pop_and_lease crc AppendOk now (of_nat i) 5 (pool_engine s) = (Inr (Some (r, n)), e)"
  shows "pool_rel crc start (s\<lparr>pool_engine := e, pool_workers := (pool_workers s)(i := Holding r n), pool_clock := now\<rparr>)
      (spec_pop (of_nat i) (now + 5) sp)"
    "Suc (pool_left (s\<lparr>pool_engine := e, pool_workers := (pool_workers s)(i := Holding r n), pool_clock := now\<rparr>)
      (spec_pop (of_nat i) (now + 5) sp)) = pool_left s sp"
proof -
  note d = pool_relD [OF assms(1)]
  have ref: "refines crc now (pool_engine s) sp" by (rule refines_mono [OF d(1) assms(5)])
  obtain t ts where t: "s_ready sp = t # ts"
    using pop_empty_sim [OF ref, of AppendOk "of_nat i" 5] assms(7) by (cases "s_ready sp") auto
  obtain p where p: "r = new_record (task_id t) Created (task_priority t) p" "n = task_retries t"
      "refines crc now e (spec_pop (of_nat i) (now + 5) sp)"
    using pop_sim [OF ref assms(4) t, of "of_nat i" 5] assms(7) by auto
  have i: "i \<in> crew" using d(5) assms(3) by simp
  have late: "start + 5 \<le> now + 5"
  proof -
    have "unat (start + 5) = unat start + 5" using assms(2) by (subst unat_add_lem [THEN iffD1]) simp_all
    moreover have "start \<le> now" using d(3) assms(5) by simp
    moreover from this have "unat (now + 5) = unat now + 5"
      using assms(2,6) calculation(1) by (subst unat_add_lem [THEN iffD1]) (simp_all add: word_less_nat_alt)
    ultimately show ?thesis by (simp add: word_le_nat_alt)
  qed
  show "pool_rel crc start (s\<lparr>pool_engine := e, pool_workers := (pool_workers s)(i := Holding r n), pool_clock := now\<rparr>)
      (spec_pop (of_nat i) (now + 5) sp)" (is "pool_rel crc start ?s ?sp")
  proof (rule pool_relI)
    have free: "s_leased sp (task_id t) = None" using spec_invD(3) [OF d(2), of t] t by simp
    have leased: "s_leased ?sp = (s_leased sp)(task_id t \<mapsto> lease_info (of_nat i) (now + 5) n (task_priority t))"
      by (simp add: spec_pop_def t p(2))
    show "\<exists>li. s_leased ?sp (rec_id r') = Some li \<and> consumer_id li = of_nat j \<and> lease_retries li = n'"
      if "pool_workers ?s j = Holding r' n'" for j r' n'
    proof (cases "j = i")
      case True
      then show ?thesis using that p(1) by (auto simp: leased lease_info_def)
    next
      case False
      then have h: "pool_workers s j = Holding r' n'" using that by simp
      then have "rec_id r' \<noteq> task_id t" using d(6) [OF h] free by auto
      then show ?thesis using d(6) [OF h] by (simp add: leased)
    qed
    show "start + 5 \<le> expire_timestamp li" if "s_leased ?sp k = Some li" for k li
      using that d(7) [of k li] late by (auto simp: leased lease_info_def split: if_splits)
    show "\<exists>j r' n'. pool_workers ?s j = Holding r' n' \<and> rec_id r' = k" if "s_leased ?sp k = Some li" for k li
    proof (cases "k = task_id t")
      case True
      then show ?thesis using p(1) by (intro exI [of _ i] exI [of _ r] exI [of _ n]) simp
    next
      case False
      then have "s_leased sp k = Some li" using that by (simp add: leased)
      then obtain j r' n' where "pool_workers s j = Holding r' n'" "rec_id r' = k" using d(8) by blast
      then show ?thesis using assms(3) by (intro exI [of _ j] exI [of _ r'] exI [of _ n']) auto
    qed
  qed (use p(3) spec_inv_pop [OF d(2) t] d(3,5,9,10) assms(5,6) i t in \<open>auto split: if_splits\<close>)
  show "Suc (pool_left (s\<lparr>pool_engine := e, pool_workers := (pool_workers s)(i := Holding r n), pool_clock := now\<rparr>)
      (spec_pop (of_nat i) (now + 5) sp)) = pool_left s sp"
    using held_update [OF i, of "pool_workers s" "Holding r n"] assms(3)
    by (simp add: pool_left_def ready_left_def spec_pop_def t p(1,2) attempts_def del: sum.insert split: if_splits)
qed

lemma rel_released:
  assumes "pool_rel crc start s sp" "pool_workers s i = Holding r n"
    and "refines crc (pool_clock s) e sp'" "spec_inv sp'" "s_leased sp' = (s_leased sp)(rec_id r := None)"
  shows "pool_rel crc start (s\<lparr>pool_engine := e, pool_workers := (pool_workers s)(i := Idle)\<rparr>) sp'" (is "pool_rel crc start ?s sp'")
proof -
  note d = pool_relD [OF assms(1)]
  have run: "pool_running s" using d(6) [OF assms(2)] d(11) by force
  show ?thesis
  proof (rule pool_relI)
    show "\<exists>li. s_leased sp' (rec_id r') = Some li \<and> consumer_id li = of_nat j \<and> lease_retries li = n'"
      if "pool_workers ?s j = Holding r' n'" for j r' n'
    proof -
      have h: "j \<noteq> i" "pool_workers s j = Holding r' n'" using that by (auto split: if_splits)
      then have "rec_id r' \<noteq> rec_id r" using holders_differ [OF assms(1) h(2) assms(2)] by auto
      then show ?thesis using d(6) [OF h(2)] by (simp add: assms(5))
    qed
    show "\<exists>j r' n'. pool_workers ?s j = Holding r' n' \<and> rec_id r' = k" if "s_leased sp' k = Some li" for k li
    proof -
      have "k \<noteq> rec_id r" "s_leased sp k = Some li" using that by (auto simp: assms(5) split: if_splits)
      then obtain j r' n' where "pool_workers s j = Holding r' n'" "rec_id r' = k" using d(8) [of k li] by blast
      then show ?thesis using assms(2) \<open>k \<noteq> rec_id r\<close> by (intro exI [of _ j] exI [of _ r'] exI [of _ n']) auto
    qed
    show "start + 5 \<le> expire_timestamp li" if "s_leased sp' k = Some li" for k li
      using that d(7) [of k li] by (auto simp: assms(5) split: if_splits)
    show "j \<in> crew" if "pool_workers ?s j \<noteq> Ended" for j using that d(5) [of j] d(5) [of i] assms(2) by (cases "j = i") simp_all
    show "pool_workers ?s j \<noteq> Ended" if "j \<in> crew" for j using that d(9) [OF run] by (cases "j = i") simp_all
  qed (use assms(3,4) d(3,4) run in simp_all)
qed

lemma rel_finish:
  assumes "pool_rel crc start s sp" "pool_workers s i = Holding r n" "has_room (pool_engine s)"
    and "finish_task crc i r n (pool_engine s) = (res, e)"
  shows "res = Inr ()"
    "\<exists>sp'. pool_rel crc start (s\<lparr>pool_engine := e, pool_workers := (pool_workers s)(i := Idle)\<rparr>) sp' \<and>
      Suc (pool_left (s\<lparr>pool_engine := e, pool_workers := (pool_workers s)(i := Idle)\<rparr>) sp') = pool_left s sp"
proof -
  note d = pool_relD [OF assms(1)]
  let ?s = "s\<lparr>pool_engine := e, pool_workers := (pool_workers s)(i := Idle)\<rparr>" and ?k = "rec_id r"
  obtain li where li: "s_leased sp ?k = Some li" "consumer_id li = of_nat i" "lease_retries li = n" using d(6) [OF assms(2)] by blast
  have i: "i \<in> crew" using d(5) assms(2) by simp
  have "\<exists>sp'. res = Inr () \<and> refines crc (pool_clock s) e sp' \<and> spec_inv sp' \<and> s_leased sp' = (s_leased sp)(?k := None) \<and>
      Suc (ready_left sp') = ready_left sp + held_left (Holding r n)"
  proof (cases "?k = 4 \<and> n = 0")
    case True
    obtain e' where "nack crc AppendOk ?k (of_nat i) (pool_engine s) = (Inr (), e')" "refines crc (pool_clock s) e' (spec_fail ?k li sp)"
      using nack_sim [OF d(1) assms(3) li(1,2)] by blast
    moreover have "spec_fail ?k li sp = spec_retry ?k (lease_priority li) 1 sp" using True li(3) by (simp add: spec_fail_def MAX_RETRIES_def word_le_nat_alt)
    ultimately have "res = Inr ()" "refines crc (pool_clock s) e (spec_retry ?k (lease_priority li) 1 sp)"
      using assms(4) True by (simp_all add: finish_task_def)
    moreover have "spec_inv (spec_retry ?k (lease_priority li) 1 sp)" using spec_inv_retry [OF d(2) li(1)] by (simp add: MAX_RETRIES_def word_less_nat_alt)
    ultimately show ?thesis
      using True by (intro exI [of _ "spec_retry ?k (lease_priority li) 1 sp"])
        (simp add: spec_retry_def ready_left_def sum_insert_after attempts_def)
  next
    case False
    obtain e' where "ack crc AppendOk ?k (of_nat i) (pool_engine s) = (Inr (), e')" "refines crc (pool_clock s) e' (spec_finish ?k sp)"
      using ack_sim [OF d(1) assms(3) li(1,2)] by blast
    then have "res = Inr ()" "refines crc (pool_clock s) e (spec_finish ?k sp)" using assms(4) False by (auto simp: finish_task_def)
    then show ?thesis
      using spec_inv_finish [OF d(2) li(1)] False by (intro exI [of _ "spec_finish ?k sp"])
        (auto simp: spec_finish_def ready_left_def attempts_def)
  qed
  then obtain sp' where sp': "res = Inr ()" "refines crc (pool_clock s) e sp'" "spec_inv sp'" "s_leased sp' = (s_leased sp)(?k := None)"
      "Suc (ready_left sp') = ready_left sp + held_left (Holding r n)" by blast
  show "res = Inr ()" by (rule sp'(1))
  have "Suc (pool_left ?s sp') = pool_left s sp"
    using held_update [OF i, of "pool_workers s" Idle] sp'(5) assms(2) by (simp add: pool_left_def)
  then show "\<exists>sp'. pool_rel crc start ?s sp' \<and> Suc (pool_left ?s sp') = pool_left s sp"
    using rel_released [OF assms(1,2) sp'(2-4)] by blast
qed

text \<open>Steps that leave the tasks alone.\<close>

lemma rel_idle:
  assumes "pool_rel crc start s sp" "pool_clock s \<le> now" "now < start + 5"
  shows "pool_rel crc start (s\<lparr>pool_clock := now\<rparr>) sp" "pool_left (s\<lparr>pool_clock := now\<rparr>) sp = pool_left s sp"
proof -
  note d = pool_relD [OF assms(1)]
  show "pool_rel crc start (s\<lparr>pool_clock := now\<rparr>) sp"
    by (rule pool_relI) (use d refines_mono [OF d(1) assms(2)] assms(2,3) in \<open>auto\<close>)
  show "pool_left (s\<lparr>pool_clock := now\<rparr>) sp = pool_left s sp" by (simp add: pool_left_def)
qed

lemma rel_expire:
  assumes "pool_rel crc start s sp" "now < start + 5" "pool_clock s \<le> now"
  shows "process_expired crc ios (collect_expired now (pool_engine s)) (pool_engine s) = pool_engine s"
proof -
  note d = pool_relD [OF assms(1)]
  have "(k, pr, n) \<notin> set (collect_expired now (pool_engine s))" for k pr n
    using collect_expired_set [OF refines_mono [OF d(1) assms(3)]] d(7) assms(2) by force
  then have "collect_expired now (pool_engine s) = []" by (metis list.set_intros(1) neq_Nil_conv prod_cases3)
  then show ?thesis by (simp add: process_expired_def)
qed

lemma pop_outcome:
  assumes "refines crc now e sp" "has_room e"
  shows "pop_and_lease crc AppendOk now c ttl e = (Inr None, e') \<Longrightarrow> e' = e" "pop_and_lease crc AppendOk now c ttl e \<noteq> (Inl err, e')"
  using pop_empty_sim [OF assms(1), of AppendOk c ttl] pop_sim [OF assms, of _ _ c ttl] by (cases "s_ready sp"; fastforce)+

lemma rel_exit:
  assumes "pool_rel crc start s sp" "\<not> pool_running s" "pool_workers s i = Idle"
  shows "pool_rel crc start (s\<lparr>pool_workers := (pool_workers s)(i := Ended)\<rparr>) sp"
    "pool_left (s\<lparr>pool_workers := (pool_workers s)(i := Ended)\<rparr>) sp = pool_left s sp"
proof -
  note d = pool_relD [OF assms(1)]
  have none: "pool_workers s j \<noteq> Holding r n" for j r n using d(6) [of j r n] d(11) [OF assms(2)] by auto
  show "pool_rel crc start (s\<lparr>pool_workers := (pool_workers s)(i := Ended)\<rparr>) sp"
  proof (rule pool_relI)
    show "j \<in> crew" if "pool_workers (s\<lparr>pool_workers := (pool_workers s)(i := Ended)\<rparr>) j \<noteq> Ended" for j
      using that d(5) [of j] by (simp split: if_splits)
  qed (use d(1-4,10,11) assms(2) none in \<open>simp_all split: if_splits\<close>)
  have "i \<in> crew" using d(5) assms(3) by simp
  then show "pool_left (s\<lparr>pool_workers := (pool_workers s)(i := Ended)\<rparr>) sp = pool_left s sp"
    using held_update [of i "pool_workers s" Ended] assms(3) by (simp add: pool_left_def)
qed

lemma nothing_left:
  assumes "refines crc now e sp" "status e = (0, 0)"
  shows "s_ready sp = []" "s_leased sp = Map.empty"
proof -
  show "s_ready sp = []" using bq.size_list [OF refines_memory(3) [OF assms(1)]] refines_memory(1) [OF assms(1)] assms(2) by (simp add: status_def)
  have "hm_get (leased (inner e)) k = None" for k using assms(2) by (simp add: status_def hm_get_def)
  then show "s_leased sp = Map.empty" using refines_memory(2) [OF assms(1)] by (simp add: fun_eq_iff)
qed

lemma rel_stop:
  assumes "pool_rel crc start s sp" "status (pool_engine s) = (0, 0)"
  shows "pool_rel crc start (s\<lparr>pool_running := False\<rparr>) sp" "pool_left (s\<lparr>pool_running := False\<rparr>) sp = pool_left s sp"
proof -
  note d = pool_relD [OF assms(1)]
  show "pool_rel crc start (s\<lparr>pool_running := False\<rparr>) sp"
    by (rule pool_relI) (use d(1-6) nothing_left [OF d(1) assms(2)] in simp_all)
  show "pool_left (s\<lparr>pool_running := False\<rparr>) sp = pool_left s sp" by (simp add: pool_left_def)
qed

lemma pool_rel_step:
  assumes "pool_step crc (start + 5) b s s'" "pool_rel crc start s sp" "unat start + 10 < 2 ^ 64"
  shows "\<exists>sp'. pool_rel crc start s' sp' \<and> pool_left s' sp' + (if b then 1 else 0) = pool_left s sp"
  using assms(1)
proof cases
  case (ps_lease i now r n e)
  then show ?thesis using rel_lease [OF assms(2,3) ps_lease(3-7)] by auto
next
  case (ps_empty i now e)
  have "e = pool_engine s" using pop_outcome(1) [OF refines_mono [OF pool_relD(1) [OF assms(2)] ps_empty(5)]] ps_empty(4,7) by blast
  then show ?thesis using rel_idle [OF assms(2) ps_empty(5,6)] ps_empty(1,2) by auto
next
  case (ps_error i now err e)
  then show ?thesis using pop_outcome(2) [OF refines_mono [OF pool_relD(1) [OF assms(2)] ps_error(5)]] by blast
next
  case (ps_finish i r n res e)
  then show ?thesis using rel_finish(2) [OF assms(2) ps_finish(3-5)] by auto
next
  case (ps_exit i)
  then show ?thesis using rel_exit [OF assms(2)] by auto
next
  case (ps_expire now ios)
  then show ?thesis using rel_idle [OF assms(2) ps_expire(3,4)] rel_expire [OF assms(2) ps_expire(4,3)] by auto
next
  case ps_stop
  then show ?thesis using rel_stop [OF assms(2)] by auto
qed

lemma pool_rel_run:
  assumes "pool_run crc (start + 5) n s s'" "pool_rel crc start s sp" "unat start + 10 < 2 ^ 64"
  shows "\<exists>sp'. pool_rel crc start s' sp' \<and> pool_left s' sp' + n = pool_left s sp"
  using assms(1,2)
proof (induction rule: pool_run.induct)
  case (run_step n s s' b s'')
  then obtain sp1 where 1: "pool_rel crc start s' sp1" "pool_left s' sp1 + n = pool_left s sp" by blast
  then obtain sp2 where "pool_rel crc start s'' sp2" "pool_left s'' sp2 + (if b then 1 else 0) = pool_left s' sp1"
    using pool_rel_step [OF run_step.hyps(2) _ assms(3)] by blast
  then show ?case using 1(2) by (intro exI [of _ sp2]) simp
qed auto

text \<open>Something can be done as long as something is left.\<close>

lemma pool_progress:
  assumes "pool_rel crc start s sp" "0 < pool_left s sp" "has_room (pool_engine s)"
  shows "pool_running s \<and> (\<exists>s'. pool_step crc (start + 5) True s s')"
proof -
  note d = pool_relD [OF assms(1)]
  have holding: "\<exists>s'. pool_step crc (start + 5) True s s'" if "pool_workers s i = Holding r n" for i r n
    using ps_finish [OF that assms(3)] by (metis surj_pair)
  have some: "\<exists>i \<in> crew. 0 < held_left (pool_workers s i)" if "ready_left sp = 0"
    using assms(2) that by (auto simp: pool_left_def crew_def simp del: One_nat_def)
  have run: "pool_running s"
  proof (rule ccontr)
    assume "\<not> pool_running s"
    then have "ready_left sp = 0" "pool_workers s i \<noteq> Holding r n" for i r n
      using d(10,11) d(6) [of i r n] by (auto simp: ready_left_def)
    then show False using some by (metis held_left.elims less_irrefl)
  qed
  have "\<exists>s'. pool_step crc (start + 5) True s s'"
  proof (cases "\<exists>i r n. pool_workers s i = Holding r n")
    case True
    then show ?thesis using holding by blast
  next
    case False
    then have idle: "pool_workers s 1 = Idle" using d(9) [OF run, of 1] by (cases "pool_workers s 1") (auto simp: crew_def)
    have "ready_left sp \<noteq> 0" using some False by (metis held_left.elims less_irrefl)
    then obtain t ts where t: "s_ready sp = t # ts" by (cases "s_ready sp") (auto simp: ready_left_def)
    then show ?thesis
      using pop_sim [OF d(1) assms(3) t, of "of_nat 1" 5] ps_lease [OF idle assms(3) order_refl d(4)] by blast
  qed
  then show ?thesis using run by blast
qed

section \<open>The start\<close>

lemma length_show_nat: "length (show_nat n) \<le> Suc n"
proof (induction n rule: show_nat.induct)
  case (1 n)
  show ?case
  proof (cases "n < 10")
    case False
    then have "length (show_nat n) \<le> Suc (Suc (n div 10))" using 1 by (simp add: show_nat.simps [of n])
    then show ?thesis using False by linarith
  qed (simp add: show_nat.simps [of n])
qed

lemma payload_fits: "i < 13 \<Longrightarrow> length (task_payload_of i) \<le> MAX_PAYLOAD_SIZE"
  using length_show_nat [of i] by (simp add: task_payload_of_def text_bytes_def MAX_PAYLOAD_SIZE_def)

lemma produce_ok:
  assumes "refines crc now e sp" "spec_inv sp" "next_id (inner e) = of_nat j" "room_for m e" "j + m = 13"
  shows "\<exists>e' sp'. produce crc [j..<13] e = (Inr (), e') \<and> refines crc now e' sp' \<and> spec_inv sp' \<and> s_leased sp' = s_leased sp \<and>
    ready_left sp' = ready_left sp + (\<Sum>i \<leftarrow> [j..<13]. 2 * attempts (of_nat i) 0)"
  using assms
proof (induction m arbitrary: e sp j)
  case (Suc m)
  have j: "j < 13" "[j..<13] = j # [Suc j..<13]" using Suc.prems(5) by (simp_all add: upt_rec)
  have room: "has_room e" by (rule room_for_has_room [where n = m]) (use Suc.prems(4) in simp)
  have "unat (of_nat j :: u64) = j" using j(1) by (simp add: unat_of_nat)
  then have "next_id (inner e) \<noteq> - 1" using Suc.prems(3) j(1) by (auto simp: unsigned_minus_1_eq_mask mask_eq_exp_minus_1)
  then obtain e1 where e1: "push crc AppendOk (task_payload_of j) (task_priority_of j) e = (Inr (of_nat j), e1)"
      "s_payload sp (of_nat j) = None" "refines crc now e1 (spec_push (of_nat j) (task_priority_of j) (task_payload_of j) sp)"
    using push_sim [OF Suc.prems(1) payload_fits [OF j(1)] room, of "task_priority_of j"] Suc.prems(3) by auto
  have "room_for m e1" using push_active [of crc AppendOk "task_payload_of j" "task_priority_of j" e] Suc.prems(4) by (simp add: e1(1))
  moreover have "next_id (inner e1) = of_nat (Suc j)" using push_next_id [OF e1(1)] Suc.prems(3) by simp
  ultimately show ?case
    using Suc.IH [OF e1(3) spec_inv_push [OF Suc.prems(2) e1(2)]] Suc.prems(5) e1(1)
    by (fastforce simp: j(2) spec_push_def ready_left_def sum_insert_after)
qed auto

lemma pool_started:
  assumes "engine_open crc now fs_empty = Inr e0" "unat now + 10 < 2 ^ 64"
  shows "\<exists>e sp. produce crc [1..<13] e0 = (Inr (), e) \<and> pool_rel crc now (pool_init now e) sp \<and> pool_left (pool_init now e) sp = 26"
proof -
  have ref: "refines crc now e0 spec_init" using engine_init_sim [of crc "(now, e0)"] assms(1) by (simp add: engine_init_def)
  have e0: "next_id (inner e0) = of_nat 1" "room_for 12 e0"
    using engine_open_empty [of crc now] assms(1) by (auto simp: new_state_def)
  obtain e sp where p: "produce crc [1..<13] e0 = (Inr (), e)" "refines crc now e sp" "spec_inv sp" "s_leased sp = s_leased spec_init"
      "ready_left sp = ready_left spec_init + (\<Sum>i \<leftarrow> [1..<13]. 2 * attempts (of_nat i) 0)"
    using produce_ok [OF ref spec_inv_init e0] by auto
  have "unat (now + 5) = unat now + 5" using assms(2) by (subst unat_add_lem [THEN iffD1]) simp_all
  then have "now < now + 5" by (simp add: word_less_nat_alt)
  then have "pool_rel crc now (pool_init now e) sp"
    by (intro pool_relI) (use p(2-4) in \<open>auto simp: pool_init_def spec_init_def split: if_splits\<close>)
  moreover have "ready_left sp = 26" using p(5) by (simp add: ready_left_def spec_init_def attempts_def upt_rec)
  moreover have "(\<Sum>i \<in> crew. held_left (pool_workers (pool_init now e) i)) = 0" by (simp add: pool_init_def)
  ultimately show ?thesis using p(1) by (auto simp: pool_left_def)
qed

lemma produce_active:
  "unat (active_segment_id (wal (inner (snd (produce crc is e))))) \<le> unat (active_segment_id (wal (inner e))) + length is"
proof (induction "is" arbitrary: e)
  case (Cons i "is")
  obtain res e1 where p: "push crc AppendOk (task_payload_of i) (task_priority_of i) e = (res, e1)" by fastforce
  show ?case
    using push_active [of crc AppendOk "task_payload_of i" "task_priority_of i" e] Cons.IH [of e1]
    by (cases res) (simp_all add: p)
qed simp

section \<open>Properties\<close>

text \<open>
  C23. The worker pool does its work, in every interleaving that takes less than the time of a
  lease: no two workers ever hold the same task, every acknowledgement and rejection is
  accepted, and exactly 26 steps advance a task (13 leases, 12 acknowledgements and one
  rejection). Before that the main thread is still waiting and some worker can advance; when
  the main thread leaves its loop, all of it has happened and nothing is ready or leased.
\<close>

theorem worker_pool_finishes:
  assumes "engine_open crc now fs_empty = Inr e0" "unat now + 10 < 2 ^ 64" "produce crc [1..<13] e0 = (Inr (), e)"
    and "pool_run crc (now + 5) n (pool_init now e) s"
  shows "n \<le> 26 \<and>
    (\<forall>i j r r' m m'. pool_workers s i = Holding r m \<longrightarrow> pool_workers s j = Holding r' m' \<longrightarrow> rec_id r = rec_id r' \<longrightarrow> i = j) \<and>
    (has_room (pool_engine s) \<longrightarrow>
      (\<forall>i r m. pool_workers s i = Holding r m \<longrightarrow> fst (finish_task crc i r m (pool_engine s)) = Inr ()) \<and>
      (n < 26 \<longrightarrow> pool_running s \<and> (\<exists>s'. pool_step crc (now + 5) True s s'))) \<and>
    (\<not> pool_running s \<longrightarrow> n = 26 \<and> status (pool_engine s) = (0, 0))"
proof -
  obtain sp0 where sp0: "pool_rel crc now (pool_init now e) sp0" "pool_left (pool_init now e) sp0 = 26"
    using pool_started [OF assms(1,2)] assms(3) by auto
  obtain sp where sp: "pool_rel crc now s sp" "pool_left s sp + n = 26" using pool_rel_run [OF assms(4) sp0(1) assms(2)] sp0(2) by auto
  note d = pool_relD [OF sp(1)]
  have "n = 26 \<and> status (pool_engine s) = (0, 0)" if "\<not> pool_running s"
  proof -
    have none: "pool_workers s i \<noteq> Holding r m" for i r m using d(6) [of i r m] d(11) [OF that] by auto
    then have "held_left (pool_workers s i) = 0" for i by (metis held_left.elims)
    then have "pool_left s sp = 0" using d(10) [OF that] by (simp add: pool_left_def ready_left_def)
    moreover have "leased (inner (pool_engine s)) = []"
    proof (rule ccontr)
      assume "leased (inner (pool_engine s)) \<noteq> []"
      then obtain k li rest where "leased (inner (pool_engine s)) = (k, li) # rest" by (metis neq_Nil_conv surj_pair)
      then show False using refines_memory(2) [OF d(1), of k] d(11) [OF that] by (simp add: hm_get_def)
    qed
    ultimately show ?thesis
      using sp(2) bq.size_list [OF refines_memory(3) [OF d(1)]] refines_memory(1) [OF d(1)] d(10) [OF that] by (simp add: status_def)
  qed
  moreover have "fst (finish_task crc i r m (pool_engine s)) = Inr ()" if "has_room (pool_engine s)" "pool_workers s i = Holding r m" for i r m
    using rel_finish(1) [OF sp(1) that(2,1)] by (metis surjective_pairing)
  moreover have "pool_running s \<and> (\<exists>s'. pool_step crc (now + 5) True s s')" if "has_room (pool_engine s)" "n < 26"
    using pool_progress [OF sp(1) _ that(1)] sp(2) that(2) by simp
  ultimately show ?thesis using sp(2) holders_differ [OF sp(1)] by fastforce
qed

theorem worker_pool_finishes_witness:
  "\<exists>e s'. produce byte_sum [1..<13] demo_new = (Inr (), e) \<and> pool_step byte_sum 5 True (pool_init 0 e) s'"
proof -
  obtain e where e: "produce byte_sum [1..<13] demo_new = (Inr (), e)" using pool_started [OF demo_new(1)] by auto
  have "room_for 1 e" using produce_active [of byte_sum "[1..<13]" demo_new] by (simp add: e [simplified] demo_new(2))
  then have "has_room e" using room_for_has_room [where n = 0] by simp
  with worker_pool_finishes [OF demo_new(1) _ e run_start] show ?thesis using e by (auto simp: pool_init_def)
qed

end
