(* ===== verification/Bench_Threads.thy ===== *)
theory Bench_Threads
  imports Engine_Correct
begin

text \<open>
  The worker threads of the benchmark, \<open>src/src/bin/bench.rs\<close>: a phase in which every thread
  pushes a number of tasks, and a phase in which every thread leases and acknowledges that many.
  The threads are the same for the engine in the process and for the server over HTTP; what they
  call is a parameter, and its contract is a locale.
\<close>

section \<open>Threads\<close>

text \<open>
  How a call ends for the thread that makes it: \<open>unwrap\<close> on an error is a panic. \<open>Unseen\<close> is a
  failure to the caller although the operation has taken effect (the answer got lost, or the
  \<open>sync\<close> after the operation failed); the thread cannot tell it from \<open>Failure\<close>.
\<close>

datatype 'a outcome = Success 'a | Failure | Unseen | Panic

text \<open>
  Where a thread is: before the next of the iterations that are left, between lease and
  acknowledgement, before \<open>fetch_add\<close>, or ended by a panic.
\<close>

datatype bench_thread = Next nat | Taken nat u64 | Counting nat | Crashed

text \<open>
  The history of a phase. It is not a part of the program: it counts what happened, so that the
  outcome of the checks can be related to it. \<open>h_expired\<close> and \<open>h_dead\<close> are the leases that the
  expiration worker ended and the tasks it dead-lettered, \<open>h_stale\<close> the leases that ended
  between the two locked sections of one of its rounds and that the round processed
  nevertheless, \<open>h_refused\<close> the acknowledgements that failed, and the others the operations of
  each kind that the caller took for failed although they had taken effect.
\<close>

record history =
  h_expired :: nat
  h_dead :: nat
  h_stale :: nat
  h_refused :: nat
  h_unseen_pushes :: nat
  h_unseen_leases :: nat
  h_unseen_acks :: nat

definition no_history :: history where
  "no_history = \<lparr>h_expired = 0, h_dead = 0, h_stale = 0, h_refused = 0, h_unseen_pushes = 0, h_unseen_leases = 0, h_unseen_acks = 0\<rparr>"

definition after_round :: "nat \<Rightarrow> nat \<Rightarrow> nat \<Rightarrow> history \<Rightarrow> history" where
  "after_round x d g h = h\<lparr>h_expired := h_expired h + x, h_dead := h_dead h + d, h_stale := h_stale h + g\<rparr>"

record 's phase =
  ph_service :: 's
  ph_threads :: "nat \<Rightarrow> bench_thread"
  ph_counter :: u64
  ph_history :: history

definition phase_start :: "nat \<Rightarrow> nat \<Rightarrow> 's \<Rightarrow> 's phase" where
  "phase_start t_count tasks_per_thread svc =
     \<lparr>ph_service = svc, ph_threads = (\<lambda>i. if i < t_count then Next tasks_per_thread else Next 0), ph_counter = 0,
      ph_history = no_history\<rparr>"

text \<open>\<open>h.await.unwrap()\<close> on all handles: every thread has returned and none has panicked.\<close>

definition all_joined :: "nat \<Rightarrow> 's phase \<Rightarrow> bool" where
  "all_joined t_count s \<longleftrightarrow> (\<forall>i < t_count. ph_threads s i = Next 0)"

text \<open>
  The service: \<open>tick x d g\<close> is a locked section of its expiration worker that ends \<open>x\<close> leases,
  dead-letters \<open>d\<close> of their tasks, and processes \<open>g\<close> leases that are not there any more.
\<close>

inductive push_phase_step ::
  "('s \<Rightarrow> unit outcome \<Rightarrow> 's \<Rightarrow> bool) \<Rightarrow> (nat \<Rightarrow> nat \<Rightarrow> nat \<Rightarrow> 's \<Rightarrow> 's \<Rightarrow> bool) \<Rightarrow> 's phase \<Rightarrow> 's phase \<Rightarrow> bool"
  for push_op tick where
  pp_pushed: "ph_threads s i = Next (Suc n) \<Longrightarrow> push_op (ph_service s) (Success ()) v \<Longrightarrow>
    push_phase_step push_op tick s (s\<lparr>ph_service := v, ph_threads := (ph_threads s)(i := Counting n)\<rparr>)"
| pp_failed: "ph_threads s i = Next (Suc n) \<Longrightarrow> push_op (ph_service s) Failure v \<Longrightarrow>
    push_phase_step push_op tick s (s\<lparr>ph_service := v, ph_threads := (ph_threads s)(i := Next n)\<rparr>)"
| pp_unseen: "ph_threads s i = Next (Suc n) \<Longrightarrow> push_op (ph_service s) Unseen v \<Longrightarrow>
    push_phase_step push_op tick s (s\<lparr>ph_service := v, ph_threads := (ph_threads s)(i := Next n),
      ph_history := (ph_history s)\<lparr>h_unseen_pushes := Suc (h_unseen_pushes (ph_history s))\<rparr>\<rparr>)"
| pp_panics: "ph_threads s i = Next (Suc n) \<Longrightarrow> push_op (ph_service s) Panic v \<Longrightarrow>
    push_phase_step push_op tick s (s\<lparr>ph_service := v, ph_threads := (ph_threads s)(i := Crashed)\<rparr>)"
| pp_counts: "ph_threads s i = Counting n \<Longrightarrow>
    push_phase_step push_op tick s (s\<lparr>ph_threads := (ph_threads s)(i := Next n), ph_counter := ph_counter s + 1\<rparr>)"
| pp_tick: "tick x d g (ph_service s) v \<Longrightarrow>
    push_phase_step push_op tick s (s\<lparr>ph_service := v, ph_history := after_round x d g (ph_history s)\<rparr>)"

inductive pop_phase_step ::
  "(u32 \<Rightarrow> 's \<Rightarrow> u64 outcome \<Rightarrow> 's \<Rightarrow> bool) \<Rightarrow> (u64 \<Rightarrow> u32 \<Rightarrow> 's \<Rightarrow> unit outcome \<Rightarrow> 's \<Rightarrow> bool) \<Rightarrow>
   (nat \<Rightarrow> nat \<Rightarrow> nat \<Rightarrow> 's \<Rightarrow> 's \<Rightarrow> bool) \<Rightarrow> 's phase \<Rightarrow> 's phase \<Rightarrow> bool"
  for pop_op ack_op tick where
  lp_leased: "ph_threads s i = Next (Suc n) \<Longrightarrow> pop_op (of_nat i) (ph_service s) (Success k) v \<Longrightarrow>
    pop_phase_step pop_op ack_op tick s (s\<lparr>ph_service := v, ph_threads := (ph_threads s)(i := Taken n k)\<rparr>)"
| lp_nothing: "ph_threads s i = Next (Suc n) \<Longrightarrow> pop_op (of_nat i) (ph_service s) Failure v \<Longrightarrow>
    pop_phase_step pop_op ack_op tick s (s\<lparr>ph_service := v, ph_threads := (ph_threads s)(i := Next n)\<rparr>)"
| lp_unseen: "ph_threads s i = Next (Suc n) \<Longrightarrow> pop_op (of_nat i) (ph_service s) Unseen v \<Longrightarrow>
    pop_phase_step pop_op ack_op tick s (s\<lparr>ph_service := v, ph_threads := (ph_threads s)(i := Next n),
      ph_history := (ph_history s)\<lparr>h_unseen_leases := Suc (h_unseen_leases (ph_history s))\<rparr>\<rparr>)"
| lp_panics: "ph_threads s i = Next (Suc n) \<Longrightarrow> pop_op (of_nat i) (ph_service s) Panic v \<Longrightarrow>
    pop_phase_step pop_op ack_op tick s (s\<lparr>ph_service := v, ph_threads := (ph_threads s)(i := Crashed)\<rparr>)"
| lp_acked: "ph_threads s i = Taken n k \<Longrightarrow> ack_op k (of_nat i) (ph_service s) (Success ()) v \<Longrightarrow>
    pop_phase_step pop_op ack_op tick s (s\<lparr>ph_service := v, ph_threads := (ph_threads s)(i := Counting n)\<rparr>)"
| lp_refused: "ph_threads s i = Taken n k \<Longrightarrow> ack_op k (of_nat i) (ph_service s) Failure v \<Longrightarrow>
    pop_phase_step pop_op ack_op tick s (s\<lparr>ph_service := v, ph_threads := (ph_threads s)(i := Next n),
      ph_history := (ph_history s)\<lparr>h_refused := Suc (h_refused (ph_history s))\<rparr>\<rparr>)"
| lp_ack_unseen: "ph_threads s i = Taken n k \<Longrightarrow> ack_op k (of_nat i) (ph_service s) Unseen v \<Longrightarrow>
    pop_phase_step pop_op ack_op tick s (s\<lparr>ph_service := v, ph_threads := (ph_threads s)(i := Next n),
      ph_history := (ph_history s)\<lparr>h_unseen_acks := Suc (h_unseen_acks (ph_history s))\<rparr>\<rparr>)"
| lp_ack_panics: "ph_threads s i = Taken n k \<Longrightarrow> ack_op k (of_nat i) (ph_service s) Panic v \<Longrightarrow>
    pop_phase_step pop_op ack_op tick s (s\<lparr>ph_service := v, ph_threads := (ph_threads s)(i := Crashed)\<rparr>)"
| lp_counts: "ph_threads s i = Counting n \<Longrightarrow>
    pop_phase_step pop_op ack_op tick s (s\<lparr>ph_threads := (ph_threads s)(i := Next n), ph_counter := ph_counter s + 1\<rparr>)"
| lp_tick: "tick x d g (ph_service s) v \<Longrightarrow>
    pop_phase_step pop_op ack_op tick s (s\<lparr>ph_service := v, ph_history := after_round x d g (ph_history s)\<rparr>)"

section \<open>Rounds of the expiration worker\<close>

text \<open>A collected lease that is still there, with the priority and the number of retries it was collected with.\<close>

definition still_leased :: "Engine \<Rightarrow> u64 \<times> u8 \<times> u8 \<Rightarrow> bool" where
  "still_leased e = (\<lambda>(k, pr, n).
     case hm_get (leased (inner e)) k of None \<Rightarrow> False | Some li \<Rightarrow> lease_priority li = pr \<and> lease_retries li = n)"

definition stale :: "Engine \<Rightarrow> (u64 \<times> u8 \<times> u8) list \<Rightarrow> nat" where
  "stale e ts = length (filter (\<lambda>task. \<not> still_leased e task) ts)"

text \<open>
  A worker over an engine, between its rounds or between the two locked sections of one:
  \<open>pending\<close> is what it has collected. Processing finds the leases as they are then.
\<close>

inductive worker_section ::
  "(bytes \<Rightarrow> u32) \<Rightarrow> u64 \<Rightarrow> nat \<Rightarrow> nat \<Rightarrow> nat \<Rightarrow> (u64 \<times> u8 \<times> u8) list \<Rightarrow> Engine \<Rightarrow> (u64 \<times> u8 \<times> u8) list \<Rightarrow> Engine \<Rightarrow> bool"
  for crc now where
  ws_collect: "worker_section crc now 0 0 0 [] e (collect_expired now e) e"
| ws_process: "(\<And>k. io_clean (ios k)) \<Longrightarrow> room_for (length pending) e \<Longrightarrow> expire_tally crc ios pending e = (x, d) \<Longrightarrow>
    worker_section crc now x d (stale e pending) pending e [] (process_expired crc ios pending e)"

lemma stale_none: "stale e ts = 0 \<Longrightarrow> distinct (map fst ts) \<Longrightarrow> expired_leases ts e"
  by (fastforce simp: stale_def expired_leases_def still_leased_def filter_empty_conv split: option.splits)

lemma worker_section_sim:
  assumes "worker_section crc now x d g ts e ts' e'" "refines crc now e sp" "distinct (map fst ts)"
  shows "distinct (map fst ts')" "g = 0 \<Longrightarrow> \<exists>sp'. spec_expired x d sp sp' \<and> refines crc now e' sp'"
proof -
  have "distinct (map fst ts') \<and> (g = 0 \<longrightarrow> (\<exists>sp'. spec_expired x d sp sp' \<and> refines crc now e' sp'))"
    using assms(1)
  proof cases
    case ws_collect
    have "distinct (map fst (collect_expired now e))"
      using collect_expired_leases [OF refines_hm_ok [OF assms(2)], of now] by (simp add: expired_leases_def)
    then show ?thesis using ws_collect assms(2) se_none by auto
  next
    case (ws_process ios)
    then have "expired_leases ts e" if "g = 0" using that stale_none assms(3) by simp
    then show ?thesis using process_counts [OF assms(2) _ ws_process(4-6)] ws_process(2,3) by auto
  qed
  then show "distinct (map fst ts')" "g = 0 \<Longrightarrow> \<exists>sp'. spec_expired x d sp sp' \<and> refines crc now e' sp'" by blast+
qed

text \<open>Without leases there is nothing to collect.\<close>

lemma worker_section_idle:
  assumes "worker_section crc now x d g [] e ts' e'" "refines crc now e sp" "s_leased sp = Map.empty"
  shows "ts' = [] \<and> g = 0"
  using assms(1)
proof cases
  case ws_collect
  have "hm_get (leased (inner e)) k = None" for k using refines_memory(2) [OF assms(2), of k] assms(3) by simp
  from this [of "fst (hd (leased (inner e)))"] have "leased (inner e) = []" by (cases "leased (inner e)") (simp_all add: hm_get_def)
  then show ?thesis using ws_collect by (simp add: collect_expired_def)
qed (simp_all add: stale_def)

section \<open>Counting tasks\<close>

text \<open>The live tasks are the ready and the leased ones.\<close>

definition live :: "task_spec \<Rightarrow> nat" where
  "live sp = card (dom (s_payload sp))"

definition counted_inv :: "task_spec \<Rightarrow> bool" where
  "counted_inv sp \<longleftrightarrow> spec_inv sp \<and> finite (dom (s_payload sp))"

lemma counted_invD:
  assumes "counted_inv sp"
  shows "spec_inv sp" "finite (dom (s_payload sp))" "finite (dom (s_leased sp))"
    "live sp = length (s_ready sp) + card (dom (s_leased sp))"
proof -
  show i: "spec_inv sp" and fin: "finite (dom (s_payload sp))" using assms by (simp_all add: counted_inv_def)
  have split: "task_id ` set (s_ready sp) \<inter> dom (s_leased sp) = {}" "dom (s_payload sp) = task_id ` set (s_ready sp) \<union> dom (s_leased sp)"
    using i by (auto simp: spec_inv_def)
  then show l: "finite (dom (s_leased sp))" using fin by simp
  have "card (task_id ` set (s_ready sp)) = length (s_ready sp)"
    using distinct_card [OF spec_invD(1) [OF i]] by simp
  then show "live sp = length (s_ready sp) + card (dom (s_leased sp))"
    using card_Un_disjoint [OF _ l split(1)] by (simp add: live_def split(2))
qed

lemma counted_init: "counted_inv spec_init" "live spec_init = 0"
  using spec_inv_init by (simp_all add: counted_inv_def live_def spec_init_def)

lemma counted_push:
  assumes "counted_inv sp" "s_payload sp k = None"
  shows "counted_inv (spec_push k pr p sp)" "live (spec_push k pr p sp) = Suc (live sp)" "s_leased (spec_push k pr p sp) = s_leased sp"
    "length (s_ready (spec_push k pr p sp)) = Suc (length (s_ready sp))"
proof -
  show "counted_inv (spec_push k pr p sp)"
    using assms spec_inv_push by (auto simp: counted_inv_def spec_push_def)
  have "k \<notin> dom (s_payload sp)" using assms(2) by auto
  then show "live (spec_push k pr p sp) = Suc (live sp)" using counted_invD(2) [OF assms(1)] by (simp add: live_def spec_push_def)
  show "s_leased (spec_push k pr p sp) = s_leased sp" by (simp add: spec_push_def)
  show "length (s_ready (spec_push k pr p sp)) = Suc (length (s_ready sp))"
    by (simp add: spec_push_def)
qed

lemma counted_pop:
  assumes "counted_inv sp" "s_ready sp = t # ts"
  shows "counted_inv (spec_pop c ex sp)" "live (spec_pop c ex sp) = live sp"
    "card (dom (s_leased (spec_pop c ex sp))) = Suc (card (dom (s_leased sp)))"
proof -
  show "counted_inv (spec_pop c ex sp)" "live (spec_pop c ex sp) = live sp"
    using assms spec_inv_pop by (auto simp: counted_inv_def live_def spec_pop_def)
  have "task_id t \<notin> dom (s_leased sp)" using spec_invD(3) [OF counted_invD(1) [OF assms(1)], of t] assms(2) by auto
  then show "card (dom (s_leased (spec_pop c ex sp))) = Suc (card (dom (s_leased sp)))"
    using counted_invD(3) [OF assms(1)] by (simp add: spec_pop_def assms(2))
qed

lemma card_dom_remove: "finite (dom m) \<Longrightarrow> m k = Some v \<Longrightarrow> Suc (card (dom (m(k := None)))) = card (dom m)"
  using card_Suc_Diff1 [of "dom m" k] by (auto simp: domI)

lemma counted_finish:
  assumes "counted_inv sp" "s_leased sp k = Some li"
  shows "counted_inv (spec_finish k sp)" "Suc (live (spec_finish k sp)) = live sp"
    "Suc (card (dom (s_leased (spec_finish k sp)))) = card (dom (s_leased sp))"
proof -
  obtain p where p: "s_payload sp k = Some p" using spec_invD(5) [OF counted_invD(1) [OF assms(1)] assms(2)] by blast
  show "counted_inv (spec_finish k sp)"
    using assms spec_inv_finish by (auto simp: counted_inv_def spec_finish_def)
  show "Suc (live (spec_finish k sp)) = live sp"
    using card_dom_remove [OF counted_invD(2) [OF assms(1)] p] by (simp add: live_def spec_finish_def)
  show "Suc (card (dom (s_leased (spec_finish k sp)))) = card (dom (s_leased sp))"
    using card_dom_remove [OF counted_invD(3) [OF assms(1)] assms(2)] by (simp add: spec_finish_def)
qed

lemma counted_fail:
  assumes "counted_inv sp" "s_leased sp k = Some li"
  shows "counted_inv (spec_fail k li sp)" "live (spec_fail k li sp) + (if lease_retries li + 1 < MAX_RETRIES then 0 else 1) = live sp"
    "Suc (card (dom (s_leased (spec_fail k li sp)))) = card (dom (s_leased sp))"
proof -
  have "finite (dom (s_payload (spec_fail k li sp)))"
    using counted_invD(2) [OF assms(1)] by (simp add: spec_fail_def spec_finish_def spec_retry_def)
  then show "counted_inv (spec_fail k li sp)"
    using spec_inv_fail [OF counted_invD(1) [OF assms(1)] assms(2)] by (simp add: counted_inv_def)
  show "live (spec_fail k li sp) + (if lease_retries li + 1 < MAX_RETRIES then 0 else 1) = live sp"
    using counted_finish(2) [OF assms] by (auto simp: spec_fail_def spec_retry_def live_def)
  have "s_leased (spec_fail k li sp) = s_leased (spec_finish k sp)" by (simp add: spec_fail_def spec_retry_def spec_finish_def)
  then show "Suc (card (dom (s_leased (spec_fail k li sp)))) = card (dom (s_leased sp))" using counted_finish(3) [OF assms] by simp
qed

text \<open>A round of the expiration worker.\<close>

lemma counted_expired:
  assumes "spec_expired x d sp sp'" "counted_inv sp"
  shows "counted_inv sp' \<and> live sp' + d = live sp \<and> card (dom (s_leased sp')) + x = card (dom (s_leased sp)) \<and> d \<le> x"
  using assms
proof (induction rule: spec_expired.induct)
  case (se_fail s k li x d s')
  note f = counted_fail [OF se_fail.prems se_fail.hyps(1)]
  show ?case using se_fail.IH [OF f(1)] f(2,3) by auto
qed auto

lemma expired_without_leases:
  assumes "spec_expired x d sp sp'" "s_leased sp = Map.empty"
  shows "sp' = sp"
  using assms by (cases rule: spec_expired.cases) auto

lemma counted_reopened:
  assumes "spec_reopened now sp sp'" "counted_inv sp"
  shows "counted_inv sp'" "live sp' = live sp" "dom (s_leased sp') \<subseteq> dom (s_leased sp)"
proof -
  have p: "s_payload sp' = s_payload sp" using assms(1) by (simp add: spec_reopened_def Let_def)
  then show "counted_inv sp'" "live sp' = live sp"
    using assms spec_inv_reopened by (auto simp: counted_inv_def live_def)
  show "dom (s_leased sp') \<subseteq> dom (s_leased sp)"
    using assms(1) by (auto simp: spec_reopened_def Let_def split: if_splits)
qed

lemma reopened_without_leases:
  assumes "spec_reopened now sp sp'" "s_leased sp = Map.empty"
  shows "s_leased sp' = Map.empty" "s_ready sp' = s_ready sp"
  using assms by (auto simp: spec_reopened_def Let_def)

section \<open>The threads\<close>

text \<open>A sum over the threads, and how one thread changes it.\<close>

definition tally :: "(bench_thread \<Rightarrow> nat) \<Rightarrow> nat \<Rightarrow> (nat \<Rightarrow> bench_thread) \<Rightarrow> nat" where
  "tally f t_count w = (\<Sum>i < t_count. f (w i))"

lemma tally_update:
  assumes "i < t_count"
  shows "tally f t_count (w(i := x)) + f (w i) = tally f t_count w + f x"
  unfolding tally_def by (rule sum_update) (use assms in simp_all)

lemma tally_zero: "(\<And>i. i < t_count \<Longrightarrow> f (w i) = 0) \<Longrightarrow> tally f t_count w = 0"
  by (simp add: tally_def)

fun counting :: "bench_thread \<Rightarrow> nat" where
  "counting (Counting _) = 1"
| "counting _ = 0"

fun taken :: "bench_thread \<Rightarrow> nat" where
  "taken (Taken _ _) = 1"
| "taken _ = 0"

fun left :: "bench_thread \<Rightarrow> nat" where
  "left (Next n) = n"
| "left (Taken n _) = n"
| "left (Counting n) = n"
| "left Crashed = 0"

definition panicked :: "'s phase \<Rightarrow> bool" where
  "panicked s \<longleftrightarrow> (\<exists>i. ph_threads s i = Crashed)"

definition only_threads :: "nat \<Rightarrow> 's phase \<Rightarrow> bool" where
  "only_threads t_count s \<longleftrightarrow> (\<forall>i \<ge> t_count. ph_threads s i = Next 0)"

lemma only_threads_in: "only_threads t_count s \<Longrightarrow> ph_threads s i \<noteq> Next 0 \<Longrightarrow> i < t_count"
  by (meson not_le only_threads_def)

lemma phase_start:
  "only_threads t_count (phase_start t_count n v)" "\<not> panicked (phase_start t_count n v)"
  "tally counting t_count (ph_threads (phase_start t_count n v)) = 0" "tally taken t_count (ph_threads (phase_start t_count n v)) = 0"
  "tally left t_count (ph_threads (phase_start t_count n v)) = t_count * n"
  "ph_service (phase_start t_count n v) = v" "ph_counter (phase_start t_count n v) = 0" "ph_history (phase_start t_count n v) = no_history"
  by (simp_all add: phase_start_def only_threads_def panicked_def tally_def)

lemma all_joined:
  assumes "all_joined t_count s" "only_threads t_count s"
  shows "\<not> panicked s" "tally counting t_count (ph_threads s) = 0" "tally taken t_count (ph_threads s) = 0"
proof -
  have all: "ph_threads s i = Next 0" for i using assms by (cases "i < t_count") (simp_all add: all_joined_def only_threads_def)
  then show "\<not> panicked s" by (simp add: panicked_def)
  show "tally counting t_count (ph_threads s) = 0" "tally taken t_count (ph_threads s) = 0" by (simp_all add: tally_zero all)
qed

text \<open>Only these threads run; a panic is final, and so is a stale lease that was processed.\<close>

lemma push_phase_threads:
  assumes "push_phase_step push_op tick s s'" "only_threads t_count s"
  shows "only_threads t_count s'" "panicked s \<Longrightarrow> panicked s'"
proof -
  show "only_threads t_count s'" using assms by cases (auto simp: only_threads_def)
  show "panicked s \<Longrightarrow> panicked s'" using assms(1) by cases (force simp: panicked_def)+
qed

lemma pop_phase_threads:
  assumes "pop_phase_step pop_op ack_op tick s s'" "only_threads t_count s"
  shows "only_threads t_count s'" "panicked s \<Longrightarrow> panicked s'" "h_stale (ph_history s) \<noteq> 0 \<Longrightarrow> h_stale (ph_history s') \<noteq> 0"
proof -
  show "only_threads t_count s'" using assms by cases (auto simp: only_threads_def)
  show "panicked s \<Longrightarrow> panicked s'" using assms(1) by cases (force simp: panicked_def)+
  show "h_stale (ph_history s) \<noteq> 0 \<Longrightarrow> h_stale (ph_history s') \<noteq> 0" using assms(1) by cases (simp_all add: after_round_def)
qed

text \<open>When no call ends \<open>Unseen\<close>, none is counted.\<close>

lemma no_unseen_pushes:
  assumes "(push_phase_step push_op tick)\<^sup>*\<^sup>* (phase_start t_count n v) s" "\<And>v v'. \<not> push_op v Unseen v'"
  shows "h_unseen_pushes (ph_history s) = 0"
  using assms(1)
proof (induction rule: rtranclp_induct)
  case (step s s')
  from step.hyps(2) show ?case by cases (use assms(2) step.IH in \<open>simp_all add: after_round_def\<close>)
qed (simp add: phase_start no_history_def)

lemma no_unseen_pops:
  assumes "(pop_phase_step pop_op ack_op tick)\<^sup>*\<^sup>* (phase_start t_count n v) s"
    and "\<And>c v v'. \<not> pop_op c v Unseen v'" "\<And>k c v v'. \<not> ack_op k c v Unseen v'"
  shows "h_unseen_leases (ph_history s) = 0 \<and> h_unseen_acks (ph_history s) = 0"
  using assms(1)
proof (induction rule: rtranclp_induct)
  case (step s s')
  from step.hyps(2) show ?case by cases (use assms(2,3) step.IH in \<open>simp_all add: after_round_def\<close>)
qed (simp add: phase_start no_history_def)

text \<open>A whole iteration of one thread.\<close>

lemma push_iteration:
  assumes "ph_threads s i = Next (Suc n)" "push_op (ph_service s) (Success ()) v"
  shows "(push_phase_step push_op tick)\<^sup>*\<^sup>* s
    (s\<lparr>ph_service := v, ph_threads := (ph_threads s)(i := Next n), ph_counter := ph_counter s + 1\<rparr>)"
proof -
  let ?s = "s\<lparr>ph_service := v, ph_threads := (ph_threads s)(i := Counting n)\<rparr>"
  have "push_phase_step push_op tick s ?s" by (rule pp_pushed [where push_op = push_op, OF assms])
  moreover have "push_phase_step push_op tick ?s (?s\<lparr>ph_threads := (ph_threads ?s)(i := Next n), ph_counter := ph_counter ?s + 1\<rparr>)"
    by (rule pp_counts) simp
  ultimately show ?thesis by simp
qed

lemma pop_iteration:
  assumes "ph_threads s i = Next (Suc n)" "pop_op (of_nat i) (ph_service s) (Success k) v" "ack_op k (of_nat i) v (Success ()) v'"
  shows "(pop_phase_step pop_op ack_op tick)\<^sup>*\<^sup>* s
    (s\<lparr>ph_service := v', ph_threads := (ph_threads s)(i := Next n), ph_counter := ph_counter s + 1\<rparr>)"
proof -
  let ?run = "(pop_phase_step pop_op ack_op tick)\<^sup>*\<^sup>* s"
  have step: "?run s'" if "?run s1" "pop_phase_step pop_op ack_op tick s1 s'" for s1 s' using that by (rule rtranclp.rtrancl_into_rtrancl)
  let ?s1 = "s\<lparr>ph_service := v, ph_threads := (ph_threads s)(i := Taken n k)\<rparr>"
  have "?run ?s1" by (rule step [OF rtranclp.rtrancl_refl lp_leased [where pop_op = pop_op, OF assms(1,2)]])
  from step [OF this lp_acked [where i = i and n = n and k = k and v = v' and ack_op = ack_op]] assms(3)
  have s2: "?run (s\<lparr>ph_service := v', ph_threads := (ph_threads s)(i := Counting n)\<rparr>)" by simp
  from step [OF this lp_counts [where i = i and n = n]] show ?thesis by simp
qed

section \<open>Invariants\<close>

text \<open>
  While tasks are pushed there are no leases, and the counter, a \<open>u64\<close>, lags behind the ready
  tasks by the threads that have pushed and not yet counted and by the pushes that the threads
  took for failed.
\<close>

definition push_inv :: "('s \<Rightarrow> task_spec \<Rightarrow> bool) \<Rightarrow> ('s \<Rightarrow> bool) \<Rightarrow> nat \<Rightarrow> nat \<Rightarrow> 's phase \<Rightarrow> task_spec \<Rightarrow> bool" where
  "push_inv rel idle t_count quota s sp \<longleftrightarrow>
     rel (ph_service s) sp \<and> idle (ph_service s) \<and> counted_inv sp \<and> s_leased sp = Map.empty \<and>
     length (s_ready sp) + tally left t_count (ph_threads s) \<le> quota \<and>
     (\<exists>p. ph_counter s = of_nat p \<and>
       p + tally counting t_count (ph_threads s) + h_unseen_pushes (ph_history s) = length (s_ready sp))"

text \<open>
  In the second phase every task that was there is still live, has been acknowledged (counted or
  unseen), or was dead-lettered; every lease that the worker did not end is in the hands of a
  thread, or nobody knows of it, or its acknowledgement was refused.
\<close>

definition pop_inv :: "('s \<Rightarrow> task_spec \<Rightarrow> bool) \<Rightarrow> nat \<Rightarrow> nat \<Rightarrow> 's phase \<Rightarrow> task_spec \<Rightarrow> bool" where
  "pop_inv rel t_count m s sp \<longleftrightarrow>
     rel (ph_service s) sp \<and> counted_inv sp \<and> h_dead (ph_history s) \<le> h_expired (ph_history s) \<and>
     card (dom (s_leased sp)) + h_expired (ph_history s) =
       tally taken t_count (ph_threads s) + h_refused (ph_history s) + h_unseen_leases (ph_history s) \<and>
     (\<exists>p. ph_counter s = of_nat p \<and>
       p + h_unseen_acks (ph_history s) + tally counting t_count (ph_threads s) + live sp + h_dead (ph_history s) = m)"

section \<open>The contract of the service\<close>

text \<open>
  \<open>rel\<close> relates its state to the tasks it has, \<open>idle\<close> says that its worker is between two rounds.
  The laws for \<open>tick\<close> leave open what happens when a collected lease has ended before it is
  processed.
\<close>

locale bench_service =
  fixes rel :: "'s \<Rightarrow> task_spec \<Rightarrow> bool"
    and idle :: "'s \<Rightarrow> bool"
    and push_op :: "'s \<Rightarrow> unit outcome \<Rightarrow> 's \<Rightarrow> bool"
    and pop_op :: "u32 \<Rightarrow> 's \<Rightarrow> u64 outcome \<Rightarrow> 's \<Rightarrow> bool"
    and ack_op :: "u64 \<Rightarrow> u32 \<Rightarrow> 's \<Rightarrow> unit outcome \<Rightarrow> 's \<Rightarrow> bool"
    and tick :: "nat \<Rightarrow> nat \<Rightarrow> nat \<Rightarrow> 's \<Rightarrow> 's \<Rightarrow> bool"
  assumes push_done: "rel v sp \<Longrightarrow> push_op v r v' \<Longrightarrow> r \<in> {Success (), Unseen} \<Longrightarrow>
      \<exists>k pr p. s_payload sp k = None \<and> rel v' (spec_push k pr p sp)"
    and push_failed: "rel v sp \<Longrightarrow> push_op v Failure v' \<Longrightarrow> rel v' sp"
    and push_idle: "push_op v r v' \<Longrightarrow> idle v \<Longrightarrow> idle v'"
    and pop_done: "rel v sp \<Longrightarrow> pop_op c v r' v' \<Longrightarrow> r' \<in> {Success k, Unseen} \<Longrightarrow>
      \<exists>t ts ex. s_ready sp = t # ts \<and> rel v' (spec_pop c ex sp)"
    and pop_failed: "rel v sp \<Longrightarrow> pop_op c v Failure v' \<Longrightarrow> rel v' sp"
    and ack_done: "rel v sp \<Longrightarrow> ack_op k c v r v' \<Longrightarrow> r \<in> {Success (), Unseen} \<Longrightarrow>
      \<exists>li. s_leased sp k = Some li \<and> consumer_id li = c \<and> rel v' (spec_finish k sp)"
    and ack_failed: "rel v sp \<Longrightarrow> ack_op k c v Failure v' \<Longrightarrow> rel v' sp"
    and ticks: "rel v sp \<Longrightarrow> tick x d 0 v v' \<Longrightarrow> \<exists>sp'. spec_expired x d sp sp' \<and> rel v' sp'"
    and tick_idle: "rel v sp \<Longrightarrow> idle v \<Longrightarrow> s_leased sp = Map.empty \<Longrightarrow> tick x d g v v' \<Longrightarrow> g = 0 \<and> idle v'"
begin

lemma push_inv_step:
  assumes "push_phase_step push_op tick s s'" "only_threads t_count s" "push_inv rel idle t_count quota s sp"
  shows "panicked s' \<or> (\<exists>sp'. push_inv rel idle t_count quota s' sp')"
proof -
  let ?u = "h_unseen_pushes (ph_history s)"
  obtain p where r: "rel (ph_service s) sp" "idle (ph_service s)" and c: "counted_inv sp" "s_leased sp = Map.empty"
      and q: "length (s_ready sp) + tally left t_count (ph_threads s) \<le> quota"
      and p: "ph_counter s = of_nat p" "p + tally counting t_count (ph_threads s) + ?u = length (s_ready sp)"
    using assms(3) unfolding push_inv_def by blast
  note upd = tally_update [of _ t_count counting "ph_threads s"] tally_update [of _ t_count left "ph_threads s"]
  from assms(1) show ?thesis
  proof cases
    case (pp_pushed i n v)
    have i: "i < t_count" using only_threads_in [OF assms(2)] pp_pushed(2) by simp
    obtain k pr pl where k: "s_payload sp k = None" "rel v (spec_push k pr pl sp)" using push_done [OF r(1) pp_pushed(3)] by blast
    note c' = counted_push [OF c(1) k(1), of pr pl]
    have "push_inv rel idle t_count quota s' (spec_push k pr pl sp)"
      using push_idle [OF pp_pushed(3) r(2)] c c' k(2) p q upd [OF i, of "Counting n"] by (auto simp: push_inv_def pp_pushed(1,2))
    then show ?thesis by blast
  next
    case (pp_unseen i n v)
    have i: "i < t_count" using only_threads_in [OF assms(2)] pp_unseen(2) by simp
    obtain k pr pl where k: "s_payload sp k = None" "rel v (spec_push k pr pl sp)" using push_done [OF r(1) pp_unseen(3)] by blast
    note c' = counted_push [OF c(1) k(1), of pr pl]
    have "push_inv rel idle t_count quota s' (spec_push k pr pl sp)"
      using push_idle [OF pp_unseen(3) r(2)] c c' k(2) p q upd [OF i, of "Next n"] by (auto simp: push_inv_def pp_unseen(1,2))
    then show ?thesis by blast
  next
    case (pp_failed i n v)
    have i: "i < t_count" using only_threads_in [OF assms(2)] pp_failed(2) by simp
    have "push_inv rel idle t_count quota s' sp"
      using push_failed [OF r(1) pp_failed(3)] push_idle [OF pp_failed(3) r(2)] c p q upd [OF i, of "Next n"]
      by (auto simp: push_inv_def pp_failed(1,2))
    then show ?thesis by blast
  next
    case (pp_counts i n)
    have i: "i < t_count" using only_threads_in [OF assms(2)] pp_counts(2) by simp
    have "push_inv rel idle t_count quota s' sp"
      using r c p q upd [OF i, of "Next n"] by (auto simp: push_inv_def pp_counts(1,2) intro!: exI [of _ "Suc p"])
    then show ?thesis by blast
  next
    case (pp_tick x d g v)
    have g: "g = 0" "idle v" using tick_idle [OF r c(2) pp_tick(2)] by simp_all
    then have "rel v sp" using ticks [OF r(1)] expired_without_leases c(2) pp_tick(2) by blast
    then have "push_inv rel idle t_count quota s' sp" using g c p q by (auto simp: push_inv_def pp_tick(1) after_round_def)
    then show ?thesis by blast
  qed (auto simp: panicked_def)
qed

lemma pop_inv_step:
  assumes "pop_phase_step pop_op ack_op tick s s'" "only_threads t_count s" "pop_inv rel t_count m s sp"
  shows "panicked s' \<or> h_stale (ph_history s') \<noteq> 0 \<or> (\<exists>sp'. pop_inv rel t_count m s' sp')"
proof -
  let ?h = "ph_history s"
  obtain p where r: "rel (ph_service s) sp" and c: "counted_inv sp" and dx: "h_dead ?h \<le> h_expired ?h"
      and l: "card (dom (s_leased sp)) + h_expired ?h = tally taken t_count (ph_threads s) + h_refused ?h + h_unseen_leases ?h"
      and p: "ph_counter s = of_nat p" "p + h_unseen_acks ?h + tally counting t_count (ph_threads s) + live sp + h_dead ?h = m"
    using assms(3) unfolding pop_inv_def by blast
  note upd = tally_update [of _ t_count taken "ph_threads s"] tally_update [of _ t_count counting "ph_threads s"]
  from assms(1) show ?thesis
  proof cases
    case (lp_leased i n k v)
    have i: "i < t_count" using only_threads_in [OF assms(2)] lp_leased(2) by simp
    obtain t ts ex where t: "s_ready sp = t # ts" "rel v (spec_pop (of_nat i) ex sp)" using pop_done [OF r lp_leased(3)] by blast
    have "pop_inv rel t_count m s' (spec_pop (of_nat i) ex sp)"
      using counted_pop [OF c t(1), of "of_nat i" ex] t(2) dx l p upd [OF i, of "Taken n k"] by (auto simp: pop_inv_def lp_leased(1,2))
    then show ?thesis by blast
  next
    case (lp_unseen i n v)
    have i: "i < t_count" using only_threads_in [OF assms(2)] lp_unseen(2) by simp
    obtain t ts ex where t: "s_ready sp = t # ts" "rel v (spec_pop (of_nat i) ex sp)" using pop_done [OF r lp_unseen(3)] by blast
    have "pop_inv rel t_count m s' (spec_pop (of_nat i) ex sp)"
      using counted_pop [OF c t(1), of "of_nat i" ex] t(2) dx l p upd [OF i, of "Next n"] by (auto simp: pop_inv_def lp_unseen(1,2))
    then show ?thesis by blast
  next
    case (lp_nothing i n v)
    have i: "i < t_count" using only_threads_in [OF assms(2)] lp_nothing(2) by simp
    have "pop_inv rel t_count m s' sp"
      using pop_failed [OF r lp_nothing(3)] c dx l p upd [OF i, of "Next n"] by (auto simp: pop_inv_def lp_nothing(1,2))
    then show ?thesis by blast
  next
    case (lp_acked i n k v)
    have i: "i < t_count" using only_threads_in [OF assms(2)] lp_acked(2) by simp
    obtain li where li: "s_leased sp k = Some li" "rel v (spec_finish k sp)" using ack_done [OF r lp_acked(3)] by blast
    have "pop_inv rel t_count m s' (spec_finish k sp)"
      using counted_finish [OF c li(1)] li(2) dx l p upd [OF i, of "Counting n"] by (auto simp: pop_inv_def lp_acked(1,2))
    then show ?thesis by blast
  next
    case (lp_ack_unseen i n k v)
    have i: "i < t_count" using only_threads_in [OF assms(2)] lp_ack_unseen(2) by simp
    obtain li where li: "s_leased sp k = Some li" "rel v (spec_finish k sp)" using ack_done [OF r lp_ack_unseen(3)] by blast
    have "pop_inv rel t_count m s' (spec_finish k sp)"
      using counted_finish [OF c li(1)] li(2) dx l p upd [OF i, of "Next n"] by (auto simp: pop_inv_def lp_ack_unseen(1,2))
    then show ?thesis by blast
  next
    case (lp_refused i n k v)
    have i: "i < t_count" using only_threads_in [OF assms(2)] lp_refused(2) by simp
    have "pop_inv rel t_count m s' sp"
      using ack_failed [OF r lp_refused(3)] c dx l p upd [OF i, of "Next n"] by (auto simp: pop_inv_def lp_refused(1,2))
    then show ?thesis by blast
  next
    case (lp_counts i n)
    have i: "i < t_count" using only_threads_in [OF assms(2)] lp_counts(2) by simp
    have "pop_inv rel t_count m s' sp"
      using r c dx l p upd [OF i, of "Next n"] by (auto simp: pop_inv_def lp_counts(1,2) intro!: exI [of _ "Suc p"])
    then show ?thesis by blast
  next
    case (lp_tick x d g v)
    show ?thesis
    proof (cases "g = 0")
      case True
      then obtain sp' where sp': "spec_expired x d sp sp'" "rel v sp'" using ticks [OF r] lp_tick(2) by blast
      have "pop_inv rel t_count m s' sp'"
        using counted_expired [OF sp'(1) c] sp'(2) dx l p by (auto simp: pop_inv_def lp_tick(1) after_round_def)
      then show ?thesis by blast
    qed (simp add: lp_tick(1) after_round_def)
  qed (auto simp: panicked_def)
qed

text \<open>What holds when all threads have been joined.\<close>

lemma push_phase_result:
  assumes "(push_phase_step push_op tick)\<^sup>*\<^sup>* (phase_start t_count n v) s" "all_joined t_count s"
    and "rel v sp" "idle v" "counted_inv sp" "s_leased sp = Map.empty" "s_ready sp = []"
  shows "\<exists>sp' p. rel (ph_service s) sp' \<and> idle (ph_service s) \<and> counted_inv sp' \<and> s_leased sp' = Map.empty \<and>
    ph_counter s = of_nat p \<and> p + h_unseen_pushes (ph_history s) = length (s_ready sp') \<and> length (s_ready sp') \<le> t_count * n"
proof -
  have "only_threads t_count s \<and> (panicked s \<or> (\<exists>sp'. push_inv rel idle t_count (t_count * n) s sp'))"
    using assms(1)
  proof (induction rule: rtranclp_induct)
    case base
    have "push_inv rel idle t_count (t_count * n) (phase_start t_count n v) sp"
      using assms(3-7) by (simp add: push_inv_def phase_start no_history_def exI [of _ 0])
    then show ?case by (auto simp: phase_start)
  next
    case (step s s')
    then show ?case using push_phase_threads [OF step.hyps(2)] push_inv_step [OF step.hyps(2)] by blast
  qed
  then obtain sp' where sp': "push_inv rel idle t_count (t_count * n) s sp'" "only_threads t_count s" using all_joined(1) [OF assms(2)] by blast
  then show ?thesis using all_joined(2) [OF assms(2) sp'(2)] by (intro exI [of _ sp']) (auto simp: push_inv_def)
qed

lemma pop_phase_result:
  assumes "(pop_phase_step pop_op ack_op tick)\<^sup>*\<^sup>* (phase_start t_count n v) s" "all_joined t_count s"
    and "rel v sp" "counted_inv sp" "s_leased sp = Map.empty" "h = ph_history s" "h_stale h = 0"
  shows "\<exists>sp' p. rel (ph_service s) sp' \<and> counted_inv sp' \<and> ph_counter s = of_nat p \<and>
    p + h_unseen_acks h + live sp' + h_dead h = live sp \<and>
    card (dom (s_leased sp')) + h_expired h = h_refused h + h_unseen_leases h \<and> h_dead h \<le> h_expired h"
proof -
  have "only_threads t_count s \<and> (panicked s \<or> h_stale (ph_history s) \<noteq> 0 \<or> (\<exists>sp'. pop_inv rel t_count (live sp) s sp'))"
    using assms(1)
  proof (induction rule: rtranclp_induct)
    case base
    have "pop_inv rel t_count (live sp) (phase_start t_count n v) sp"
      using assms(3-5) by (auto simp: pop_inv_def phase_start no_history_def intro: exI [of _ 0])
    then show ?case by (auto simp: phase_start)
  next
    case (step s s')
    then show ?case using pop_phase_threads [OF step.hyps(2)] pop_inv_step [OF step.hyps(2)] by blast
  qed
  then obtain sp' where sp': "pop_inv rel t_count (live sp) s sp'" "only_threads t_count s"
    using all_joined(1) [OF assms(2)] assms(6,7) by auto
  then show ?thesis using all_joined(2,3) [OF assms(2) sp'(2)] assms(6) by (intro exI [of _ sp']) (auto simp: pop_inv_def)
qed

end

end
