(* ===== verification/Benchmark.thy ===== *)
theory Benchmark
  imports Bench_Threads
begin

text \<open>
  The benchmark, \<open>src/src/bin/bench.rs\<close>: its configurations, the files it creates and removes,
  how the runs are collected, and the in-process part of a run with its two integrity checks,
  for which the directory is opened again. What is measured (times, histograms, throughput) and
  the same workload on SQLite are not part of the model.
\<close>

section \<open>Configurations\<close>

definition thread_counts :: "bool \<Rightarrow> nat list" where
  "thread_counts quick = (if quick then [1] else [1, 4, 16])"

definition num_runs :: "bool \<Rightarrow> nat" where
  "num_runs quick = (if quick then 2 else 6)"

definition nominal_tasks :: "bool \<Rightarrow> bool \<Rightarrow> nat" where
  "nominal_tasks quick sync = (if quick then 100 else if sync then 1000 else 10000)"

definition tasks_per_thread :: "bool \<Rightarrow> bool \<Rightarrow> nat \<Rightarrow> nat" where
  "tasks_per_thread quick sync t_count = nominal_tasks quick sync div t_count"

definition PAYLOAD :: bytes where
  "PAYLOAD = text_bytes ''payload''"

lemma PAYLOAD_fits: "length PAYLOAD \<le> MAX_PAYLOAD_SIZE"
  by (simp add: PAYLOAD_def text_bytes_def MAX_PAYLOAD_SIZE_def)

lemma quota_fits: "t_count * tasks_per_thread quick sync t_count < 2 ^ 64"
proof -
  have "t_count * tasks_per_thread quick sync t_count \<le> nominal_tasks quick sync" by (simp add: tasks_per_thread_def)
  then show ?thesis by (simp add: nominal_tasks_def split: if_splits)
qed

section \<open>Files\<close>

definition show_bool :: "bool \<Rightarrow> string" where
  "show_bool b = (if b then ''true'' else ''false'')"

text \<open>\<open>{}_{}_{}_r{}\<close> with the parameters of a run.\<close>

definition run_name :: "bool \<Rightarrow> nat \<Rightarrow> nat \<Rightarrow> nat \<Rightarrow> string" where
  "run_name sync t_count nominal run_idx =
     show_bool sync @ ''_'' @ show_nat t_count @ ''_'' @ show_nat nominal @ ''_r'' @ show_nat run_idx"

definition sqlite_db_path :: "string \<Rightarrow> bool \<Rightarrow> nat \<Rightarrow> nat \<Rightarrow> nat \<Rightarrow> string" where
  "sqlite_db_path base sync t_count nominal run_idx =
     path_join base (''bench_sqlite_'' @ run_name sync t_count nominal run_idx @ ''.db'')"

definition nesso_dir :: "string \<Rightarrow> bool \<Rightarrow> nat \<Rightarrow> nat \<Rightarrow> nat \<Rightarrow> string" where
  "nesso_dir base sync t_count nominal run_idx = path_join base (''bench_nesso_ip_'' @ run_name sync t_count nominal run_idx)"

datatype removal = RemoveFile string | RemoveDirAll string

definition cleanup_sqlite_db :: "string \<Rightarrow> removal list" where
  "cleanup_sqlite_db path = [RemoveFile path, RemoveFile (path @ ''-wal''), RemoveFile (path @ ''-shm'')]"

definition cleanup_benchmark_files :: "string \<Rightarrow> nat list \<Rightarrow> nat \<Rightarrow> bool \<Rightarrow> removal list" where
  "cleanup_benchmark_files base counts runs quick =
     concat (map (\<lambda>sync. concat (map (\<lambda>t_count. concat (map (\<lambda>run_idx.
        cleanup_sqlite_db (sqlite_db_path base sync t_count (nominal_tasks quick sync) run_idx) @
        [RemoveDirAll (nesso_dir base sync t_count (nominal_tasks quick sync) run_idx)]) [0..<runs])) counts)) [False, True])"

text \<open>The runs in the order of the loops.\<close>

definition bench_runs :: "bool \<Rightarrow> (bool \<times> nat \<times> nat) list" where
  "bench_runs quick =
     concat (map (\<lambda>sync. concat (map (\<lambda>t_count. map (\<lambda>run_idx. (sync, t_count, run_idx)) [0..<num_runs quick]) (thread_counts quick)))
       [False, True])"

text \<open>No two runs share a directory, and all of them are removed.\<close>

lemma split_unique:
  assumes "xs @ c # ys = xs' @ c # ys'" "c \<notin> set xs" "c \<notin> set xs'"
  shows "xs = xs' \<and> ys = ys'"
  using assms
proof (induction xs arbitrary: xs')
  case Nil
  then show ?case by (cases xs') auto
next
  case (Cons x xs)
  then show ?case by (cases xs') auto
qed

lemma show_nat_inject: "show_nat m = show_nat n \<longleftrightarrow> m = n"
  by (metis show_nat_digits)

lemma run_name_inject: "run_name s t n i = run_name s' t' n' i' \<longleftrightarrow> s = s' \<and> t = t' \<and> n = n' \<and> i = i'"
proof
  have no: "CHR ''_'' \<notin> set (show_nat m)" "CHR ''_'' \<notin> set (show_bool b)" for m b
    using show_nat_digits [of m] by (auto simp: show_bool_def is_digit_def list_all_iff)
  assume "run_name s t n i = run_name s' t' n' i'"
  then have eq: "show_bool s @ CHR ''_'' # show_nat t @ CHR ''_'' # show_nat n @ CHR ''_'' # CHR ''r'' # show_nat i =
    show_bool s' @ CHR ''_'' # show_nat t' @ CHR ''_'' # show_nat n' @ CHR ''_'' # CHR ''r'' # show_nat i'" by (simp add: run_name_def)
  note 1 = split_unique [OF eq no(2) no(2)]
  note 2 = split_unique [OF conjunct2 [OF 1] no(1) no(1)]
  note 3 = split_unique [OF conjunct2 [OF 2] no(1) no(1)]
  show "s = s' \<and> t = t' \<and> n = n' \<and> i = i'" using 1 2 3 by (auto simp: show_bool_def show_nat_inject split: if_splits)
qed simp

lemma path_join_inject:
  "m \<noteq> [] \<Longrightarrow> hd m \<noteq> CHR ''/'' \<Longrightarrow> n \<noteq> [] \<Longrightarrow> hd n \<noteq> CHR ''/'' \<Longrightarrow> path_join d m = path_join d n \<longleftrightarrow> m = n"
  by (simp add: path_join_def)

lemma nesso_dir_inject: "nesso_dir base s t n i = nesso_dir base s' t' n' i' \<longleftrightarrow> s = s' \<and> t = t' \<and> n = n' \<and> i = i'"
  by (simp add: nesso_dir_def path_join_inject run_name_inject)

lemma bench_runs_iff: "(sync, t_count, run_idx) \<in> set (bench_runs quick) \<longleftrightarrow> t_count \<in> set (thread_counts quick) \<and> run_idx < num_runs quick"
  by (cases sync) (auto simp: bench_runs_def image_iff)

lemma bench_runs_distinct: "distinct (bench_runs quick)"
  by (cases quick) (auto simp: bench_runs_def thread_counts_def distinct_map inj_on_def)

lemma bench_runs_removed:
  assumes "(sync, t_count, run_idx) \<in> set (bench_runs quick)"
  shows "RemoveDirAll (nesso_dir base sync t_count (nominal_tasks quick sync) run_idx) \<in>
    set (cleanup_benchmark_files base (thread_counts quick) (num_runs quick) quick)"
  using assms by (auto simp: bench_runs_def cleanup_benchmark_files_def)

section \<open>Results\<close>

text \<open>Without the measured times.\<close>

record RunResult =
  dispatched :: u64
  found_on_disk :: u64
  integrity_ok :: bool

record BenchResult =
  br_system :: string
  br_threads :: nat
  br_nominal_tasks :: nat
  br_sync :: bool
  br_op :: string
  br_runs :: "RunResult list"

definition bench_result_new :: "string \<Rightarrow> nat \<Rightarrow> nat \<Rightarrow> bool \<Rightarrow> string \<Rightarrow> BenchResult" where
  "bench_result_new system threads nominal sync op =
     \<lparr>br_system = system, br_threads = threads, br_nominal_tasks = nominal, br_sync = sync, br_op = op, br_runs = []\<rparr>"

definition all_integrity_ok :: "BenchResult \<Rightarrow> bool" where
  "all_integrity_ok r \<longleftrightarrow> br_runs r \<noteq> [] \<and> list_all integrity_ok (br_runs r)"

text \<open>\<open>if !is_warmup { runs.push(..) }\<close> in the loop over the runs; the first is the warm-up.\<close>

definition record_run :: "nat \<Rightarrow> RunResult \<Rightarrow> BenchResult \<Rightarrow> BenchResult" where
  "record_run run_idx r res = (if run_idx = 0 then res else res\<lparr>br_runs := br_runs res @ [r]\<rparr>)"

definition collect_runs :: "bool \<Rightarrow> (nat \<Rightarrow> RunResult) \<Rightarrow> BenchResult \<Rightarrow> BenchResult" where
  "collect_runs quick r res = fold (\<lambda>i. record_run i (r i)) [0..<num_runs quick] res"

text \<open>
  All rows of the report: for every configuration the systems and operations in this order.
  \<open>run\<close> gives the result of every single run.
\<close>

definition bench_rows :: "bool \<Rightarrow> (string \<times> string) list" where
  "bench_rows http_enabled =
     [(''SQLite (In-Process)'', ''Push''), (''SQLite (In-Process)'', ''Pop+Ack''),
      (''Nesso (In-Process)'', ''Push''), (''Nesso (In-Process)'', ''Pop+Ack'')] @
     (if http_enabled then [(''Nesso (HTTP)'', ''Push''), (''Nesso (HTTP)'', ''Pop+Ack'')] else [])"

type_synonym run_results = "bool \<Rightarrow> nat \<Rightarrow> string \<Rightarrow> string \<Rightarrow> nat \<Rightarrow> RunResult"

definition all_results :: "bool \<Rightarrow> bool \<Rightarrow> run_results \<Rightarrow> BenchResult list" where
  "all_results http_enabled quick run =
     concat (map (\<lambda>sync. concat (map (\<lambda>t_count.
       map (\<lambda>(system, op). collect_runs quick (run sync t_count system op)
              (bench_result_new system t_count (nominal_tasks quick sync) sync op)) (bench_rows http_enabled))
       (thread_counts quick))) [False, True])"

definition saturating_sub :: "u64 \<Rightarrow> u64 \<Rightarrow> u64" where
  "saturating_sub a b = (if b \<le> a then a - b else 0)"

definition push_result :: "u64 \<Rightarrow> u64 \<Rightarrow> RunResult" where
  "push_result sent ready = \<lparr>dispatched = sent, found_on_disk = ready, integrity_ok = (ready = sent)\<rparr>"

definition pop_result :: "u64 \<Rightarrow> u64 \<Rightarrow> u64 \<Rightarrow> u64 \<Rightarrow> RunResult" where
  "pop_result sent acked ready active =
     \<lparr>dispatched = acked, found_on_disk = ready, integrity_ok = (ready = saturating_sub sent acked \<and> active = 0)\<rparr>"

section \<open>Calls of the engine\<close>

text \<open>\<open>if sync { eng.sync().unwrap(); }\<close> after an operation.\<close>

definition sync_unwrap :: "bool \<Rightarrow> unit result \<Rightarrow> 'a \<Rightarrow> 'a outcome" where
  "sync_unwrap sync synced v = (if sync then (case synced of Inl _ \<Rightarrow> Panic | Inr _ \<Rightarrow> Success v) else Success v)"

text \<open>
  The state is the time of the last operation, the engine, and what its expiration worker has
  collected and not yet processed. Appends may fail, as long as what they wrote can be taken
  back; the record of a lease is written without failure, and segment numbers do not run out.
\<close>

type_synonym collected = "(u64 \<times> u8 \<times> u8) list"
type_synonym ip_state = "u64 \<times> Engine \<times> collected"

inductive ip_push :: "(bytes \<Rightarrow> u32) \<Rightarrow> bool \<Rightarrow> ip_state \<Rightarrow> unit outcome \<Rightarrow> ip_state \<Rightarrow> bool" for crc sync where
  ip_push: "t \<le> now \<Longrightarrow> has_room e \<Longrightarrow> next_id (inner e) \<noteq> - 1 \<Longrightarrow> io_clean io \<Longrightarrow> push crc io PAYLOAD 1 e = (res, e') \<Longrightarrow>
    ip_push crc sync (t, e, ts) (case res of Inl _ \<Rightarrow> Failure | Inr _ \<Rightarrow> sync_unwrap sync synced ()) (now, e', ts)"

inductive ip_pop :: "(bytes \<Rightarrow> u32) \<Rightarrow> bool \<Rightarrow> u32 \<Rightarrow> ip_state \<Rightarrow> u64 outcome \<Rightarrow> ip_state \<Rightarrow> bool" for crc sync c where
  ip_pop: "t \<le> now \<Longrightarrow> has_room e \<Longrightarrow> pop_and_lease crc AppendOk now c 10 e = (res, e') \<Longrightarrow>
    ip_pop crc sync c (t, e, ts)
      (case res of Inr (Some (r, _)) \<Rightarrow> sync_unwrap sync synced (rec_id r) | _ \<Rightarrow> Failure) (now, e', ts)"

inductive ip_ack :: "(bytes \<Rightarrow> u32) \<Rightarrow> bool \<Rightarrow> u64 \<Rightarrow> u32 \<Rightarrow> ip_state \<Rightarrow> unit outcome \<Rightarrow> ip_state \<Rightarrow> bool"
  for crc sync k c where
  ip_ack: "t \<le> now \<Longrightarrow> has_room e \<Longrightarrow> io_clean io \<Longrightarrow> ack crc io k c e = (res, e') \<Longrightarrow>
    ip_ack crc sync k c (t, e, ts) (case res of Inl _ \<Rightarrow> Failure | Inr _ \<Rightarrow> sync_unwrap sync synced ()) (now, e', ts)"

text \<open>One of the two locked sections of a round; anything may happen between them.\<close>

inductive ip_tick :: "(bytes \<Rightarrow> u32) \<Rightarrow> nat \<Rightarrow> nat \<Rightarrow> nat \<Rightarrow> ip_state \<Rightarrow> ip_state \<Rightarrow> bool" for crc where
  ip_tick: "t \<le> now \<Longrightarrow> worker_section crc now x d g ts e ts' e' \<Longrightarrow> ip_tick crc x d g (t, e, ts) (now, e', ts')"

text \<open>
  A run: a fresh engine in a new directory, the first phase, a cold engine from the files of the
  first one (its pending batches flushed, its expiration worker joined, so not inside a round),
  the second phase on that one, and a cold engine again. \<open>h\<close> is the history of the second
  phase, \<open>final\<close> the status of the last engine.
\<close>

inductive nesso_ip_run ::
  "(bytes \<Rightarrow> u32) \<Rightarrow> bool \<Rightarrow> nat \<Rightarrow> nat \<Rightarrow> history \<Rightarrow> RunResult \<Rightarrow> RunResult \<Rightarrow> nat \<times> nat \<Rightarrow> bool"
  for crc sync t_count per_thread where
  nesso_ip_run: "engine_open crc t0 fs_empty = Inr engine \<Longrightarrow>
    (push_phase_step (ip_push crc sync) (ip_tick crc))\<^sup>*\<^sup>* (phase_start t_count per_thread (t0, engine, [])) s1 \<Longrightarrow>
    all_joined t_count s1 \<Longrightarrow> ph_service s1 = (t1, e1, []) \<Longrightarrow> t1 \<le> t2 \<Longrightarrow> engine_open crc t2 (files e1) = Inr cold \<Longrightarrow>
    (pop_phase_step (ip_pop crc sync) (ip_ack crc sync) (ip_tick crc))\<^sup>*\<^sup>* (phase_start t_count per_thread (t2, cold, [])) s2 \<Longrightarrow>
    all_joined t_count s2 \<Longrightarrow> ph_service s2 = (t3, e3, []) \<Longrightarrow> t3 \<le> t4 \<Longrightarrow> engine_open crc t4 (files e3) = Inr cold2 \<Longrightarrow>
    nesso_ip_run crc sync t_count per_thread (ph_history s2)
      (push_result (ph_counter s1) (of_nat (fst (status cold))))
      (pop_result (ph_counter s1) (ph_counter s2) (of_nat (fst (status cold2))) (of_nat (snd (status cold2)))) (status cold2)"

section \<open>The engine keeps the contract\<close>

lemma sync_unwrap_ok [simp]: "sync_unwrap sync (Inr ()) v = Success v"
  by (simp add: sync_unwrap_def)

lemma sync_unwrap_Success [simp]: "sync_unwrap sync synced v = Success w \<longleftrightarrow> w = v \<and> (sync \<longrightarrow> synced = Inr ())"
  "sync_unwrap sync synced v \<noteq> Failure"
  by (auto simp: sync_unwrap_def split: sum.split)

lemma sync_unwrap_not_unseen [simp]: "sync_unwrap sync synced v \<noteq> Unseen" "Unseen \<noteq> sync_unwrap sync synced v"
  by (auto simp: sync_unwrap_def split: sum.split)

definition ip_rel :: "(bytes \<Rightarrow> u32) \<Rightarrow> ip_state \<Rightarrow> task_spec \<Rightarrow> bool" where
  "ip_rel crc = (\<lambda>(t, e, ts) sp. refines crc t e sp \<and> distinct (map fst ts))"

definition ip_idle :: "ip_state \<Rightarrow> bool" where
  "ip_idle = (\<lambda>(t, e, ts). ts = [])"

lemma ip_push_ok:
  assumes "ip_rel crc v sp" "ip_push crc sync v r v'"
  shows "case r of Success _ \<Rightarrow> \<exists>k. s_payload sp k = None \<and> ip_rel crc v' (spec_push k 1 PAYLOAD sp)
    | Failure \<Rightarrow> ip_rel crc v' sp | Unseen \<Rightarrow> False | Panic \<Rightarrow> True"
    and "ip_idle v \<Longrightarrow> ip_idle v'"
proof -
  show "case r of Success _ \<Rightarrow> \<exists>k. s_payload sp k = None \<and> ip_rel crc v' (spec_push k 1 PAYLOAD sp)
    | Failure \<Rightarrow> ip_rel crc v' sp | Unseen \<Rightarrow> False | Panic \<Rightarrow> True"
    using assms(2)
  proof cases
    case (ip_push t now e io res e' ts synced)
    have "refines crc now e sp" "distinct (map fst ts)" using assms(1) refines_mono ip_push(1,4) by (auto simp: ip_rel_def)
    with push_outcome [OF this(1) PAYLOAD_fits ip_push(5-8)] show ?thesis
      by (auto simp: ip_push(2,3) ip_rel_def split: outcome.split sum.splits)
  qed
  show "ip_idle v \<Longrightarrow> ip_idle v'" using assms(2) by cases (simp add: ip_idle_def)
qed

lemma ip_pop_ok:
  assumes "ip_rel crc v sp" "ip_pop crc sync c v r v'"
  shows "case r of Success k \<Rightarrow> \<exists>t ts ex. s_ready sp = t # ts \<and> ip_rel crc v' (spec_pop c ex sp)
    | Failure \<Rightarrow> ip_rel crc v' sp | Unseen \<Rightarrow> False | Panic \<Rightarrow> True"
  using assms(2)
proof cases
  case (ip_pop t now e res e' ts synced)
  have ref: "refines crc now e sp" "distinct (map fst ts)" using assms(1) refines_mono ip_pop(1,4) by (auto simp: ip_rel_def)
  show ?thesis
  proof (cases "s_ready sp")
    case Nil
    then show ?thesis using pop_empty_sim [OF ref(1) Nil, of AppendOk c 10] ip_pop(6) ref by (auto simp: ip_pop(2,3) ip_rel_def)
  next
    case (Cons t ts)
    then show ?thesis using pop_sim [OF ref(1) ip_pop(5) Cons, of c 10] ip_pop(6) ref(2)
      by (auto simp: ip_pop(2,3) ip_rel_def split: outcome.split)
  qed
qed

lemma ip_ack_ok:
  assumes "ip_rel crc v sp" "ip_ack crc sync k c v r v'"
  shows "case r of Success _ \<Rightarrow> \<exists>li. s_leased sp k = Some li \<and> consumer_id li = c \<and> ip_rel crc v' (spec_finish k sp)
    | Failure \<Rightarrow> ip_rel crc v' sp | Unseen \<Rightarrow> False | Panic \<Rightarrow> True"
  using assms(2)
proof cases
  case (ip_ack t now e io res e' ts synced)
  have "refines crc now e sp" "distinct (map fst ts)" using assms(1) refines_mono ip_ack(1,4) by (auto simp: ip_rel_def)
  with ack_outcome [OF this(1) ip_ack(5-7)] show ?thesis
    by (auto simp: ip_ack(2,3) ip_rel_def split: outcome.split sum.splits)
qed

lemma ip_never_unseen: "\<not> ip_push crc sync v Unseen v'" "\<not> ip_pop crc sync c v' Unseen v''" "\<not> ip_ack crc sync k c v Unseen v'"
  by (auto elim!: ip_push.cases ip_pop.cases ip_ack.cases split: sum.splits option.splits prod.splits)

lemma ip_tick_ok:
  assumes "ip_rel crc v sp" "ip_tick crc x d g v v'"
  shows "g = 0 \<Longrightarrow> \<exists>sp'. spec_expired x d sp sp' \<and> ip_rel crc v' sp'"
    and "ip_idle v \<Longrightarrow> s_leased sp = Map.empty \<Longrightarrow> g = 0 \<and> ip_idle v'"
proof -
  obtain t e ts now e' ts' where v: "v = (t, e, ts)" "v' = (now, e', ts')" "t \<le> now" "worker_section crc now x d g ts e ts' e'"
    using assms(2) by cases
  have ref: "refines crc now e sp" "distinct (map fst ts)" using assms(1) refines_mono v(1,3) by (auto simp: ip_rel_def)
  show "g = 0 \<Longrightarrow> \<exists>sp'. spec_expired x d sp sp' \<and> ip_rel crc v' sp'"
    using worker_section_sim [OF v(4) ref] by (auto simp: v(2) ip_rel_def)
  show "g = 0 \<and> ip_idle v'" if "ip_idle v" "s_leased sp = Map.empty"
    using worker_section_idle [of crc now x d g e ts' e'] v(4) ref(1) that by (simp add: v(1,2) ip_idle_def)
qed

interpretation ip: bench_service "ip_rel crc" ip_idle "ip_push crc sync" "ip_pop crc sync" "ip_ack crc sync" "ip_tick crc" for crc sync
proof unfold_locales
  fix v sp v' c k r r' x d g
  show "\<exists>k pr p. s_payload sp k = None \<and> ip_rel crc v' (spec_push k pr p sp)"
    if "ip_rel crc v sp" "ip_push crc sync v r v'" "r \<in> {Success (), Unseen}" using ip_push_ok(1) [OF that(1,2)] that(3) by fastforce
  show "ip_rel crc v' sp" if "ip_rel crc v sp" "ip_push crc sync v Failure v'" using ip_push_ok(1) [OF that] by simp
  show "ip_idle v'" if "ip_push crc sync v r v'" "ip_idle v" using that by cases (simp add: ip_idle_def)
  show "\<exists>t ts ex. s_ready sp = t # ts \<and> ip_rel crc v' (spec_pop c ex sp)"
    if "ip_rel crc v sp" "ip_pop crc sync c v r' v'" "r' \<in> {Success k, Unseen}" using ip_pop_ok [OF that(1,2)] that(3) by auto
  show "ip_rel crc v' sp" if "ip_rel crc v sp" "ip_pop crc sync c v Failure v'" using ip_pop_ok [OF that] by simp
  show "\<exists>li. s_leased sp k = Some li \<and> consumer_id li = c \<and> ip_rel crc v' (spec_finish k sp)"
    if "ip_rel crc v sp" "ip_ack crc sync k c v r v'" "r \<in> {Success (), Unseen}" using ip_ack_ok [OF that(1,2)] that(3) by auto
  show "ip_rel crc v' sp" if "ip_rel crc v sp" "ip_ack crc sync k c v Failure v'" using ip_ack_ok [OF that] by simp
  show "\<exists>sp'. spec_expired x d sp sp' \<and> ip_rel crc v' sp'" if "ip_rel crc v sp" "ip_tick crc x d 0 v v'" using ip_tick_ok(1) [OF that] by simp
  show "g = 0 \<and> ip_idle v'" if "ip_rel crc v sp" "ip_idle v" "s_leased sp = Map.empty" "ip_tick crc x d g v v'"
    using ip_tick_ok(2) [OF that(1,4,2,3)] .
qed

text \<open>The second check, once the tasks are accounted for.\<close>

lemma u64_of_nat:
  assumes "m < 2 ^ 64" "n < 2 ^ 64"
  shows "unat (of_nat m :: u64) = m" "(of_nat m :: u64) \<le> of_nat n \<longleftrightarrow> m \<le> n" "(of_nat m :: u64) = of_nat n \<longleftrightarrow> m = n"
proof -
  have *: "unat (of_nat m :: u64) = m" "unat (of_nat n :: u64) = n" using assms by (simp_all add: unat_of_nat)
  show "unat (of_nat m :: u64) = m" by (rule *)
  show "(of_nat m :: u64) \<le> of_nat n \<longleftrightarrow> m \<le> n" by (simp only: word_le_nat_alt *)
  show "(of_nat m :: u64) = of_nat n \<longleftrightarrow> m = n" using * by metis
qed

lemma pop_result_ok:
  assumes "p + (r + a) + d = m" "m < 2 ^ 64"
  shows "integrity_ok (pop_result (of_nat m) (of_nat p) (of_nat r) (of_nat a)) \<longleftrightarrow> d = 0 \<and> a = 0"
proof -
  have small: "p < 2 ^ 64" "r < 2 ^ 64" "a < 2 ^ 64" "m - p < 2 ^ 64" and pm: "p \<le> m" using assms by linarith+
  have 1: "saturating_sub (of_nat m) (of_nat p) = of_nat (m - p)"
    unfolding saturating_sub_def u64_of_nat(2) [OF small(1) assms(2)] using pm by (simp add: of_nat_diff)
  have 2: "(of_nat r :: u64) = of_nat (m - p) \<longleftrightarrow> r = m - p" by (rule u64_of_nat(3) [OF small(2,4)])
  have zero: "(of_nat 0 :: u64) = 0" by simp
  have "(of_nat a :: u64) = of_nat 0 \<longleftrightarrow> a = 0" by (rule u64_of_nat(3) [OF small(3)]) simp
  then have 3: "(of_nat a :: u64) = 0 \<longleftrightarrow> a = 0" unfolding zero .
  show ?thesis unfolding pop_result_def RunResult.simps 1 2 3 using assms(1) by linarith
qed

text \<open>
  A thread alone finishes: it pushes all its tasks, and after the reopening it leases and
  acknowledges all of them.
\<close>

abbreviation segments :: "Engine \<Rightarrow> nat" where
  "segments e \<equiv> unat (active_segment_id (wal (inner e)))"

lemma ip_push_once:
  assumes "refines crc 0 e sp" "room_for (Suc n) e" "next_id (inner e) \<noteq> - 1"
  shows "\<exists>e' k. ip_push crc sync (0, e, []) (Success ()) (0, e', []) \<and> s_payload sp k = None \<and> refines crc 0 e' (spec_push k 1 PAYLOAD sp) \<and>
    segments e' \<le> Suc (segments e) \<and> next_id (inner e') = next_id (inner e) + 1"
proof -
  have room: "has_room e" by (rule room_for_has_room [OF assms(2)])
  obtain e' where e': "push crc AppendOk PAYLOAD 1 e = (Inr (next_id (inner e)), e')" "s_payload sp (next_id (inner e)) = None"
      "refines crc 0 e' (spec_push (next_id (inner e)) 1 PAYLOAD sp)"
    using push_sim [OF assms(1) PAYLOAD_fits room assms(3), of 1] by blast
  have "ip_push crc sync (0, e, []) (Success ()) (0, e', [])"
    using ip_push [OF order_refl room assms(3) _ e'(1), where synced = "Inr ()" and sync = sync] by (simp add: io_clean_def)
  moreover have "segments e' \<le> Suc (segments e)" using push_active [of crc AppendOk PAYLOAD 1 e] by (simp add: e'(1))
  ultimately show ?thesis using e'(2,3) push_next_id [OF e'(1)] by blast
qed

lemma ip_pushes:
  assumes "refines crc 0 e sp" "counted_inv sp" "s_leased sp = Map.empty" "room_for n e" "next_id (inner e) = of_nat j" "j + n < 2 ^ 64"
    and "ph_service s = (0, e, [])" "ph_threads s 0 = Next n"
  shows "\<exists>e' sp' s'. (push_phase_step (ip_push crc sync) (ip_tick crc))\<^sup>*\<^sup>* s s' \<and> ph_service s' = (0, e', []) \<and> ph_threads s' 0 = Next 0 \<and>
    ph_counter s' = ph_counter s + of_nat n \<and> refines crc 0 e' sp' \<and> counted_inv sp' \<and> s_leased sp' = Map.empty \<and>
    length (s_ready sp') = length (s_ready sp) + n \<and> segments e' \<le> segments e + n"
  using assms
proof (induction n arbitrary: e sp j s)
  case 0
  then show ?case by (intro exI [of _ e] exI [of _ sp] exI [of _ s]) simp
next
  case (Suc n)
  have "unat (of_nat j :: u64) = j" using u64_of_nat(1) [of j 0] Suc.prems(6) by simp
  then have "next_id (inner e) \<noteq> - 1" using Suc.prems(5,6) by (auto simp: unsigned_minus_1_eq_mask mask_eq_exp_minus_1)
  then obtain e1 k where e1: "ip_push crc sync (0, e, []) (Success ()) (0, e1, [])" "s_payload sp k = None"
      "refines crc 0 e1 (spec_push k 1 PAYLOAD sp)" "segments e1 \<le> Suc (segments e)" "next_id (inner e1) = next_id (inner e) + 1"
    using ip_push_once [OF Suc.prems(1,4)] by blast
  let ?s = "s\<lparr>ph_service := (0, e1, []), ph_threads := (ph_threads s)(0 := Next n), ph_counter := ph_counter s + 1\<rparr>"
  have first: "(push_phase_step (ip_push crc sync) (ip_tick crc))\<^sup>*\<^sup>* s ?s"
    by (rule push_iteration [where push_op = "ip_push crc sync"]) (use Suc.prems(7,8) e1(1) in simp_all)
  note c = counted_push [OF Suc.prems(2) e1(2), of 1 PAYLOAD]
  have "\<exists>e' sp' s'. (push_phase_step (ip_push crc sync) (ip_tick crc))\<^sup>*\<^sup>* ?s s' \<and> ph_service s' = (0, e', []) \<and> ph_threads s' 0 = Next 0 \<and>
      ph_counter s' = ph_counter ?s + of_nat n \<and> refines crc 0 e' sp' \<and> counted_inv sp' \<and> s_leased sp' = Map.empty \<and>
      length (s_ready sp') = length (s_ready (spec_push k 1 PAYLOAD sp)) + n \<and> segments e' \<le> segments e1 + n"
    by (rule Suc.IH [OF e1(3) c(1), where j = "Suc j"]) (use Suc.prems(3-6) c(3) e1(4,5) in simp_all)
  then obtain e' sp' s' where r: "(push_phase_step (ip_push crc sync) (ip_tick crc))\<^sup>*\<^sup>* ?s s'" "ph_service s' = (0, e', [])" "ph_threads s' 0 = Next 0"
      "ph_counter s' = ph_counter ?s + of_nat n" "refines crc 0 e' sp'" "counted_inv sp'" "s_leased sp' = Map.empty"
      "length (s_ready sp') = length (s_ready (spec_push k 1 PAYLOAD sp)) + n" "segments e' \<le> segments e1 + n" by blast
  show ?case
    using rtranclp_trans [OF first r(1)] r(2-9) c(4) e1(4) by (intro exI [of _ e'] exI [of _ sp'] exI [of _ s']) (simp add: add.assoc)
qed

lemma ip_pop_once:
  assumes "refines crc 0 e sp" "s_ready sp = t # ts" "s_leased sp = Map.empty" "room_for (Suc (Suc n)) e"
  shows "\<exists>e1 e2 k sp'. ip_pop crc sync (of_nat 0) (0, e, []) (Success k) (0, e1, []) \<and> ip_ack crc sync k (of_nat 0) (0, e1, []) (Success ()) (0, e2, []) \<and>
    refines crc 0 e2 sp' \<and> s_ready sp' = ts \<and> s_leased sp' = Map.empty \<and> segments e2 \<le> Suc (Suc (segments e))"
proof -
  have room: "has_room e" by (rule room_for_has_room [OF assms(4)])
  obtain e1 p where e1: "pop_and_lease crc AppendOk 0 0 10 e = (Inr (Some (new_record (task_id t) Created (task_priority t) p, task_retries t)), e1)"
      "refines crc 0 e1 (spec_pop 0 10 sp)"
    using pop_sim [OF assms(1) room assms(2), of 0 10] by auto
  have s1: "segments e1 \<le> Suc (segments e)" using pop_active [of crc AppendOk 0 0 10 e] by (simp add: e1(1))
  then have room1: "has_room e1" using assms(4) room_for_has_room [where n = 0 and e = e1] by simp
  have "s_leased (spec_pop 0 10 sp) (task_id t) = Some (lease_info 0 10 (task_retries t) (task_priority t))" by (simp add: spec_pop_def assms(2))
  then obtain e2 where e2: "ack crc AppendOk (task_id t) 0 e1 = (Inr (), e2)" "refines crc 0 e2 (spec_finish (task_id t) (spec_pop 0 10 sp))"
    using ack_sim [OF e1(2) room1, of "task_id t" _ 0] by (auto simp: lease_info_def)
  have "ip_pop crc sync (of_nat 0) (0, e, []) (Success (task_id t)) (0, e1, [])"
    using ip_pop [OF order_refl room e1(1), where synced = "Inr ()" and sync = sync] by simp
  moreover have "ip_ack crc sync (task_id t) (of_nat 0) (0, e1, []) (Success ()) (0, e2, [])"
    using ip_ack [OF order_refl room1 _ e2(1), where synced = "Inr ()" and sync = sync] by (simp add: io_clean_def)
  moreover have "s_ready (spec_finish (task_id t) (spec_pop 0 10 sp)) = ts" "s_leased (spec_finish (task_id t) (spec_pop 0 10 sp)) = Map.empty"
    using assms(2,3) by (simp_all add: spec_finish_def spec_pop_def)
  moreover have "segments e2 \<le> Suc (Suc (segments e))" using ack_active [OF e2(1)] s1 by linarith
  ultimately show ?thesis using e2(2) by blast
qed

lemma ip_pops:
  assumes "refines crc 0 e sp" "length (s_ready sp) = n" "s_leased sp = Map.empty" "room_for (2 * n) e"
    and "ph_service s = (0, e, [])" "ph_threads s 0 = Next n"
  shows "\<exists>e' sp' s'. (pop_phase_step (ip_pop crc sync) (ip_ack crc sync) (ip_tick crc))\<^sup>*\<^sup>* s s' \<and> ph_service s' = (0, e', []) \<and>
    ph_threads s' 0 = Next 0 \<and> ph_counter s' = ph_counter s + of_nat n \<and> ph_history s' = ph_history s \<and> refines crc 0 e' sp'"
  using assms
proof (induction n arbitrary: e sp s)
  case 0
  then show ?case by (intro exI [of _ e] exI [of _ sp] exI [of _ s]) simp
next
  case (Suc n)
  then obtain t ts where t: "s_ready sp = t # ts" by (cases "s_ready sp") auto
  have "room_for (Suc (Suc (2 * n))) e" using Suc.prems(4) by simp
  then obtain e1 e2 k sp2 where e2: "ip_pop crc sync (of_nat 0) (0, e, []) (Success k) (0, e1, [])" "ip_ack crc sync k (of_nat 0) (0, e1, []) (Success ()) (0, e2, [])"
      "refines crc 0 e2 sp2" "s_ready sp2 = ts" "s_leased sp2 = Map.empty" "segments e2 \<le> Suc (Suc (segments e))"
    using ip_pop_once [OF Suc.prems(1) t Suc.prems(3)] by blast
  let ?run = "(pop_phase_step (ip_pop crc sync) (ip_ack crc sync) (ip_tick crc))\<^sup>*\<^sup>*"
  let ?s = "s\<lparr>ph_service := (0, e2, []), ph_threads := (ph_threads s)(0 := Next n), ph_counter := ph_counter s + 1\<rparr>"
  have first: "?run s ?s"
    by (rule pop_iteration [where pop_op = "ip_pop crc sync" and ack_op = "ip_ack crc sync"]) (use Suc.prems(5,6) e2(1,2) in simp_all)
  have "\<exists>e' sp' s'. ?run ?s s' \<and> ph_service s' = (0, e', []) \<and> ph_threads s' 0 = Next 0 \<and> ph_counter s' = ph_counter ?s + of_nat n \<and>
      ph_history s' = ph_history ?s \<and> refines crc 0 e' sp'"
    by (rule Suc.IH [OF e2(3)]) (use Suc.prems(2,4) t e2(4-6) in simp_all)
  then obtain e' sp' s' where r: "?run ?s s'" "ph_service s' = (0, e', [])" "ph_threads s' 0 = Next 0" "ph_counter s' = ph_counter ?s + of_nat n"
      "ph_history s' = ph_history ?s" "refines crc 0 e' sp'"
    by blast
  show ?case using rtranclp_trans [OF first r(1)] r(2-6) by (intro exI [of _ e'] exI [of _ sp'] exI [of _ s']) (simp add: add.assoc)
qed

lemma ip_full_run:
  assumes "n < 2 ^ 32"
  shows "\<exists>r1 r2 final. nesso_ip_run byte_sum sync 1 n no_history r1 r2 final \<and> dispatched r1 = of_nat n \<and> dispatched r2 = of_nat n"
proof -
  let ?s = "phase_start 1 n (0 :: u64, demo_new, [] :: collected)"
  have "\<exists>e' sp' s'. (push_phase_step (ip_push byte_sum sync) (ip_tick byte_sum))\<^sup>*\<^sup>* ?s s' \<and> ph_service s' = (0, e', []) \<and> ph_threads s' 0 = Next 0 \<and>
    ph_counter s' = ph_counter ?s + of_nat n \<and> refines byte_sum 0 e' sp' \<and> counted_inv sp' \<and> s_leased sp' = Map.empty \<and>
    length (s_ready sp') = length (s_ready spec_init) + n \<and> segments e' \<le> segments demo_new + n"
    by (rule ip_pushes [OF demo_new(4) counted_init(1), of n 1 ?s]) (use assms demo_new(2,3) in \<open>simp_all add: phase_start_def spec_init_def\<close>)
  then obtain e1 sp1 s1 where 1: "(push_phase_step (ip_push byte_sum sync) (ip_tick byte_sum))\<^sup>*\<^sup>* ?s s1" "ph_service s1 = (0, e1, [])"
      "ph_threads s1 0 = Next 0" "ph_counter s1 = of_nat n" "refines byte_sum 0 e1 sp1" "s_leased sp1 = Map.empty"
      "length (s_ready sp1) = n" "segments e1 \<le> Suc n"
    by (auto simp: phase_start_def spec_init_def demo_new(2))
  obtain e2 sp2 where 2: "engine_open byte_sum 0 (files e1) = Inr e2" "spec_reopened 0 sp1 sp2" "refines byte_sum 0 e2 sp2"
    using restart_sim [OF 1(5), of 0] by auto
  note r = reopened_without_leases [OF 2(2) 1(6)]
  have "segments e2 \<le> Suc n" using restart_active [OF 1(5) 2(1)] 1(8) by simp
  then have "room_for (2 * n) e2" using assms by simp
  then obtain e3 sp3 s3 where 3: "(pop_phase_step (ip_pop byte_sum sync) (ip_ack byte_sum sync) (ip_tick byte_sum))\<^sup>*\<^sup>* (phase_start 1 n (0, e2, [])) s3"
      "ph_service s3 = (0, e3, [])" "ph_threads s3 0 = Next 0" "ph_counter s3 = of_nat n" "ph_history s3 = no_history" "refines byte_sum 0 e3 sp3"
    using ip_pops [OF 2(3) _ r(1), of n "phase_start 1 n (0, e2, [])" sync] 1(7) r(2) by (auto simp: phase_start_def)
  obtain e4 where 4: "engine_open byte_sum 0 (files e3) = Inr e4" using restart_sim [OF 3(6), of 0] by auto
  have joined: "all_joined 1 s1" "all_joined 1 s3" using 1(3) 3(3) by (simp_all add: all_joined_def)
  from nesso_ip_run [OF demo_new(1) 1(1) joined(1) 1(2) order_refl 2(1) 3(1) joined(2) 3(2) order_refl 4]
  show ?thesis by (fastforce simp: 1(4) 3(4,5) push_result_def pop_result_def)
qed

text \<open>The collected runs are those after the first.\<close>

lemma collect_runs_upto: "br_runs (fold (\<lambda>i. record_run i (r i)) [0..<Suc n] res) = br_runs res @ map r [1..<Suc n]"
  by (induction n) (simp_all add: record_run_def)

lemma collect_runs: "br_runs (collect_runs quick r res) = br_runs res @ map r [1..<num_runs quick]"
  using collect_runs_upto [of r "num_runs quick - 1" res] by (simp add: collect_runs_def num_runs_def)

lemma ip_accounting:
  assumes "nesso_ip_run crc sync t_count per_thread h r1 r2 final" "t_count * per_thread < 2 ^ 64"
  shows "integrity_ok r1 \<and> unat (dispatched r1) \<le> t_count * per_thread \<and>
    (h_stale h = 0 \<longrightarrow> unat (dispatched r2) + (fst final + snd final) + h_dead h = unat (dispatched r1) \<and>
      (integrity_ok r2 \<longleftrightarrow> h_dead h = 0 \<and> snd final = 0) \<and>
      snd final + h_expired h \<le> h_refused h \<and> h_dead h \<le> h_expired h \<and> (h_refused h = 0 \<longrightarrow> integrity_ok r2))"
  using assms(1)
proof cases
  case (nesso_ip_run t0 engine s1 t1 e1 t2 cold s2 t3 e3 t4 cold2)
  have "ip_rel crc (t0, engine, []) spec_init" "ip_idle (t0, engine, [])"
    using engine_init_sim [of crc "(t0, engine)"] nesso_ip_run(5) by (simp_all add: ip_rel_def ip_idle_def engine_init_def)
  from ip.push_phase_result [OF nesso_ip_run(6,7) this counted_init(1)] no_unseen_pushes [OF nesso_ip_run(6) ip_never_unseen(1)]
  obtain sp1 where sp1: "refines crc t1 e1 sp1" "counted_inv sp1" "s_leased sp1 = Map.empty" "ph_counter s1 = of_nat (length (s_ready sp1))"
      "length (s_ready sp1) \<le> t_count * per_thread"
    by (auto simp: spec_init_def ip_rel_def nesso_ip_run(8))
  obtain sp2 where sp2: "spec_reopened t2 sp1 sp2" "refines crc t2 cold sp2"
    using restart_sim [OF sp1(1) nesso_ip_run(9)] nesso_ip_run(10) by auto
  note c2 = counted_reopened [OF sp2(1) sp1(2)] reopened_without_leases [OF sp2(1) sp1(3)]
  let ?m = "length (s_ready sp1)"
  have m: "?m < 2 ^ 64" using sp1(5) assms(2) by simp
  have r1: "r1 = push_result (of_nat ?m) (of_nat ?m)" using status_counts [OF sp2(2)] by (simp add: nesso_ip_run(2) sp1(4) c2(5))
  have d1: "unat (dispatched r1) = ?m" using m by (simp add: r1 push_result_def unat_of_nat)
  have "unat (dispatched r2) + (fst final + snd final) + h_dead h = ?m \<and> (integrity_ok r2 \<longleftrightarrow> h_dead h = 0 \<and> snd final = 0) \<and>
      snd final + h_expired h \<le> h_refused h \<and> h_dead h \<le> h_expired h" if "h_stale h = 0"
  proof -
    have "ip_rel crc (t2, cold, []) sp2" using sp2(2) by (simp add: ip_rel_def)
    from ip.pop_phase_result [OF nesso_ip_run(11,12) this c2(1,4) nesso_ip_run(1) that] no_unseen_pops [OF nesso_ip_run(11) ip_never_unseen(2,3)]
    obtain sp3 p where sp3: "refines crc t3 e3 sp3" "counted_inv sp3" "ph_counter s2 = of_nat p" "p + live sp3 + h_dead h = live sp2"
        "card (dom (s_leased sp3)) + h_expired h = h_refused h" "h_dead h \<le> h_expired h"
      by (auto simp: ip_rel_def nesso_ip_run(1,13))
    obtain sp4 where sp4: "spec_reopened t4 sp3 sp4" "refines crc t4 cold2 sp4"
      using restart_sim [OF sp3(1) nesso_ip_run(14)] nesso_ip_run(15) by auto
    note c4 = counted_reopened [OF sp4(1) sp3(2)]
    have final: "fst final + snd final = live sp3" "snd final \<le> card (dom (s_leased sp3))"
      using status_counts [OF sp4(2)] counted_invD(4) [OF c4(1)] c4(2) card_mono [OF counted_invD(3) [OF sp3(2)] c4(3)]
      by (simp_all add: nesso_ip_run(4))
    have "live sp2 = ?m" using counted_invD(4) [OF c2(1)] by (simp add: c2(4,5))
    then have acc: "p + (fst final + snd final) + h_dead h = ?m" using sp3(4) final(1) by simp
    have r2: "r2 = pop_result (of_nat ?m) (of_nat p) (of_nat (fst final)) (of_nat (snd final))"
      by (simp add: nesso_ip_run(3,4) sp1(4) sp3(3))
    have "unat (dispatched r2) = p" using acc m by (simp add: r2 pop_result_def unat_of_nat)
    moreover have "integrity_ok r2 \<longleftrightarrow> h_dead h = 0 \<and> snd final = 0" unfolding r2 by (rule pop_result_ok [OF acc m])
    ultimately show ?thesis using acc sp3(5,6) final(2) by auto
  qed
  moreover have "integrity_ok r1" by (simp add: r1 push_result_def)
  ultimately show ?thesis unfolding d1 using sp1(5) by auto
qed

lemma collect_runs_labels:
  "br_system (collect_runs quick r res) = br_system res" "br_op (collect_runs quick r res) = br_op res"
  "br_sync (collect_runs quick r res) = br_sync res" "br_threads (collect_runs quick r res) = br_threads res"
proof -
  have "br_system (fold (\<lambda>i. record_run i (r i)) is res) = br_system res \<and> br_op (fold (\<lambda>i. record_run i (r i)) is res) = br_op res \<and>
    br_sync (fold (\<lambda>i. record_run i (r i)) is res) = br_sync res \<and> br_threads (fold (\<lambda>i. record_run i (r i)) is res) = br_threads res" for "is"
    by (induction "is" arbitrary: res) (simp_all add: record_run_def)
  then show "br_system (collect_runs quick r res) = br_system res" "br_op (collect_runs quick r res) = br_op res"
    "br_sync (collect_runs quick r res) = br_sync res" "br_threads (collect_runs quick r res) = br_threads res" by (simp_all add: collect_runs_def)
qed

lemma ip_rows:
  assumes "row \<in> set (all_results http_enabled quick run)" "br_system row = ''Nesso (In-Process)''"
  shows "\<exists>sync t_count op. t_count \<in> set (thread_counts quick) \<and> op \<in> {''Push'', ''Pop+Ack''} \<and>
    row = collect_runs quick (run sync t_count ''Nesso (In-Process)'' op) (bench_result_new ''Nesso (In-Process)'' t_count (nominal_tasks quick sync) sync op)"
proof -
  obtain sync t_count system op where r: "t_count \<in> set (thread_counts quick)" "(system, op) \<in> set (bench_rows http_enabled)"
      "row = collect_runs quick (run sync t_count system op) (bench_result_new system t_count (nominal_tasks quick sync) sync op)"
    using assms(1) by (auto simp: all_results_def)
  then have "system = ''Nesso (In-Process)''" using assms(2) by (simp add: collect_runs_labels bench_result_new_def)
  then have "op \<in> {''Push'', ''Pop+Ack''}" using r(2) by (auto simp: bench_rows_def split: if_splits)
  then show ?thesis using r(1,3) \<open>system = _\<close> by blast
qed

section \<open>Properties\<close>

text \<open>
  C24. The integrity checks of the in-process benchmark, in every interleaving of the calls of
  its threads and of the locked sections of the expiration worker, and whatever pushes and
  acknowledgements fail (what a failed append wrote can be taken back, and the record of every
  lease is written). The first check always succeeds.
  If no round of the worker processed a lease that had ended after it was collected, every
  dispatched task is after the second phase ready or leased in the reopened directory, was
  acknowledged and counted once, or was dead-lettered; so the second check succeeds exactly if
  no lease is left and nothing was dead-lettered. In particular it does when no acknowledgement
  was refused. (What a lease that ends between the two sections of a round does is shown by
  \<open>Engine_Faults\<close>.)
\<close>

theorem nesso_ip_integrity:
  assumes "nesso_ip_run crc sync t_count per_thread h r1 r2 final" "t_count * per_thread < 2 ^ 64"
  shows "integrity_ok r1 \<and> unat (dispatched r1) \<le> t_count * per_thread \<and>
    (h_stale h = 0 \<longrightarrow> unat (dispatched r2) + (fst final + snd final) + h_dead h = unat (dispatched r1) \<and>
      (integrity_ok r2 \<longleftrightarrow> h_dead h = 0 \<and> snd final = 0) \<and>
      snd final + h_expired h \<le> h_refused h \<and> h_dead h \<le> h_expired h \<and> (h_refused h = 0 \<longrightarrow> integrity_ok r2))"
  by (rule ip_accounting [OF assms])

theorem nesso_ip_integrity_witness:
  "\<exists>r1 r2 final. nesso_ip_run byte_sum True 1 1 no_history r1 r2 final \<and> dispatched r1 = 1 \<and> dispatched r2 = 1 \<and>
     integrity_ok r1 \<and> integrity_ok r2"
proof -
  obtain r1 r2 final where r: "nesso_ip_run byte_sum True 1 1 no_history r1 r2 final" "dispatched r1 = 1" "dispatched r2 = 1"
    using ip_full_run [of 1 True] by auto
  have "integrity_ok r1 \<and> integrity_ok r2" using nesso_ip_integrity [OF r(1)] by (simp add: no_history_def)
  then show ?thesis using r by blast
qed

text \<open>
  C25. What the report says of the in-process benchmark, over all its configurations: the
  integrity column of the rows for pushes is always good. The one for pops, if in no measured
  run of that row the worker processed a lease that had ended after it was collected, is good
  exactly if no measured run of the row dead-lettered a task or left a lease; the warm-up runs do
  not count. No two runs share a directory, and the clean-up before the first run and after the
  last removes all of them.
\<close>

theorem ip_report_integrity:
  assumes "\<And>sync t_count i. (sync, t_count, i) \<in> set (bench_runs quick) \<Longrightarrow>
      nesso_ip_run crc sync t_count (tasks_per_thread quick sync t_count) (h sync t_count i)
        (run sync t_count ''Nesso (In-Process)'' ''Push'' i) (run sync t_count ''Nesso (In-Process)'' ''Pop+Ack'' i) (final sync t_count i)"
    and "row \<in> set (all_results http_enabled quick run)" "br_system row = ''Nesso (In-Process)''"
  shows "length (br_runs row) = num_runs quick - 1 \<and>
    (if br_op row = ''Push'' then all_integrity_ok row
     else br_op row = ''Pop+Ack'' \<and>
       ((\<forall>i \<in> {1..<num_runs quick}. h_stale (h (br_sync row) (br_threads row) i) = 0) \<longrightarrow>
        (all_integrity_ok row \<longleftrightarrow>
         (\<forall>i \<in> {1..<num_runs quick}. h_dead (h (br_sync row) (br_threads row) i) = 0 \<and> snd (final (br_sync row) (br_threads row) i) = 0)))) \<and>
    distinct (map (\<lambda>(sync, t_count, i). nesso_dir base sync t_count (nominal_tasks quick sync) i) (bench_runs quick)) \<and>
    (\<lambda>(sync, t_count, i). RemoveDirAll (nesso_dir base sync t_count (nominal_tasks quick sync) i)) ` set (bench_runs quick) \<subseteq>
      set (cleanup_benchmark_files base (thread_counts quick) (num_runs quick) quick)"
proof -
  obtain sync t_count op where row: "t_count \<in> set (thread_counts quick)" "op \<in> {''Push'', ''Pop+Ack''}"
      "row = collect_runs quick (run sync t_count ''Nesso (In-Process)'' op) (bench_result_new ''Nesso (In-Process)'' t_count (nominal_tasks quick sync) sync op)"
    using ip_rows [OF assms(2,3)] by blast
  have ok: "integrity_ok (run sync t_count ''Nesso (In-Process)'' ''Push'' i)"
    "h_stale (h sync t_count i) = 0 \<Longrightarrow> integrity_ok (run sync t_count ''Nesso (In-Process)'' ''Pop+Ack'' i) \<longleftrightarrow>
      h_dead (h sync t_count i) = 0 \<and> snd (final sync t_count i) = 0"
    if "i \<in> {1..<num_runs quick}" for i
    using ip_accounting [OF assms(1) [of sync t_count i] quota_fits] that row(1) by (auto simp: bench_runs_iff)
  have "br_runs row = map (run sync t_count ''Nesso (In-Process)'' op) [1..<num_runs quick]" "[1..<num_runs quick] \<noteq> []"
    "br_sync row = sync" "br_threads row = t_count" "br_op row = op"
    by (simp_all add: row(3) collect_runs collect_runs_labels bench_result_new_def num_runs_def)
  then have "length (br_runs row) = num_runs quick - 1 \<and> (if br_op row = ''Push'' then all_integrity_ok row
     else br_op row = ''Pop+Ack'' \<and> ((\<forall>i \<in> {1..<num_runs quick}. h_stale (h (br_sync row) (br_threads row) i) = 0) \<longrightarrow>
      (all_integrity_ok row \<longleftrightarrow>
         (\<forall>i \<in> {1..<num_runs quick}. h_dead (h (br_sync row) (br_threads row) i) = 0 \<and> snd (final (br_sync row) (br_threads row) i) = 0))))"
    using ok row(2) by (auto simp: all_integrity_ok_def list_all_iff)
  then show ?thesis using bench_runs_distinct [of quick] bench_runs_removed by (auto simp: distinct_map inj_on_def nesso_dir_inject)
qed

text \<open>A quick benchmark without the server: all its runs, and the rows of its report.\<close>

theorem ip_report_integrity_witness:
  "\<exists>run final. (\<forall>sync. nesso_ip_run byte_sum sync 1 100 no_history
       (run sync 1 ''Nesso (In-Process)'' ''Push'' 1) (run sync 1 ''Nesso (In-Process)'' ''Pop+Ack'' 1) (final sync)) \<and>
     dispatched (run False 1 ''Nesso (In-Process)'' ''Pop+Ack'' 1) = 100 \<and>
     list_all all_integrity_ok (filter (\<lambda>row. br_system row = ''Nesso (In-Process)'') (all_results False True run))"
proof -
  have "\<forall>sync. \<exists>r. dispatched (fst (snd r)) = 100 \<and> nesso_ip_run byte_sum sync 1 100 no_history (fst r) (fst (snd r)) (snd (snd r))"
    using ip_full_run [of 100] by (simp add: split_paired_Ex) blast
  then obtain r where r: "dispatched (fst (snd (r sync))) = 100"
      "nesso_ip_run byte_sum sync 1 100 no_history (fst (r sync)) (fst (snd (r sync))) (snd (snd (r sync)))" for sync by metis
  define run :: run_results where "run = (\<lambda>sync t system op i. if op = ''Push'' then fst (r sync) else fst (snd (r sync)))"
  have "(sync, t_count, i) \<in> set (bench_runs True) \<Longrightarrow>
      nesso_ip_run byte_sum sync t_count (tasks_per_thread True sync t_count) no_history
        (run sync t_count ''Nesso (In-Process)'' ''Push'' i) (run sync t_count ''Nesso (In-Process)'' ''Pop+Ack'' i) (snd (snd (r sync)))" for sync t_count i
    using r(2) [of sync] by (simp add: bench_runs_iff thread_counts_def tasks_per_thread_def nominal_tasks_def run_def)
  note rep = ip_report_integrity [where h = "\<lambda>sync t i. no_history" and final = "\<lambda>sync t i. snd (snd (r sync))"
      and http_enabled = False and run = run and quick = True and crc = byte_sum and base = "[]", OF this]
  have "snd (snd (snd (r sync))) = 0" for sync using ip_accounting [OF r(2) [of sync]] by (simp add: no_history_def)
  then have "all_integrity_ok row" if "row \<in> set (all_results False True run)" "br_system row = ''Nesso (In-Process)''" for row
    using rep [of row] that by (simp add: no_history_def split: if_splits)
  then have "list_all all_integrity_ok (filter (\<lambda>row. br_system row = ''Nesso (In-Process)'') (all_results False True run))"
    by (simp add: list_all_iff)
  then show ?thesis using r by (intro exI [of _ run] exI [of _ "\<lambda>sync. snd (snd (r sync))"]) (simp add: run_def)
qed

end
