(* ===== verification/Benchmark_Http.thy ===== *)
theory Benchmark_Http
  imports Benchmark Server
begin

text \<open>
  The part of the benchmark, \<open>src/src/bin/bench.rs\<close>, that works through the HTTP server: the
  same threads, whose calls are requests to one queue of the server. Its checks ask the running
  server for the status of the queue.
\<close>

section \<open>Requests\<close>

text \<open>The queue of a run.\<close>

definition bench_queue_name :: "bool \<Rightarrow> nat \<Rightarrow> nat \<Rightarrow> nat \<Rightarrow> string" where
  "bench_queue_name sync t_count nominal run_idx = ''bench_q_'' @ run_name sync t_count nominal run_idx"

lemma bench_queue_name_inject:
  "bench_queue_name s t n i = bench_queue_name s' t' n' i' \<longleftrightarrow> s = s' \<and> t = t' \<and> n = n' \<and> i = i'"
  by (simp add: bench_queue_name_def run_name_inject)

text \<open>\<open>r.status().is_success()\<close> of what the client receives.\<close>

definition http_success :: "ApiError + Response \<Rightarrow> bool" where
  "http_success res \<longleftrightarrow> 200 \<le> status_code (answer res) \<and> status_code (answer res) < 300"

text \<open>\<open>body["id"].as_u64()\<close> of a response with status 200.\<close>

definition popped_id :: "ApiError + Response \<Rightarrow> u64 option" where
  "popped_id res =
     (if status_code (answer res) = 200 then (case resp_body (answer res) of PopBody k _ _ _ \<Rightarrow> Some k | _ \<Rightarrow> None) else None)"

definition status_ready :: "ApiError + Response \<Rightarrow> u64" where
  "status_ready res = (case resp_body (answer res) of StatusBody ready _ \<Rightarrow> of_nat ready | _ \<Rightarrow> 0)"

definition status_active :: "ApiError + Response \<Rightarrow> u64" where
  "status_active res = (case resp_body (answer res) of StatusBody _ active \<Rightarrow> of_nat active | _ \<Rightarrow> - 1)"

text \<open>
  What a request is to the thread that makes it. \<open>delivered\<close>: the answer arrives and its body
  can be read; \<open>answered\<close> is what it says then. \<open>effect\<close>: the operation has taken effect, which
  a thread without a good answer does not learn.
\<close>

definition seen_as :: "bool \<Rightarrow> 'a option \<Rightarrow> bool \<Rightarrow> 'a outcome" where
  "seen_as delivered answered effect =
     (case (if delivered then answered else None) of
        Some v \<Rightarrow> Success v
      | None \<Rightarrow> if effect then Unseen else Failure)"

text \<open>
  The state is the time of the last request, the server, and what the expiration worker of the
  queue has collected and not yet processed. A request may not reach the server; if it does, the
  server is done with it before the client goes on. Its answer may get lost, a requested \<open>sync\<close>
  may fail, and appends may fail, as long as what they wrote can be taken back; the record of a
  lease is written without failure. An operation has taken effect if the handler without \<open>sync\<close>
  would have answered so.
\<close>

type_synonym http_state = "u64 \<times> AppState \<times> collected"

definition queue_room :: "string \<Rightarrow> AppState \<Rightarrow> bool" where
  "queue_room name st \<longleftrightarrow> pred_option (\<lambda>ctx. has_room (ctx_engine ctx)) (hm_get (queues st) name)"

definition ids_left :: "string \<Rightarrow> AppState \<Rightarrow> bool" where
  "ids_left name st \<longleftrightarrow> pred_option (\<lambda>ctx. next_id (inner (ctx_engine ctx)) \<noteq> - 1) (hm_get (queues st) name)"

inductive http_push :: "externals \<Rightarrow> string \<Rightarrow> bool \<Rightarrow> http_state \<Rightarrow> unit outcome \<Rightarrow> http_state \<Rightarrow> bool" for ext name sync where
  hp_processed: "t \<le> r_now env \<Longrightarrow> io_clean (r_io env) \<Longrightarrow> queue_room name st \<Longrightarrow> ids_left name st \<Longrightarrow>
    push_handler ext env name sync (b64_encode ext PAYLOAD) 1 st = (res, st') \<Longrightarrow>
    http_push ext name sync (t, st, ts)
      (seen_as delivered (if http_success res then Some () else None)
        (http_success (fst (push_handler ext env name False (b64_encode ext PAYLOAD) 1 st)))) (r_now env, st', ts)"
| hp_not_sent: "http_push ext name sync (t, st, ts) Failure (t, st, ts)"

inductive http_pop :: "externals \<Rightarrow> string \<Rightarrow> bool \<Rightarrow> u32 \<Rightarrow> http_state \<Rightarrow> u64 outcome \<Rightarrow> http_state \<Rightarrow> bool" for ext name sync c where
  hl_processed: "t \<le> r_now env \<Longrightarrow> r_io env = AppendOk \<Longrightarrow> queue_room name st \<Longrightarrow>
    pop_handler ext env name sync c 10 0 instant ws st = (Some res, st') \<Longrightarrow>
    http_pop ext name sync c (t, st, ts)
      (seen_as delivered (popped_id res)
        (pred_option (\<lambda>r. popped_id r \<noteq> None) (fst (pop_handler ext env name False c 10 0 instant ws st)))) (r_now env, st', ts)"
| hl_not_sent: "http_pop ext name sync c (t, st, ts) Failure (t, st, ts)"

inductive http_ack :: "externals \<Rightarrow> string \<Rightarrow> bool \<Rightarrow> u64 \<Rightarrow> u32 \<Rightarrow> http_state \<Rightarrow> unit outcome \<Rightarrow> http_state \<Rightarrow> bool"
  for ext name sync k c where
  ha_processed: "t \<le> r_now env \<Longrightarrow> io_clean (r_io env) \<Longrightarrow> queue_room name st \<Longrightarrow>
    ack_handler ext env name sync k c st = (res, st') \<Longrightarrow>
    http_ack ext name sync k c (t, st, ts)
      (seen_as delivered (if http_success res then Some () else None)
        (http_success (fst (ack_handler ext env name False k c st)))) (r_now env, st', ts)"
| ha_not_sent: "http_ack ext name sync k c (t, st, ts) Failure (t, st, ts)"

text \<open>
  One of the two locked sections of a round of the expiration worker of the queue, once it is
  open; requests may come between them.
\<close>

inductive http_tick :: "externals \<Rightarrow> string \<Rightarrow> nat \<Rightarrow> nat \<Rightarrow> nat \<Rightarrow> http_state \<Rightarrow> http_state \<Rightarrow> bool" for ext name where
  http_tick: "t \<le> now \<Longrightarrow> hm_get (queues st) name = Some ctx \<Longrightarrow>
    worker_section (x_crc ext) now x d g ts (ctx_engine ctx) ts' e' \<Longrightarrow>
    on_engine ext name (\<lambda>_. (Inr (), e')) st = (res, st') \<Longrightarrow>
    http_tick ext name x d g (t, st, ts) (now, st', ts')"

text \<open>
  A run on a queue that does not exist yet: the first phase, the status, the second phase, the
  status again. \<open>u\<close> counts the pushes of the first phase that took effect unseen, \<open>h\<close> is the
  history of the second phase.
\<close>

inductive nesso_http_run ::
  "externals \<Rightarrow> string \<Rightarrow> bool \<Rightarrow> nat \<Rightarrow> nat \<Rightarrow> nat \<Rightarrow> history \<Rightarrow> RunResult \<Rightarrow> RunResult \<Rightarrow> bool"
  for ext name sync t_count per_thread where
  nesso_http_run: "hm_get (queues st) name = None \<Longrightarrow> \<not> hm_contains (disk st) (path_join (data_dir st) name) \<Longrightarrow>
    (push_phase_step (http_push ext name sync) (http_tick ext name))\<^sup>*\<^sup>* (phase_start t_count per_thread (t0, st, [])) s1 \<Longrightarrow>
    all_joined t_count s1 \<Longrightarrow> ph_service s1 = (t1, st1, ts1) \<Longrightarrow> t1 \<le> r_now env1 \<Longrightarrow>
    status_handler ext env1 name st1 = (status1, st2) \<Longrightarrow>
    (pop_phase_step (http_pop ext name sync) (http_ack ext name sync) (http_tick ext name))\<^sup>*\<^sup>*
      (phase_start t_count per_thread (r_now env1, st2, ts1)) s2 \<Longrightarrow>
    all_joined t_count s2 \<Longrightarrow> ph_service s2 = (t3, st3, ts3) \<Longrightarrow> t3 \<le> r_now env2 \<Longrightarrow>
    status_handler ext env2 name st3 = (status2, st4) \<Longrightarrow>
    nesso_http_run ext name sync t_count per_thread (h_unseen_pushes (ph_history s1)) (ph_history s2)
      (push_result (ph_counter s1) (status_ready status1))
      (pop_result (ph_counter s1) (ph_counter s2) (status_ready status2) (status_active status2))"

section \<open>The server keeps the contract\<close>

text \<open>
  The queue is open and its engine has these tasks; before the first push, when \<open>opened\<close> is
  not required, it may also not exist. The codec is one.
\<close>

definition http_rel :: "externals \<Rightarrow> string \<Rightarrow> bool \<Rightarrow> http_state \<Rightarrow> task_spec \<Rightarrow> bool" where
  "http_rel ext name opened = (\<lambda>(t, st, ts) sp.
     b64_decode ext (b64_encode ext PAYLOAD) = Inr PAYLOAD \<and> distinct (map fst ts) \<and>
     (case hm_get (queues st) name of
        None \<Rightarrow> \<not> opened \<and> \<not> hm_contains (disk st) (path_join (data_dir st) name) \<and> sp = spec_init
      | Some ctx \<Rightarrow> refines (x_crc ext) t (ctx_engine ctx) sp))"

lemma http_rel_open:
  "hm_get (queues st) name = Some ctx \<Longrightarrow> http_rel ext name opened (t, st, ts) sp \<longleftrightarrow>
   b64_decode ext (b64_encode ext PAYLOAD) = Inr PAYLOAD \<and> distinct (map fst ts) \<and> refines (x_crc ext) t (ctx_engine ctx) sp"
  by (simp add: http_rel_def)

definition http_idle :: "http_state \<Rightarrow> bool" where
  "http_idle = (\<lambda>(t, st, ts). ts = [])"

text \<open>A thread whose request had no effect sees a failure.\<close>

lemma seen_as_delivered [simp]: "seen_as True (Some v) effect = Success v"
  by (simp add: seen_as_def)

lemma seen_as_cases:
  assumes "answered \<noteq> None \<longrightarrow> effect"
  shows "seen_as delivered answered effect \<in> {Success v, Unseen} \<Longrightarrow> effect" "seen_as delivered answered effect = Failure \<Longrightarrow> \<not> effect"
  using assms by (auto simp: seen_as_def split: option.splits if_splits)

text \<open>What an operation on the engine of an open queue leaves.\<close>

lemma on_engine_rel:
  assumes "hm_get (queues st) name = Some ctx" "f (ctx_engine ctx) = (res, e)" "on_engine ext name f st = (r, st')"
  shows "\<exists>ctx'. hm_get (queues st') name = Some ctx' \<and> ctx_engine ctx' = e" "r = (case res of Inl err \<Rightarrow> Inl (api_error ext err) | Inr v \<Rightarrow> Inr v)"
  using on_engine_open [where f = f, OF assms(1,2), of ext] assms(3) by auto

lemma error_not_success: "\<not> http_success (Inl e)"
  by (cases e) (simp_all add: http_success_def answer_def into_response_def response_def)

lemma success_simps:
  "http_success (Inr (response s b)) \<longleftrightarrow> 200 \<le> s \<and> s < 300" "popped_id (Inl e) = None"
  "popped_id (Inr (response s b)) = (if s = 200 then (case b of PopBody k _ _ _ \<Rightarrow> Some k | _ \<Rightarrow> None) else None)"
  by (auto simp: http_success_def popped_id_def answer_def into_response_def response_def split: ApiError.split)

subsection \<open>Pushing\<close>

text \<open>The first push opens the queue, if it can.\<close>

lemma create_queue:
  assumes "hm_get (queues st) name = None" "\<not> hm_contains (disk st) (path_join (data_dir st) name)"
    and "get_or_create_queue ext env name st = (res, st')"
  shows "(\<exists>err. res = Inl err \<and> st' = st) \<or>
    (res = Inr () \<and> (\<exists>ctx. hm_get (queues st') name = Some ctx \<and> refines (x_crc ext) (r_now env) (ctx_engine ctx) spec_init \<and>
       has_room (ctx_engine ctx) \<and> next_id (inner (ctx_engine ctx)) \<noteq> - 1))"
proof (cases "r_mkdir env")
  case (Inl err)
  then have "get_or_create_queue ext env name st = (Inl err, st)" using assms(1,2) by (simp add: get_or_create_queue_def)
  then show ?thesis using assms(3) by simp
next
  case (Inr u)
  obtain e where e: "engine_open (x_crc ext) (r_now env) fs_empty = Inr e" "next_id (inner e) = 1" "active_segment_id (wal (inner e)) = 1"
    using engine_open_empty [of "x_crc ext" "r_now env"] by (auto simp: new_state_def)
  have "refines (x_crc ext) (r_now env) (set_on_task_ready e) spec_init"
    using engine_init_sim [of "x_crc ext" "(r_now env, e)"] e(1) refines_clear(3) by (simp add: engine_init_def)
  moreover have "has_room (set_on_task_ready e)" "next_id (inner (set_on_task_ready e)) \<noteq> - 1"
    using e(2,3) by (simp_all add: set_on_task_ready_def)
  ultimately show ?thesis using assms Inr e(1) by (auto simp: get_or_create_queue_def Let_def)
qed

lemma with_sync_engine: "with_sync env sync (r, e) = (fst (with_sync env sync (r, e)), e)" "isl r \<Longrightarrow> fst (with_sync env sync (r, e)) = r"
  by (cases r; simp add: with_sync_cases)+

lemma push_open:
  assumes "hm_get (queues st) name = Some ctx" "refines (x_crc ext) (r_now env) (ctx_engine ctx) sp"
    and "b64_decode ext (b64_encode ext PAYLOAD) = Inr PAYLOAD" "queue_room name st" "ids_left name st" "io_clean (r_io env)"
    and "push_handler ext env name sync (b64_encode ext PAYLOAD) 1 st = (res, st')"
    and "effect = http_success (fst (push_handler ext env name False (b64_encode ext PAYLOAD) 1 st))"
  shows "\<exists>ctx'. hm_get (queues st') name = Some ctx' \<and> (http_success res \<longrightarrow> effect) \<and>
    (if effect then \<exists>k. s_payload sp k = None \<and> refines (x_crc ext) (r_now env) (ctx_engine ctx') (spec_push k 1 PAYLOAD sp)
     else refines (x_crc ext) (r_now env) (ctx_engine ctx') sp)"
proof -
  let ?f = "\<lambda>sync e. with_sync env sync (push (x_crc ext) (r_io env) PAYLOAD 1 e)"
  obtain r e where p: "push (x_crc ext) (r_io env) PAYLOAD 1 (ctx_engine ctx) = (r, e)" by fastforce
  have "has_room (ctx_engine ctx)" "next_id (inner (ctx_engine ctx)) \<noteq> - 1" using assms(1,4,5) by (simp_all add: queue_room_def ids_left_def)
  note out = push_outcome [OF assms(2) PAYLOAD_fits this assms(6) p]
  have h: "\<exists>ctx'. hm_get (queues (snd (push_handler ext env name s (b64_encode ext PAYLOAD) 1 st))) name = Some ctx' \<and> ctx_engine ctx' = e \<and>
      (http_success (fst (push_handler ext env name s (b64_encode ext PAYLOAD) 1 st)) \<longleftrightarrow> \<not> isl (fst (with_sync env s (r, e))))" for s
  proof -
    have f: "?f s (ctx_engine ctx) = (fst (with_sync env s (r, e)), e)" using p with_sync_engine(1) [of env s r e] by simp
    obtain r1 st1 where on: "on_engine ext name (?f s) st = (r1, st1)" by fastforce
    note st1 = on_engine_rel [where f = "?f s", OF assms(1) f on]
    show ?thesis unfolding push_handler_def open_queue [OF assms(1)] assms(3)
      using on st1 by (cases "fst (with_sync env s (r, e))") (auto simp: error_not_success success_simps notify_one_open)
  qed
  have "effect \<longleftrightarrow> \<not> isl r" using h [of False] assms(8) by (cases r) (auto simp: with_sync_cases)
  then show ?thesis using h [of sync] out assms(7) with_sync_engine(2) [of r env sync e] by (cases r) auto
qed

lemma http_push_ok:
  assumes "http_rel ext name opened v sp" "http_push ext name sync v r v'"
  shows "r \<in> {Success (), Unseen} \<Longrightarrow> \<exists>k. s_payload sp k = None \<and> http_rel ext name opened v' (spec_push k 1 PAYLOAD sp)"
    "r = Failure \<Longrightarrow> http_rel ext name opened v' sp"
proof -
  have "(r \<in> {Success (), Unseen} \<longrightarrow> (\<exists>k. s_payload sp k = None \<and> http_rel ext name opened v' (spec_push k 1 PAYLOAD sp))) \<and>
    (r = Failure \<longrightarrow> http_rel ext name opened v' sp)"
    using assms(2)
  proof cases
    case (hp_processed t env st res st' ts delivered)
    define effect where "effect = http_success (fst (push_handler ext env name False (b64_encode ext PAYLOAD) 1 st))"
    have base: "b64_decode ext (b64_encode ext PAYLOAD) = Inr PAYLOAD" "distinct (map fst ts)" using assms(1) by (auto simp: hp_processed(1) http_rel_def)
    have ok: ?thesis if "\<exists>ctx'. hm_get (queues st') name = Some ctx' \<and> (http_success res \<longrightarrow> effect) \<and>
      (if effect then \<exists>k. s_payload sp k = None \<and> refines (x_crc ext) (r_now env) (ctx_engine ctx') (spec_push k 1 PAYLOAD sp)
       else refines (x_crc ext) (r_now env) (ctx_engine ctx') sp)"
    proof -
      have "(if http_success res then Some () else None) \<noteq> None \<longrightarrow> effect" using that by auto
      note s = seen_as_cases [OF this, of delivered]
      show ?thesis using that base s(1) [where v = "()"] s(2) unfolding hp_processed(2,3) effect_def [symmetric] by (cases effect) (auto simp: http_rel_open)
    qed
    show ?thesis
    proof (cases "hm_get (queues st) name")
      case (Some ctx)
      then have "refines (x_crc ext) (r_now env) (ctx_engine ctx) sp"
        using assms(1) refines_mono hp_processed(4) by (auto simp: hp_processed(1) http_rel_open)
      from push_open [OF Some this base(1) hp_processed(6,7,5,8) effect_def] show ?thesis by (rule ok)
    next
      case None
      then have new: "\<not> hm_contains (disk st) (path_join (data_dir st) name)" "sp = spec_init"
        using assms(1) by (auto simp: hp_processed(1) http_rel_def)
      obtain q st1 where q: "get_or_create_queue ext env name st = (q, st1)" by fastforce
      consider (failed) err where "q = Inl err" "st1 = st"
        | (opened) ctx where "q = Inr ()" "hm_get (queues st1) name = Some ctx" "refines (x_crc ext) (r_now env) (ctx_engine ctx) sp" "queue_room name st1" "ids_left name st1"
        using create_queue [OF None new(1) q] by (auto simp: new(2) queue_room_def ids_left_def)
      then show ?thesis
      proof cases
        case failed
        then have "res = Inl (api_error ext err)" "st' = st" "\<not> effect"
          using hp_processed(8) q error_not_success by (auto simp: push_handler_def effect_def)
        then have "r = Failure" "st' = st" unfolding hp_processed(2) effect_def [symmetric] by (simp_all add: error_not_success seen_as_def)
        then show ?thesis using assms(1) None by (auto simp: hp_processed(1,3) http_rel_def)
      next
        case opened
        have same: "push_handler ext env name s (b64_encode ext PAYLOAD) 1 st = push_handler ext env name s (b64_encode ext PAYLOAD) 1 st1" for s
          using q opened(1,2) by (simp add: push_handler_def)
        from push_open [OF opened(2,3) base(1) opened(4,5) hp_processed(5) hp_processed(8) [unfolded same] effect_def [unfolded same]]
        show ?thesis by (rule ok)
      qed
    qed
  qed (use assms(1) in simp)
  then show "r \<in> {Success (), Unseen} \<Longrightarrow> \<exists>k. s_payload sp k = None \<and> http_rel ext name opened v' (spec_push k 1 PAYLOAD sp)"
    "r = Failure \<Longrightarrow> http_rel ext name opened v' sp" by blast+
qed

subsection \<open>Popping and acknowledging\<close>

lemma pop_no_wait:
  assumes "\<not> cancelled st" "hm_get (queues st) name = Some ctx" "pop_attempt ext env name sync c 10 st = (r, st')"
  shows "pop_handler ext env name sync c 10 0 instant ws st =
    (Some (case r of Inl err \<Rightarrow> Inl err | Inr None \<Rightarrow> Inr (response 204 NoBody) | Inr (Some resp) \<Rightarrow> Inr resp), st')"
  using assms(1,3) by (auto simp: pop_handler_def open_queue [OF assms(2)] pop_loop.simps [of _ _ _ _ _ _ _ _ _ _ st] split: sum.split option.split)

lemma pop_open:
  assumes "hm_get (queues st) name = Some ctx" "refines (x_crc ext) (r_now env) (ctx_engine ctx) sp"
    and "queue_room name st" "r_io env = AppendOk"
    and "pop_handler ext env name sync c 10 0 instant ws st = (Some res, st')"
    and "effect = pred_option (\<lambda>r. popped_id r \<noteq> None) (fst (pop_handler ext env name False c 10 0 instant ws st))"
  shows "\<exists>ctx'. hm_get (queues st') name = Some ctx' \<and> (popped_id res \<noteq> None \<longrightarrow> effect) \<and>
    (if effect then \<exists>t ts ex. s_ready sp = t # ts \<and> refines (x_crc ext) (r_now env) (ctx_engine ctx') (spec_pop c ex sp)
     else refines (x_crc ext) (r_now env) (ctx_engine ctx') sp)"
proof (cases "cancelled st")
  case True
  then show ?thesis using assms(1,2,5,6) by (auto simp: pop_handler_def success_simps shutting_down_def)
next
  case False
  have room: "has_room (ctx_engine ctx)" using assms(1,3) by (simp add: queue_room_def)
  let ?f = "\<lambda>sync e. case pop_and_lease (x_crc ext) (r_io env) (r_now env) c 10 e of
      (Inr (Some t), e) \<Rightarrow> with_sync env sync (Inr (Some t), e) | r \<Rightarrow> r"
  have h: "\<exists>r ctx' st1. pop_handler ext env name s c 10 0 instant ws st = (Some r, st1) \<and>
      hm_get (queues st1) name = Some ctx' \<and> ctx_engine ctx' = e \<and>
      (popped_id r \<noteq> None \<longleftrightarrow> (\<exists>t. r1 = Inr (Some t)))" if f: "?f s (ctx_engine ctx) = (r1, e)" for s r1 e
  proof -
    obtain a st1 where on: "on_engine ext name (?f s) st = (a, st1)" by fastforce
    note st1 = on_engine_rel [where f = "?f s", OF assms(1) f on]
    obtain b where att: "pop_attempt ext env name s c 10 st = (b, st1)"
        "b = (case r1 of Inl err \<Rightarrow> Inl (api_error ext err) | Inr None \<Rightarrow> Inr None
          | Inr (Some (record, n)) \<Rightarrow> Inr (Some (response 200 (PopBody (rec_id record) (b64_encode ext (rec_payload record)) (rec_priority record) n))))"
      using on st1(2) by (cases r1) (auto simp: pop_attempt_def split: option.split)
    show ?thesis using pop_no_wait [OF False assms(1) att(1), of instant ws] st1(1) att(2)
      by (cases r1) (auto simp: success_simps split: option.split)
  qed
  show ?thesis
  proof (cases "s_ready sp")
    case Nil
    then have "?f s (ctx_engine ctx) = (Inr None, ctx_engine ctx)" for s using pop_empty_sim [OF assms(2) Nil] by simp
    from h [OF this, of sync] h [OF this, of False] show ?thesis using assms(2,5,6) by auto
  next
    case (Cons t ts)
    obtain e p where e: "pop_and_lease (x_crc ext) AppendOk (r_now env) c 10 (ctx_engine ctx) =
        (Inr (Some (new_record (task_id t) Created (task_priority t) p, task_retries t)), e)"
        "refines (x_crc ext) (r_now env) e (spec_pop c (r_now env + 10) sp)"
      using pop_sim [OF assms(2) room Cons, of c 10] by auto
    let ?r = "(Inr (Some (new_record (task_id t) Created (task_priority t) p, task_retries t))) :: (Record \<times> u8) option result"
    have f: "?f s (ctx_engine ctx) = (fst (with_sync env s (?r, e)), e)" for s
      using e(1) assms(4) with_sync_engine(1) [of env s ?r e] by simp
    have effect: "effect" using h [OF f [of False]] assms(6) by (auto simp: with_sync_cases)
    from h [OF f [of sync]] assms(5) obtain ctx' where "hm_get (queues st') name = Some ctx'" "ctx_engine ctx' = e" by auto
    then show ?thesis using e(2) Cons effect by auto
  qed
qed

lemma http_pop_ok:
  assumes "http_rel ext name opened v sp" "http_pop ext name sync c v r v'"
  shows "r \<in> {Success k, Unseen} \<Longrightarrow> \<exists>t ts ex. s_ready sp = t # ts \<and> http_rel ext name opened v' (spec_pop c ex sp)"
    "r = Failure \<Longrightarrow> http_rel ext name opened v' sp"
proof -
  have "(r \<in> {Success k, Unseen} \<longrightarrow> (\<exists>t ts ex. s_ready sp = t # ts \<and> http_rel ext name opened v' (spec_pop c ex sp))) \<and>
    (r = Failure \<longrightarrow> http_rel ext name opened v' sp)"
    using assms(2)
  proof cases
    case (hl_processed t env st instant ws res st' ts delivered)
    define effect where "effect = pred_option (\<lambda>r. popped_id r \<noteq> None) (fst (pop_handler ext env name False c 10 0 instant ws st))"
    show ?thesis
    proof (cases "hm_get (queues st) name")
      case None
      then have new: "\<not> hm_contains (disk st) (path_join (data_dir st) name)" using assms(1) by (auto simp: hl_processed(1) http_rel_def)
      have "popped_id res = None" "st' = st" "\<not> effect"
        using hl_processed(7) None new
        by (auto simp: effect_def pop_handler_def get_existing_queue_def shutting_down_def success_simps split: if_splits)
      then have "r = Failure" "st' = st" unfolding hl_processed(2) effect_def [symmetric] by (simp_all add: seen_as_def)
      then show ?thesis using assms(1) None by (simp add: hl_processed(1,3) http_rel_def)
    next
      case (Some ctx)
      then have "refines (x_crc ext) (r_now env) (ctx_engine ctx) sp"
        using assms(1) refines_mono hl_processed(4) by (auto simp: hl_processed(1) http_rel_open)
      note p = pop_open [OF Some this hl_processed(6,5,7) effect_def]
      then have "popped_id res \<noteq> None \<longrightarrow> effect" by blast
      note s = seen_as_cases [OF this, of delivered]
      show ?thesis using p assms(1) s(1) [where v = k] s(2) unfolding hl_processed(1-3) effect_def [symmetric]
        by (cases effect) (auto simp: http_rel_open Some)
    qed
  qed (use assms(1) in simp)
  then show "r \<in> {Success k, Unseen} \<Longrightarrow> \<exists>t ts ex. s_ready sp = t # ts \<and> http_rel ext name opened v' (spec_pop c ex sp)"
    "r = Failure \<Longrightarrow> http_rel ext name opened v' sp" by blast+
qed

lemma ack_open:
  assumes "hm_get (queues st) name = Some ctx" "refines (x_crc ext) (r_now env) (ctx_engine ctx) sp"
    and "queue_room name st" "io_clean (r_io env)"
    and "ack_handler ext env name sync k c st = (res, st')" "effect = http_success (fst (ack_handler ext env name False k c st))"
  shows "\<exists>ctx'. hm_get (queues st') name = Some ctx' \<and> (http_success res \<longrightarrow> effect) \<and>
    (if effect then \<exists>li. s_leased sp k = Some li \<and> consumer_id li = c \<and> refines (x_crc ext) (r_now env) (ctx_engine ctx') (spec_finish k sp)
     else refines (x_crc ext) (r_now env) (ctx_engine ctx') sp)"
proof -
  let ?f = "\<lambda>sync e. with_sync env sync (ack (x_crc ext) (r_io env) k c e)"
  obtain r e where a: "ack (x_crc ext) (r_io env) k c (ctx_engine ctx) = (r, e)" by fastforce
  have "has_room (ctx_engine ctx)" using assms(1,3) by (simp add: queue_room_def)
  note out = ack_outcome [OF assms(2) this assms(4) a]
  have h: "\<exists>ctx'. hm_get (queues (snd (ack_handler ext env name s k c st))) name = Some ctx' \<and> ctx_engine ctx' = e \<and>
      (http_success (fst (ack_handler ext env name s k c st)) \<longleftrightarrow> \<not> isl (fst (with_sync env s (r, e))))" for s
  proof -
    have f: "?f s (ctx_engine ctx) = (fst (with_sync env s (r, e)), e)" using a with_sync_engine(1) [of env s r e] by simp
    obtain r1 st1 where on: "on_engine ext name (?f s) st = (r1, st1)" by fastforce
    note st1 = on_engine_rel [where f = "?f s", OF assms(1) f on]
    show ?thesis unfolding ack_handler_def open_queue [OF assms(1)]
      using on st1 by (cases "fst (with_sync env s (r, e))") (auto simp: error_not_success success_simps)
  qed
  have "effect \<longleftrightarrow> \<not> isl r" using h [of False] assms(6) by (cases r) (auto simp: with_sync_cases)
  then show ?thesis using h [of sync] out assms(5) with_sync_engine(2) [of r env sync e] by (cases r) auto
qed

lemma http_ack_ok:
  assumes "http_rel ext name opened v sp" "http_ack ext name sync k c v r v'"
  shows "r \<in> {Success (), Unseen} \<Longrightarrow> \<exists>li. s_leased sp k = Some li \<and> consumer_id li = c \<and> http_rel ext name opened v' (spec_finish k sp)"
    "r = Failure \<Longrightarrow> http_rel ext name opened v' sp"
proof -
  have "(r \<in> {Success (), Unseen} \<longrightarrow> (\<exists>li. s_leased sp k = Some li \<and> consumer_id li = c \<and> http_rel ext name opened v' (spec_finish k sp))) \<and>
    (r = Failure \<longrightarrow> http_rel ext name opened v' sp)"
    using assms(2)
  proof cases
    case (ha_processed t env st res st' ts delivered)
    define effect where "effect = http_success (fst (ack_handler ext env name False k c st))"
    show ?thesis
    proof (cases "hm_get (queues st) name")
      case None
      then have "\<not> hm_contains (disk st) (path_join (data_dir st) name)" using assms(1) by (auto simp: ha_processed(1) http_rel_def)
      then have "\<not> http_success res" "st' = st" "\<not> effect"
        using ha_processed(7) None by (auto simp: effect_def ack_handler_def get_existing_queue_def error_not_success)
      then have "r = Failure" "st' = st" unfolding ha_processed(2) effect_def [symmetric] by (simp_all add: seen_as_def)
      then show ?thesis using assms(1) None by (simp add: ha_processed(1,3) http_rel_def)
    next
      case (Some ctx)
      then have "refines (x_crc ext) (r_now env) (ctx_engine ctx) sp"
        using assms(1) refines_mono ha_processed(4) by (auto simp: ha_processed(1) http_rel_open)
      note a = ack_open [OF Some this ha_processed(6,5,7) effect_def]
      then have "(if http_success res then Some () else None) \<noteq> None \<longrightarrow> effect" by auto
      note s = seen_as_cases [OF this, of delivered]
      show ?thesis using a assms(1) s(1) [where v = "()"] s(2) unfolding ha_processed(1-3) effect_def [symmetric]
        by (cases effect) (auto simp: http_rel_open Some)
    qed
  qed (use assms(1) in simp)
  then show "r \<in> {Success (), Unseen} \<Longrightarrow> \<exists>li. s_leased sp k = Some li \<and> consumer_id li = c \<and> http_rel ext name opened v' (spec_finish k sp)"
    "r = Failure \<Longrightarrow> http_rel ext name opened v' sp" by blast+
qed

lemma http_tick_ok:
  assumes "http_rel ext name opened v sp" "http_tick ext name x d g v v'"
  shows "g = 0 \<Longrightarrow> \<exists>sp'. spec_expired x d sp sp' \<and> http_rel ext name opened v' sp'"
    and "http_idle v \<Longrightarrow> s_leased sp = Map.empty \<Longrightarrow> g = 0 \<and> http_idle v'"
proof -
  obtain t now st ctx ts ts' e' res st' where v: "v = (t, st, ts)" "v' = (now, st', ts')" "t \<le> now" "hm_get (queues st) name = Some ctx"
      "worker_section (x_crc ext) now x d g ts (ctx_engine ctx) ts' e'" "on_engine ext name (\<lambda>_. (Inr (), e')) st = (res, st')"
    using assms(2) by cases
  have ref: "refines (x_crc ext) now (ctx_engine ctx) sp" "distinct (map fst ts)" "b64_decode ext (b64_encode ext PAYLOAD) = Inr PAYLOAD"
    using assms(1) refines_mono v(3) by (auto simp: v(1) http_rel_open [OF v(4)])
  obtain ctx' where ctx': "hm_get (queues st') name = Some ctx'" "ctx_engine ctx' = e'"
    using on_engine_rel(1) [OF v(4) refl v(6)] by auto
  show "g = 0 \<Longrightarrow> \<exists>sp'. spec_expired x d sp sp' \<and> http_rel ext name opened v' sp'"
    using worker_section_sim [OF v(5) ref(1,2)] ref(3) by (auto simp: v(2) http_rel_open [OF ctx'(1)] ctx'(2))
  show "g = 0 \<and> http_idle v'" if "http_idle v" "s_leased sp = Map.empty"
    using worker_section_idle [of "x_crc ext" now x d g "ctx_engine ctx" ts' e'] v(5) ref(1) that by (simp add: v(1,2) http_idle_def)
qed

interpretation hs: bench_service "http_rel ext name opened" http_idle "http_push ext name sync" "http_pop ext name sync"
  "http_ack ext name sync" "http_tick ext name" for ext name opened sync
proof unfold_locales
  fix v sp v' c k r r' x d g
  let ?rel = "http_rel ext name opened"
  show "\<exists>k pr p. s_payload sp k = None \<and> ?rel v' (spec_push k pr p sp)"
    if "?rel v sp" "http_push ext name sync v r v'" "r \<in> {Success (), Unseen}" using http_push_ok(1) [OF that] by blast
  show "?rel v' sp" if "?rel v sp" "http_push ext name sync v Failure v'" using http_push_ok(2) [OF that] by simp
  show "http_idle v'" if "http_push ext name sync v r v'" "http_idle v" using that by cases (simp_all add: http_idle_def)
  show "\<exists>t ts ex. s_ready sp = t # ts \<and> ?rel v' (spec_pop c ex sp)"
    if "?rel v sp" "http_pop ext name sync c v r' v'" "r' \<in> {Success k, Unseen}" using http_pop_ok(1) [OF that] .
  show "?rel v' sp" if "?rel v sp" "http_pop ext name sync c v Failure v'" using http_pop_ok(2) [OF that] by simp
  show "\<exists>li. s_leased sp k = Some li \<and> consumer_id li = c \<and> ?rel v' (spec_finish k sp)"
    if "?rel v sp" "http_ack ext name sync k c v r v'" "r \<in> {Success (), Unseen}" using http_ack_ok(1) [OF that] .
  show "?rel v' sp" if "?rel v sp" "http_ack ext name sync k c v Failure v'" using http_ack_ok(2) [OF that] by simp
  show "\<exists>sp'. spec_expired x d sp sp' \<and> ?rel v' sp'" if "?rel v sp" "http_tick ext name x d 0 v v'" using http_tick_ok(1) [OF that] by simp
  show "g = 0 \<and> http_idle v'" if "?rel v sp" "http_idle v" "s_leased sp = Map.empty" "http_tick ext name x d g v v'"
    using http_tick_ok(2) [OF that(1,4,2,3)] .
qed

subsection \<open>The status\<close>

lemma status_rel:
  assumes "http_rel ext name opened (t, st, ts) sp" "t \<le> r_now env" "status_handler ext env name st = (res, st')"
  shows "http_rel ext name opened (r_now env, st', ts) sp" "status_ready res = of_nat (length (s_ready sp))"
    "hm_get (queues st) name = Some ctx \<Longrightarrow> status_active res = of_nat (card (dom (s_leased sp)))"
    "hm_get (queues st') name = None \<longleftrightarrow> hm_get (queues st) name = None"
proof -
  have "http_rel ext name opened (r_now env, st', ts) sp \<and> status_ready res = of_nat (length (s_ready sp)) \<and>
    (hm_get (queues st) name \<noteq> None \<longrightarrow> status_active res = of_nat (card (dom (s_leased sp)))) \<and>
    (hm_get (queues st') name = None \<longleftrightarrow> hm_get (queues st) name = None)"
  proof (cases "hm_get (queues st) name")
    case None
    then have "\<not> hm_contains (disk st) (path_join (data_dir st) name)" "sp = spec_init" using assms(1) by (auto simp: http_rel_def)
    moreover from this None have "st' = st" "status_ready res = 0"
      using assms(3) by (auto simp: status_handler_def get_existing_queue_def status_ready_def answer_def into_response_def response_def)
    ultimately show ?thesis using None assms(1) by (auto simp: http_rel_def spec_init_def)
  next
    case (Some ctx)
    then have ref: "refines (x_crc ext) (r_now env) (ctx_engine ctx) sp"
      using assms(1) refines_mono [OF _ assms(2)] by (auto simp: http_rel_open)
    obtain r1 st1 where on: "on_engine ext name (\<lambda>e. (Inr (status e), e)) st = (r1, st1)" by fastforce
    note st1 = on_engine_rel [where f = "\<lambda>e. (Inr (status e), e)", OF Some refl on]
    have "res = Inr (response 200 (StatusBody (length (s_ready sp)) (card (dom (s_leased sp)))))" "st' = st1"
      using assms(3) on st1(2) status_counts [OF ref] by (simp_all add: status_handler_def open_queue [OF Some])
    then show ?thesis using st1(1) ref assms(1) Some
      by (auto simp: http_rel_open status_ready_def status_active_def answer_def response_def)
  qed
  then show "http_rel ext name opened (r_now env, st', ts) sp" "status_ready res = of_nat (length (s_ready sp))"
    "hm_get (queues st) name = Some ctx \<Longrightarrow> status_active res = of_nat (card (dom (s_leased sp)))"
    "hm_get (queues st') name = None \<longleftrightarrow> hm_get (queues st) name = None" by auto
qed

section \<open>A first run\<close>

text \<open>One thread with one task on a new queue of a new server.\<close>

definition demo_server :: "Engine \<Rightarrow> bool \<Rightarrow> AppState" where
  "demo_server e woken = (app_new ''d'' default_config [(''d/q'', fs_empty)])\<lparr>queues := [(''q'', \<lparr>ctx_engine = e, ctx_notify = woken\<rparr>)]\<rparr>"

lemma demo_server:
  "hm_get (queues (demo_server e b)) ''q'' = Some \<lparr>ctx_engine = e, ctx_notify = b\<rparr>" "\<not> cancelled (demo_server e b)"
  "(demo_server e b)\<lparr>queues := hm_insert ''q'' \<lparr>ctx_engine = e', ctx_notify = b'\<rparr> (queues (demo_server e b))\<rparr> = demo_server e' b'"
  by (simp_all add: demo_server_def app_new_def hm_get_def hm_insert_def)

lemma demo_engine_ops:
  "\<exists>e1 e2 e3 p. push byte_sum AppendOk PAYLOAD 1 (set_on_task_ready demo_new) = (Inr 1, e1) \<and> has_room e1 \<and>
     pop_and_lease byte_sum AppendOk 0 0 10 e1 = (Inr (Some (new_record 1 Created 1 p, 0)), e2) \<and> has_room e2 \<and>
     ack byte_sum AppendOk 1 0 e2 = (Inr (), e3)"
proof -
  let ?e = "set_on_task_ready demo_new"
  have e: "refines byte_sum 0 ?e spec_init" "has_room ?e" "next_id (inner ?e) = 1" "segments ?e = 1"
    using refines_clear(3) [OF demo_new(4)] by (simp_all add: set_on_task_ready_def demo_new(2,3))
  obtain e1 where e1: "push byte_sum AppendOk PAYLOAD 1 ?e = (Inr 1, e1)" "refines byte_sum 0 e1 (spec_push 1 1 PAYLOAD spec_init)"
    using push_sim [OF e(1) PAYLOAD_fits e(2), of 1] e(3) by auto
  have s1: "segments e1 \<le> 2" using push_active [of byte_sum AppendOk PAYLOAD 1 ?e] e(4) by (simp add: e1(1))
  then have r1: "has_room e1" using room_for_has_room [where n = 0 and e = e1] by simp
  have ready: "s_ready (spec_push 1 1 PAYLOAD spec_init) = [task_ref 1 1 0]" by (simp add: spec_push_def spec_init_def)
  obtain e2 p where e2: "pop_and_lease byte_sum AppendOk 0 0 10 e1 = (Inr (Some (new_record 1 Created 1 p, 0)), e2)"
      "refines byte_sum 0 e2 (spec_pop 0 10 (spec_push 1 1 PAYLOAD spec_init))"
    using pop_sim [OF e1(2) r1 ready, of 0 10] by auto
  have "segments e2 \<le> 3" using pop_active [of byte_sum AppendOk 0 0 10 e1] s1 by (simp add: e2(1))
  then have r2: "has_room e2" using room_for_has_room [where n = 0 and e = e2] by simp
  have "s_leased (spec_pop 0 10 (spec_push 1 1 PAYLOAD spec_init)) 1 = Some (lease_info 0 10 0 1)" by (simp add: spec_pop_def ready)
  then obtain e3 where "ack byte_sum AppendOk 1 0 e2 = (Inr (), e3)"
    using ack_sim [OF e2(2) r2, of 1 _ 0] by (auto simp: lease_info_def)
  then show ?thesis using e1(1) r1 e2(1) r2 by blast
qed

text \<open>The three requests.\<close>

lemma demo_push_request:
  assumes "push byte_sum AppendOk PAYLOAD 1 (set_on_task_ready demo_new) = (Inr 1, e1)"
  shows "http_push demo_ext ''q'' True (0, app_new ''d'' default_config [], []) (Success ()) (0, demo_server e1 True, [])"
proof -
  let ?e = "set_on_task_ready demo_new" and ?env = "demo_env 0" and ?st = "app_new ''d'' default_config []"
  have "get_or_create_queue demo_ext ?env ''q'' ?st = (Inr (), demo_server ?e False)"
    using demo_new(1)
    by (simp add: get_or_create_queue_def app_new_def demo_server_def demo_env_def demo_ext_def Let_def hm_get_def hm_insert_def path_join_def hm_contains_def)
  then have "push_handler demo_ext ?env ''q'' True (b64_encode demo_ext PAYLOAD) 1 ?st =
      push_handler demo_ext ?env ''q'' True (b64_encode demo_ext PAYLOAD) 1 (demo_server ?e False)"
    by (simp add: push_handler_def open_queue [OF demo_server(1)])
  also have "\<dots> = (Inr (response 201 (PushBody 1)), demo_server e1 True)"
    using push_handler_open [OF demo_server(1), of demo_ext "b64_encode demo_ext PAYLOAD" PAYLOAD ?env 1 ?e False 1 e1 True] demo_codec assms
    by (simp add: demo_env demo_server(3))
  finally show ?thesis
    using hp_processed [where t = 0 and env = ?env and sync = True and name = "''q''" and st = ?st and ext = demo_ext
        and res = "Inr (response 201 (PushBody 1))" and st' = "demo_server e1 True" and ts = "[]" and delivered = True]
    by (simp add: demo_env io_clean_def success_simps queue_room_def ids_left_def app_new_def hm_get_def)
qed

lemma demo_pop_request:
  assumes "has_room e1" "pop_and_lease byte_sum AppendOk 0 0 10 e1 = (Inr (Some (new_record 1 Created 1 p, 0)), e2)"
  shows "\<exists>b2. http_pop demo_ext ''q'' True (of_nat 0) (0, demo_server e1 True, []) (Success 1) (0, demo_server e2 b2, [])"
proof -
  let ?env = "demo_env 0" and ?resp = "response 200 (PopBody 1 (b64_encode demo_ext p) 1 0)"
  let ?f = "\<lambda>e. case pop_and_lease byte_sum AppendOk 0 0 10 e of (Inr (Some t), e) \<Rightarrow> with_sync ?env True (Inr (Some t), e) | r \<Rightarrow> r"
  obtain b2 where "on_engine demo_ext ''q'' ?f (demo_server e1 True) = (Inr (Some (new_record 1 Created 1 p, 0)), demo_server e2 b2)"
    using on_engine_open [where f = ?f, OF demo_server(1)] assms(2) by (simp add: with_sync_cases demo_env demo_server(3))
  then have "pop_attempt demo_ext ?env ''q'' True 0 10 (demo_server e1 True) = (Inr (Some ?resp), demo_server e2 b2)"
    by (simp add: pop_attempt_def demo_env)
  from pop_loop_head [OF demo_server(2) this]
  have "pop_handler demo_ext ?env ''q'' True 0 10 0 0 [] (demo_server e1 True) = (Some (Inr ?resp), demo_server e2 b2)"
    by (simp add: pop_handler_def open_queue [OF demo_server(1)] demo_server(2) Let_def)
  then have "http_pop demo_ext ''q'' True (of_nat 0) (0, demo_server e1 True, []) (Success 1) (0, demo_server e2 b2, [])"
    using hl_processed [where t = 0 and env = ?env and sync = True and name = "''q''" and st = "demo_server e1 True" and ext = demo_ext and c = 0
        and instant = 0 and ws = "[]" and res = "Inr ?resp" and st' = "demo_server e2 b2" and ts = "[]" and delivered = True] assms(1)
    by (simp add: demo_env success_simps queue_room_def demo_server(1))
  then show ?thesis by blast
qed

lemma demo_ack_request:
  assumes "has_room e2" "ack byte_sum AppendOk 1 0 e2 = (Inr (), e3)"
  shows "\<exists>b3. http_ack demo_ext ''q'' True 1 (of_nat 0) (0, demo_server e2 b2, []) (Success ()) (0, demo_server e3 b3, [])"
proof -
  let ?env = "demo_env 0" and ?g = "\<lambda>e. with_sync (demo_env 0) True (ack byte_sum AppendOk 1 0 e)"
  obtain b3 where "on_engine demo_ext ''q'' ?g (demo_server e2 b2) = (Inr (), demo_server e3 b3)"
    using on_engine_open [where f = ?g, OF demo_server(1)] assms(2) by (simp add: with_sync_cases demo_env demo_server(3))
  then have "ack_handler demo_ext ?env ''q'' True 1 0 (demo_server e2 b2) = (Inr (response 200 NoBody), demo_server e3 b3)"
    by (simp add: ack_handler_def open_queue [OF demo_server(1)] demo_env)
  then have "http_ack demo_ext ''q'' True 1 (of_nat 0) (0, demo_server e2 b2, []) (Success ()) (0, demo_server e3 b3, [])"
    using ha_processed [where t = 0 and env = ?env and sync = True and name = "''q''" and st = "demo_server e2 b2" and ext = demo_ext and k = 1
        and c = 0 and res = "Inr (response 200 NoBody)" and st' = "demo_server e3 b3" and ts = "[]" and delivered = True] assms(1)
    by (simp add: demo_env io_clean_def success_simps queue_room_def demo_server(1))
  then show ?thesis by blast
qed

lemma demo_requests:
  "\<exists>e1 e2 e3 b2 b3. http_push demo_ext ''q'' True (0, app_new ''d'' default_config [], []) (Success ()) (0, demo_server e1 True, []) \<and>
     http_pop demo_ext ''q'' True (of_nat 0) (0, demo_server e1 True, []) (Success 1) (0, demo_server e2 b2, []) \<and>
     http_ack demo_ext ''q'' True 1 (of_nat 0) (0, demo_server e2 b2, []) (Success ()) (0, demo_server e3 b3, [])"
  using demo_engine_ops demo_push_request demo_pop_request demo_ack_request by meson

lemma demo_status: "status_handler demo_ext (demo_env 0) ''q'' (demo_server e b) = (Inr (response 200 (StatusBody (fst (status e)) (snd (status e)))), demo_server e b)"
proof -
  have "on_engine demo_ext ''q'' (\<lambda>e. (Inr (status e), e)) (demo_server e b) = (Inr (status e), demo_server e b)"
    using on_engine_open [where f = "\<lambda>e. (Inr (status e), e)", OF demo_server(1) refl, of demo_ext] by (simp add: demo_server(3))
  then show ?thesis by (simp add: status_handler_def open_queue [OF demo_server(1)] split: prod.split)
qed

lemma http_small_run: "\<exists>r1 r2. nesso_http_run demo_ext ''q'' True 1 1 0 no_history r1 r2 \<and> dispatched r1 = 1 \<and> dispatched r2 = 1"
proof -
  let ?st = "app_new ''d'' default_config []"
  obtain e1 e2 e3 b2 b3 where r: "http_push demo_ext ''q'' True (0, ?st, []) (Success ()) (0, demo_server e1 True, [])"
     "http_pop demo_ext ''q'' True (of_nat 0) (0, demo_server e1 True, []) (Success 1) (0, demo_server e2 b2, [])"
     "http_ack demo_ext ''q'' True 1 (of_nat 0) (0, demo_server e2 b2, []) (Success ()) (0, demo_server e3 b3, [])" using demo_requests by blast
  define a where "a = (phase_start 1 1 (0 :: u64, ?st, [] :: collected))\<lparr>ph_service := (0, demo_server e1 True, []),
    ph_threads := (ph_threads (phase_start 1 1 (0 :: u64, ?st, [] :: collected)))(0 := Next 0), ph_counter := 1\<rparr>"
  define b where "b = (phase_start 1 1 (0 :: u64, demo_server e1 True, [] :: collected))\<lparr>ph_service := (0, demo_server e3 b3, []),
    ph_threads := (ph_threads (phase_start 1 1 (0 :: u64, demo_server e1 True, [] :: collected)))(0 := Next 0), ph_counter := 1\<rparr>"
  have run1: "(push_phase_step (http_push demo_ext ''q'' True) (http_tick demo_ext ''q''))\<^sup>*\<^sup>* (phase_start 1 1 (0, ?st, [])) a"
    using push_iteration [of "phase_start 1 1 (0, ?st, [])" 0 0 "http_push demo_ext ''q'' True" "(0, demo_server e1 True, [])" "http_tick demo_ext ''q''"] r(1)
    by (simp add: a_def phase_start_def)
  have run2: "(pop_phase_step (http_pop demo_ext ''q'' True) (http_ack demo_ext ''q'' True) (http_tick demo_ext ''q''))\<^sup>*\<^sup>* (phase_start 1 1 (0, demo_server e1 True, [])) b"
    using pop_iteration [of "phase_start 1 1 (0, demo_server e1 True, [])" 0 0 "http_pop demo_ext ''q'' True" 1 "(0, demo_server e2 b2, [])" "http_ack demo_ext ''q'' True"
        "(0, demo_server e3 b3, [])" "http_tick demo_ext ''q''"] r(2,3)
    by (simp add: b_def phase_start_def)
  have joined: "all_joined 1 a" "all_joined 1 b" by (simp_all add: all_joined_def a_def b_def)
  have s: "ph_service a = (0, demo_server e1 True, [])" "ph_service b = (0, demo_server e3 b3, [])" "ph_counter a = 1" "ph_counter b = 1"
    "ph_history a = no_history" "ph_history b = no_history" by (simp_all add: a_def b_def phase_start)
  have new: "hm_get (queues ?st) ''q'' = None" "\<not> hm_contains (disk ?st) (path_join (data_dir ?st) ''q'')"
    by (simp_all add: app_new_def hm_get_def hm_contains_def)
  have now: "0 \<le> r_now (demo_env 0)" "r_now (demo_env 0) = 0" by (simp_all add: demo_env)
  from nesso_http_run [OF new run1 joined(1) s(1) now(1) demo_status, unfolded now(2), OF run2 joined(2) s(2) now(1) demo_status]
  show ?thesis by (fastforce simp: s push_result_def pop_result_def no_history_def)
qed

section \<open>Properties\<close>

text \<open>
  C26. The integrity checks of the HTTP benchmark, in every interleaving of its requests and of
  the locked sections of the expiration worker of the queue, whatever requests fail, whatever
  answers get lost and whatever \<open>sync\<close> fails (the server is done with a request before its
  client goes on, nobody else uses the queue, what a failed append wrote can be taken back, and
  the record of every lease is written). The first check succeeds exactly if
  every push that took effect was answered so. If the queue exists and no round of the worker
  processed a lease that had ended after it was collected, every pushed task is after the second
  phase ready, leased, acknowledged (and counted, or unseen by the client), or dead-lettered; and
  if every push was seen, the second check succeeds exactly if nothing was dead-lettered, every
  acknowledgement was seen and as many leases ran out as acknowledgements were refused or leases
  not seen, that is, if no lease is left.
\<close>

theorem nesso_http_integrity:
  assumes "nesso_http_run ext name sync t_count per_thread u h r1 r2" "t_count * per_thread < 2 ^ 64"
    and "b64_decode ext (b64_encode ext PAYLOAD) = Inr PAYLOAD"
  shows "(integrity_ok r1 \<longleftrightarrow> u = 0) \<and> unat (dispatched r1) + u \<le> t_count * per_thread \<and>
    (0 < unat (dispatched r1) + u \<and> h_stale h = 0 \<longrightarrow>
      h_expired h \<le> h_refused h + h_unseen_leases h \<and> h_dead h \<le> h_expired h \<and>
      unat (dispatched r2) + h_unseen_acks h + (unat (found_on_disk r2) + (h_refused h + h_unseen_leases h - h_expired h)) + h_dead h =
        unat (dispatched r1) + u \<and>
      (u = 0 \<longrightarrow> (integrity_ok r2 \<longleftrightarrow> h_dead h = 0 \<and> h_unseen_acks h = 0 \<and> h_refused h + h_unseen_leases h = h_expired h)))"
  using assms(1)
proof cases
  case (nesso_http_run st t0 s1 t1 st1 ts1 env1 status1 st2 s2 t3 st3 ts3 env2 status2 st4)
  have "http_rel ext name False (t0, st, []) spec_init" "http_idle (t0, st, [])"
    using nesso_http_run(5,6) assms(3) by (simp_all add: http_rel_def http_idle_def)
  from hs.push_phase_result [OF nesso_http_run(7,8) this counted_init(1)] obtain sp1 n where
    sp1: "http_rel ext name False (t1, st1, ts1) sp1" "counted_inv sp1" "s_leased sp1 = Map.empty" "ph_counter s1 = of_nat n"
      "n + u = length (s_ready sp1)" "length (s_ready sp1) \<le> t_count * per_thread"
    by (auto simp: spec_init_def nesso_http_run(1,9))
  let ?m = "length (s_ready sp1)"
  have m: "?m < 2 ^ 64" "n < 2 ^ 64" using sp1(5,6) assms(2) by simp_all
  note st = status_rel [OF sp1(1) nesso_http_run(10,11)]
  have r1: "r1 = push_result (of_nat n) (of_nat ?m)" using st(2) by (simp add: nesso_http_run(3) sp1(4))
  have d1: "unat (dispatched r1) = n" using m(2) by (simp add: r1 push_result_def unat_of_nat)
  have ok1: "integrity_ok r1 \<longleftrightarrow> u = 0" unfolding r1 push_result_def RunResult.simps u64_of_nat(3) [OF m] using sp1(5) by auto
  have "h_expired h \<le> h_refused h + h_unseen_leases h \<and> h_dead h \<le> h_expired h \<and>
      unat (dispatched r2) + h_unseen_acks h + (unat (found_on_disk r2) + (h_refused h + h_unseen_leases h - h_expired h)) + h_dead h = ?m \<and>
      (u = 0 \<longrightarrow> (integrity_ok r2 \<longleftrightarrow> h_dead h = 0 \<and> h_unseen_acks h = 0 \<and> h_refused h + h_unseen_leases h = h_expired h))"
    if "0 < n + u" "h_stale h = 0"
  proof -
    have "?m \<noteq> 0" using that(1) sp1(5) by simp
    then have "hm_get (queues st1) name \<noteq> None" using sp1(1) by (auto simp: http_rel_def spec_init_def split: option.splits)
    then have "hm_get (queues st2) name \<noteq> None" using st(4) by simp
    then have "http_rel ext name True (r_now env1, st2, ts1) sp1" using st(1) by (auto simp: http_rel_def)
    from hs.pop_phase_result [OF nesso_http_run(12,13) this sp1(2,3) nesso_http_run(2) that(2)] obtain sp3 p where
      sp3: "http_rel ext name True (t3, st3, ts3) sp3" "counted_inv sp3" "ph_counter s2 = of_nat p" "p + h_unseen_acks h + live sp3 + h_dead h = live sp1"
        "card (dom (s_leased sp3)) + h_expired h = h_refused h + h_unseen_leases h" "h_dead h \<le> h_expired h" by (auto simp: nesso_http_run(14))
    obtain ctx where ctx: "hm_get (queues st3) name = Some ctx" using sp3(1) by (auto simp: http_rel_def split: option.splits)
    note e = status_rel(2,3) [OF sp3(1) nesso_http_run(15,16)]
    let ?r = "length (s_ready sp3)" and ?a = "card (dom (s_leased sp3))"
    have acc: "p + (?r + ?a) + (h_dead h + h_unseen_acks h) = ?m"
      using sp3(4) counted_invD(4) [OF sp3(2)] counted_invD(4) [OF sp1(2)] sp1(3) by simp
    have r2: "r2 = pop_result (of_nat n) (of_nat p) (of_nat ?r) (of_nat ?a)" using e(1) e(2) [OF ctx] by (simp add: nesso_http_run(4) sp1(4) sp3(3))
    have "unat (dispatched r2) = p" "unat (found_on_disk r2) = ?r" using acc m(1) by (simp_all add: r2 pop_result_def unat_of_nat)
    moreover have "integrity_ok r2 \<longleftrightarrow> h_dead h + h_unseen_acks h = 0 \<and> ?a = 0" if "u = 0"
    proof -
      have "n = ?m" using sp1(5) that by simp
      then show ?thesis unfolding r2 using pop_result_ok [OF acc m(1)] by simp
    qed
    ultimately show ?thesis using acc sp3(5,6) by auto
  qed
  then show ?thesis unfolding d1 using ok1 sp1(5,6) by auto
qed

theorem nesso_http_integrity_witness:
  "\<exists>r1 r2. nesso_http_run demo_ext ''q'' True 1 1 0 no_history r1 r2 \<and> dispatched r1 = 1 \<and> dispatched r2 = 1 \<and> integrity_ok r1 \<and> integrity_ok r2"
proof -
  obtain r1 r2 where r: "nesso_http_run demo_ext ''q'' True 1 1 0 no_history r1 r2" "dispatched r1 = 1" "dispatched r2 = 1" using http_small_run by blast
  have "integrity_ok r1 \<and> integrity_ok r2" using nesso_http_integrity [OF r(1) _ demo_codec] r(2) by (simp add: no_history_def)
  then show ?thesis using r by blast
qed

end
