(* ===== verification/Unit_Tests.thy ===== *)
theory Unit_Tests
  imports Task_Queue Payload_Cache File_System
begin

text \<open>
  The unit tests of \<open>src/src/storage/priority_queue.rs\<close> and
  \<open>src/src/storage/payload_cache.rs\<close>, statement by statement on the model. Each test is a
  Boolean, false when an assertion fails or an \<open>unwrap\<close> panics; all of them hold.
\<close>

section \<open>Priority queue\<close>

text \<open>\<open>q.pop()\<close> with an assertion on its result.\<close>

definition pops_none :: "PriorityBucketQueue \<Rightarrow> bool" where
  "pops_none q = (case pbq_pop q of Inr (None, _) \<Rightarrow> True | _ \<Rightarrow> False)"

definition pop_unwrap :: "PriorityBucketQueue \<Rightarrow> (TaskRef \<times> PriorityBucketQueue) option" where
  "pop_unwrap q = (case pbq_pop q of Inr (Some t, q) \<Rightarrow> Some (t, q) | _ \<Rightarrow> None)"

text \<open>A loop of pops with an assertion on every task, and what follows it.\<close>

fun pops :: "(TaskRef \<Rightarrow> bool) list \<Rightarrow> (PriorityBucketQueue \<Rightarrow> bool) \<Rightarrow> PriorityBucketQueue \<Rightarrow> bool" where
  "pops [] k q = k q"
| "pops (a # as) k q = (case pop_unwrap q of None \<Rightarrow> False | Some (t, q) \<Rightarrow> a t \<and> pops as k q)"

definition test_empty_queue :: bool where
  "test_empty_queue = (let q = pbq_new in pbq_is_empty q \<and> pbq_len q = 0 \<and> pops_none q)"

definition test_fifo_same_priority :: bool where
  "test_fifo_same_priority =
     (let ids = map of_nat [1..<101];
          q = foldl (\<lambda>q i. pbq_push q (task_ref i 5 0)) pbq_new ids
      in pbq_len q = 100 \<and>
         pops (map (\<lambda>expected t. task_id t = expected \<and> task_priority t = 5) ids) pbq_is_empty q)"

definition test_priority_ordering :: bool where
  "test_priority_ordering =
     (let q = pbq_new;
          q = pbq_push q (task_ref 1 10 0);
          q = pbq_push q (task_ref 2 250 0);
          q = pbq_push q (task_ref 3 0 0);
          q = pbq_push q (task_ref 4 128 0);
          q = pbq_push q (task_ref 5 255 0);
          q = pbq_push q (task_ref 6 10 0)
      in pops (map (\<lambda>expected t. task_id t = expected) [5, 2, 4, 1, 6, 3]) pops_none q)"

definition test_all_word_boundary_priorities :: bool where
  "test_all_word_boundary_priorities =
     (let boundaries = [0, 63, 64, 127, 128, 191, 192, 255];
          q = foldl (\<lambda>q p. pbq_push q (task_ref (ucast p) p 0)) pbq_new boundaries;
          expected = rev (sort boundaries)
      in pops (map (\<lambda>p t. task_priority t = p \<and> task_id t = ucast p) expected) pbq_is_empty q)"

text \<open>A loop of pops sees the tasks in delivery order.\<close>

lemma pops_delivery:
  assumes "pbq_inv q" "length as \<le> length (delivery q)" "list_all2 (\<lambda>a t. a t) as (take (length as) (delivery q))"
    and "\<And>q'. pbq_inv q' \<Longrightarrow> delivery q' = drop (length as) (delivery q) \<Longrightarrow> k q'"
  shows "pops as k q"
  using assms
proof (induction as arbitrary: q)
  case (Cons a as)
  obtain t ts where ts: "delivery q = t # ts" using Cons.prems(2) by (cases "delivery q") auto
  then obtain q' where q': "pbq_pop q = Inr (Some t, q')" "pbq_inv q'" "delivery q' = ts"
    using bq.pop_Cons [OF Cons.prems(1)] by blast
  have "pops as k q'" by (rule Cons.IH) (use Cons.prems ts q' in auto)
  then show ?case using Cons.prems(3) ts q'(1) by (simp add: pop_unwrap_def)
qed simp

lemma pushed:
  "pbq_inv (foldl pbq_push pbq_new ts)" "delivery (foldl pbq_push pbq_new ts) = sort_key delivery_key ts"
  using bq.invar_push_all [OF bq.invar_empty] bq.list_push_all [OF bq.invar_empty, of "[]"] by (simp_all add: bq.list_empty)

lemma emptied: "pbq_inv q \<Longrightarrow> delivery q = [] \<Longrightarrow> pbq_is_empty q \<and> pbq_len q = 0 \<and> pops_none q"
  using bq.size_list [of q] bq.pop_Nil [of q] by (simp add: pbq_is_empty_def pbq_len_def pops_none_def)

lemma priority_queue_tests: "test_empty_queue" "test_fifo_same_priority" "test_priority_ordering" "test_all_word_boundary_priorities"
proof -
  show "test_empty_queue" using emptied [OF bq.invar_empty bq.list_empty] by (simp add: test_empty_queue_def)
  show "test_fifo_same_priority"
  proof -
    let ?ts = "map (\<lambda>i. task_ref (of_nat i) 5 0) [1..<101]"
    have d: "delivery (foldl pbq_push pbq_new ?ts) = ?ts"
      unfolding pushed(2) by (rule sort_key_id_if_sorted) (simp add: delivery_key_def task_ref_def comp_def sorted_wrt_iff_nth_less)
    have "foldl (\<lambda>q i. pbq_push q (task_ref i 5 0)) pbq_new (map of_nat [1..<101]) = foldl pbq_push pbq_new ?ts"
      by (simp add: foldl_map)
    moreover have "pops (map (\<lambda>expected t. task_id t = expected \<and> task_priority t = 5) (map of_nat [1..<101])) pbq_is_empty (foldl pbq_push pbq_new ?ts)"
      by (rule pops_delivery [OF pushed(1)]) (unfold d, auto simp: list_all2_conv_all_nth task_ref_def emptied)
    moreover have "pbq_len (foldl pbq_push pbq_new ?ts) = 100" unfolding bq.size_list [OF pushed(1)] d by simp
    ultimately show ?thesis by (simp add: test_fifo_same_priority_def Let_def del: upt_Suc)
  qed
  show "test_priority_ordering"
  proof -
    let ?ts = "[task_ref 1 10 0, task_ref 2 250 0, task_ref 3 0 0, task_ref 4 128 0, task_ref 5 255 0, task_ref 6 10 0]"
    have d: "delivery (foldl pbq_push pbq_new ?ts) =
        [task_ref 5 255 0, task_ref 2 250 0, task_ref 4 128 0, task_ref 1 10 0, task_ref 6 10 0, task_ref 3 0 0]"
      unfolding pushed(2) by (simp add: delivery_key_def task_ref_def)
    have "pops (map (\<lambda>expected t. task_id t = expected) [5, 2, 4, 1, 6, 3]) pops_none (foldl pbq_push pbq_new ?ts)"
      by (rule pops_delivery [OF pushed(1)]) (unfold d, auto simp: task_ref_def emptied)
    then show ?thesis by (simp add: test_priority_ordering_def)
  qed
  show "test_all_word_boundary_priorities"
  proof -
    let ?bs = "[0, 63, 64, 127, 128, 191, 192, 255] :: u8 list"
    let ?ts = "map (\<lambda>p. task_ref (ucast p) p 0) ?bs"
    have d: "delivery (foldl pbq_push pbq_new ?ts) = rev ?ts"
      unfolding pushed(2) by (simp add: delivery_key_def task_ref_def)
    have "pops (map (\<lambda>p t. task_priority t = p \<and> task_id t = ucast p) (rev ?bs)) pbq_is_empty (foldl pbq_push pbq_new ?ts)"
      by (rule pops_delivery [OF pushed(1)]) (unfold d, auto simp: task_ref_def emptied)
    moreover have "sort ?bs = ?bs" by (simp add: sorted_sort_id)
    ultimately show ?thesis unfolding test_all_word_boundary_priorities_def Let_def by (simp add: foldl_map)
  qed
qed

section \<open>Payload cache\<close>

definition test_cache_hit_and_miss :: bool where
  "test_cache_hit_and_miss =
     (let payload = text_bytes ''hello world'';
          cache = cache_insert (cache_new 10) 1 payload;
          (r1, cache) = cache_get cache 1;
          (r2, cache) = cache_get cache 2
      in r1 = Some payload \<and> r2 = None \<and> cache_stats cache = (1, 1, 0))"

definition test_cache_bounded_eviction :: bool where
  "test_cache_bounded_eviction =
     (let cache = cache_insert (cache_insert (cache_insert (cache_new 3) 1 [1]) 2 [2]) 3 [3];
          len3 = cache_len cache;
          cache = cache_insert cache 4 [4];
          len4 = cache_len cache;
          (r1, cache) = cache_get cache 1;
          (r2, cache) = cache_get cache 2;
          (r3, cache) = cache_get cache 3;
          (r4, cache) = cache_get cache 4;
          (_, _, evictions) = cache_stats cache
      in len3 = 3 \<and> len4 = 3 \<and> r1 = None \<and> r2 = Some [2] \<and> r3 = Some [3] \<and> r4 = Some [4] \<and> evictions = 1)"

definition test_cache_explicit_removal :: bool where
  "test_cache_explicit_removal =
     (let cache = cache_insert (cache_new 10) 1 (text_bytes ''task 1'');
          len1 = cache_len cache;
          (removed, cache) = cache_remove cache 1;
          len2 = cache_len cache;
          (r, cache) = cache_get cache 1
      in len1 = 1 \<and> removed \<noteq> None \<and> len2 = 0 \<and> r = None)"

lemma payload_cache_tests: "test_cache_hit_and_miss" "test_cache_bounded_eviction" "test_cache_explicit_removal"
  by (simp_all add: test_cache_hit_and_miss_def test_cache_bounded_eviction_def test_cache_explicit_removal_def
      cache_new_def cache_insert_def cache_get_def cache_remove_def cache_len_def cache_stats_def Let_def
      hm_get_def hm_insert_def hm_remove_def hm_contains_def)

end
