(* ===== verification/Spec2Isabelle.thy ===== *)
theory Spec2Isabelle
  imports Server_Api Command_Line Compaction_Restart Durability Worker_Pool Benchmark_Http Unit_Tests
begin

text \<open>
  Nesso is a persistent task queue. Producers push payloads with a priority, consumers lease
  the first task for some time and acknowledge it or give it back; a lease that runs out makes
  the task ready again, and the third failure dead-letters it. Every change is a record in a
  write-ahead log of numbered segment files (\<open>src/src/storage/record.rs\<close>, \<open>wal.rs\<close>). The
  engine (\<open>engine.rs\<close>) keeps in memory which tasks are ready (\<open>priority_queue.rs\<close>), which
  are leased, where their records are and some of their payloads (\<open>payload_cache.rs\<close>); it
  rebuilds this from the log when a directory is opened, and compacts closed segments into
  one. \<open>group_commit.rs\<close> batches the \<open>fsync\<close> calls of concurrent clients, \<open>server.rs\<close>
  offers the queues over HTTP and \<open>main.rs\<close> reads the command line.

  The theories, bottom up.

  \<^item> \<open>Nesso_Prelude\<close>: machine integers as words, hash maps as association lists, Rust errors
    and panics as values, big-endian bytes.
  \<^item> \<open>Wal_Record\<close> (\<open>record.rs\<close>): \<open>encode\<close> and \<open>decode\<close> of a frame. They are inverse to
    each other; torn, damaged and oversized frames are rejected.
  \<^item> \<open>Task_Queue\<close> (\<open>priority_queue.rs\<close>): 256 buckets and a bitmap of four words. They
    implement a stable priority list, stated as the locale \<open>stable_priority_queue\<close> and
    interpreted as \<open>bq\<close>.
  \<^item> \<open>Payload_Cache\<close> (\<open>payload_cache.rs\<close>): a bounded cache that forgets but never lies
    (a locale of coherent caches, interpreted as \<open>pc\<close>).
  \<^item> \<open>File_System\<close>: a directory as names, inodes and contents, so that an open file outlives
    its name; the names of segments and the text of the plan file.
  \<^item> \<open>Wal_Log\<close> and \<open>Wal_Spec\<close> (\<open>wal.rs\<close>): \<open>open\<close>, \<open>append\<close>, \<open>rotate\<close>, \<open>read_at\<close> and
    the iterator, and the log they implement. \<open>wal_repr\<close> relates the files to the records
    per segment, \<open>wal_holds\<close> to one list of locations and records; the laws of that list are
    a locale, interpreted as \<open>wl\<close>, and everything above rests on it. Opening after a torn
    write finds the log before it.
  \<^item> \<open>Compaction\<close> and \<open>Compaction_Spec\<close> (\<open>wal.rs\<close>): both phases of a compaction with every
    state of the directory in which the process may die. The compacted log describes the same
    tasks.
  \<^item> \<open>Engine\<close> (\<open>engine.rs\<close>): the state and all its operations. What holds the lock is one
    function; \<open>pop_and_lease\<close>, \<open>compact\<close> and the expiration worker are split where they
    release it. \<open>Engine_Log\<close> says which tasks a log describes, \<open>Engine_Inv\<close> relates the
    memory to the log and shows that every operation keeps this, \<open>Engine_Recovery\<close> that
    opening a directory establishes it.
  \<^item> \<open>Engine_Spec\<close>: the contract, a queue of tasks without files, locations or caches
    (\<open>task_spec\<close>, one definition per kind of step), and the simulation of the regular runs of
    the engine by it (the locale \<open>forward_sim\<close>, interpreted as \<open>es\<close>). \<open>Engine_Correct\<close> holds the properties
    of the operations, of restarts and of crashes.
  \<^item> \<open>Engine_Compaction\<close>: a compaction of a running engine changes nothing a client can see.
    \<open>Engine_Faults\<close>: what a restart after a compaction, and the gap between the two locked
    sections of the expiration worker, can do to a task. \<open>Compaction_Restart\<close>: apart from that,
    a restart after a compaction finds what a restart without it finds.
  \<^item> \<open>Group_Commit\<close> (\<open>group_commit.rs\<close>): the critical sections of \<open>sync\<close> as functions,
    threads as program counters, runs as sequences of \<open>gc_step\<close>. The invariant gives the
    serial order of batches; with one file a confirmed write is durable, with two it need not
    be.
  \<^item> \<open>Durability\<close>: \<open>Engine::sync\<close>, which puts the log and the coordinator together. Runs of
    \<open>log_step\<close> interleave appends, rotations and calls of \<open>sync\<close>; a crash of the operating
    system keeps what is durable in every file and any part of the rest. That it keeps the
    directory is a hypothesis of its own.
  \<^item> \<open>Expiration_Worker\<close> (\<open>engine.rs\<close>): the loop of the expiration thread and the callers of
    \<open>stop\<close> as program counters between their locked sections, with runs of \<open>worker_step\<close>. The
    invariant excludes missed wake-ups; in fair runs \<open>stop\<close> returns.
  \<^item> \<open>Server\<close> (\<open>server.rs\<close>): the table of queues, the error mapping and the handlers;
    \<open>Server_Api\<close>: the dispatch over the routes, the types of the answers and the shutdown of all
    queues; \<open>Command_Line\<close> (\<open>main.rs\<close>): the loop over the arguments.
  \<^item> \<open>Worker_Pool\<close> (\<open>src/examples/worker_pool.rs\<close>): three workers as clients of one engine, with
    any interleaving of their calls. \<open>Unit_Tests\<close>: the tests inside \<open>priority_queue.rs\<close> and
    \<open>payload_cache.rs\<close>, run on the model.
  \<^item> \<open>Bench_Threads\<close>, \<open>Benchmark\<close> and \<open>Benchmark_Http\<close> (\<open>src/src/bin/bench.rs\<close>): the
    threads of the benchmark as program counters over a service that is a parameter. What they
    rely on is the locale \<open>bench_service\<close>, interpreted on the calls of the engine (\<open>ip\<close>) and on
    the requests to the server (\<open>hs\<close>); its lemmas account for every task, which gives the
    integrity checks of both parts of the benchmark and the integrity columns of its report. A
    phase carries a history that counts what the program does not see: leases that ran out,
    operations that took effect although the client saw an error, and collected leases that ended
    before the worker processed them.

  Decisions. Ids, timestamps, retries and batch numbers are words and wrap as in a release
  build; file offsets, lengths and counters of requests are natural numbers. The checksum, the
  Base64 codec, the clock and the results of the operating system are arguments. System calls
  can fail in \<open>append\<close> (with any number of bytes written) and, per request, in the server's
  \<open>sync\<close> and directory creation; elsewhere they succeed. The file operations of one process
  reach the disk in program order, so a crash of the process leaves a prefix of them. A crash of
  the operating system may lose contents of files that were not synced; the loss of power, and
  with it the difference between the sync modes, is not covered. Atomic flags
  that are loaded with relaxed ordering may be seen late. \<open>pop_and_lease\<close> takes
  at most five steps behind the lock, which is the bound of \<open>pop_run\<close>; it is shown to be
  enough under any interference. Runs of the coordinator are shorter than
  \<open>2 ^ 64 - 1\<close> steps, so that batch numbers do not wrap, and appends assume that the segment
  number has not reached its end. The simulation of the engine covers its regular runs.
  They leave out three things the program can do, because each of them can lead to a state that is
  no state of the abstract queue: the write of a lease record that fails (the task is then neither
  ready nor leased, \<open>pop_append_failure\<close>), a lease that ends after the expiration worker has
  collected it and before it is processed (\<open>Engine_Faults\<close>), and \<open>compact\<close>, which is
  treated on its own: after a compaction recovery can fail to find a payload (\<open>Engine_Faults\<close>),
  and \<open>Compaction_Restart\<close> gives the condition under which it does not. In the server the
  deadline of a poll is an \<open>Instant\<close> of at most \<open>2 ^ 63\<close> seconds; a poll whose deadline does not
  fit panics and has no answer.

  Not modelled: poisoned mutexes, which only a panic of another thread causes; the matching of
  paths, JSON, the answers to requests that the framework refuses before a handler runs, the runtime
  and the wait for a signal, which belong to libraries; requests that the server processes only
  after their client has given them up; what the benchmark measures
  (times, histograms, floating-point statistics), the tables it prints, and its runs on SQLite.
\<close>

end
